(* ===== verification/Prelude.thy ===== *)
theory Prelude
  imports
    Main
    "HOL-Library.Word"
    "HOL-Library.Char_ord"
    "HOL-Library.List_Lexorder"
    "HOL-Library.Product_Lexorder"
    "HOL-Library.Sublist"
begin

text \<open>
  The shared vocabulary of the development: what the crates use of the Rust language and its
  standard library. A Rust \<open>String\<close> is its UTF-8 byte sequence, so it is a \<^typ>\<open>string\<close> whose
  characters are bytes; \<open>len\<close>, byte indices and the byte-wise order of \<open>BTreeMap\<close> keys are then
  those of the list. Binary buffers are lists of 8-bit words. The operations are the ones the
  sources call: ASCII case folding, \<open>trim\<close>, \<open>split\<close>, \<open>join\<close>, \<open>strip_prefix\<close>, \<open>find\<close>, decimal
  \<open>parse\<close> and \<open>Display\<close>, \<open>to_le_bytes\<close> and its relatives, slices that panic or return
  \<open>None\<close> out of range, and UTF-8 validation.
\<close>

unbundle bit_operations_syntax

type_synonym u8 = "8 word"
type_synonym u16 = "16 word"
type_synonym u32 = "32 word"
type_synonym u64 = "64 word"
type_synonym bytes = "u8 list"

named_theorems rust_str \<open>facts about the string operations\<close>
named_theorems rust_bytes \<open>facts about the byte-level encodings\<close>

section \<open>Characters and case\<close>

definition is_ascii_uppercase :: "char \<Rightarrow> bool" where
  "is_ascii_uppercase c \<longleftrightarrow> CHR ''A'' \<le> c \<and> c \<le> CHR ''Z''"

definition is_ascii_lowercase :: "char \<Rightarrow> bool" where
  "is_ascii_lowercase c \<longleftrightarrow> CHR ''a'' \<le> c \<and> c \<le> CHR ''z''"

definition is_ascii_digit :: "char \<Rightarrow> bool" where
  "is_ascii_digit c \<longleftrightarrow> CHR ''0'' \<le> c \<and> c \<le> CHR ''9''"

definition is_ascii_hexdigit :: "char \<Rightarrow> bool" where
  "is_ascii_hexdigit c \<longleftrightarrow>
     is_ascii_digit c \<or> CHR ''a'' \<le> c \<and> c \<le> CHR ''f'' \<or> CHR ''A'' \<le> c \<and> c \<le> CHR ''F''"

definition ascii_lower :: "char \<Rightarrow> char" where
  "ascii_lower c = (if is_ascii_uppercase c then char_of (of_char c + 32 :: nat) else c)"

definition ascii_upper :: "char \<Rightarrow> char" where
  "ascii_upper c = (if is_ascii_lowercase c then char_of (of_char c - 32 :: nat) else c)"

definition to_ascii_lowercase :: "string \<Rightarrow> string" where
  "to_ascii_lowercase s = map ascii_lower s"

definition to_ascii_uppercase :: "string \<Rightarrow> string" where
  "to_ascii_uppercase s = map ascii_upper s"

definition eq_ignore_ascii_case :: "string \<Rightarrow> string \<Rightarrow> bool" where
  "eq_ignore_ascii_case s t \<longleftrightarrow> to_ascii_lowercase s = to_ascii_lowercase t"

section \<open>White space and trimming\<close>

text \<open>
  The number of bytes of the \<open>White_Space\<close> character a string starts with, 0 if it starts with
  another character: U+0009 to U+000D and U+0020 (one byte), U+0085 and U+00A0 (two bytes),
  U+1680, U+2000 to U+200A, U+2028, U+2029, U+202F, U+205F and U+3000 (three bytes).
\<close>

definition is_ascii_space :: "char \<Rightarrow> bool" where
  "is_ascii_space c \<longleftrightarrow> CHR 0x09 \<le> c \<and> c \<le> CHR 0x0D \<or> c = CHR '' ''"

fun ws_len :: "string \<Rightarrow> nat" where
  "ws_len [] = 0"
| "ws_len (a # r) =
     (if is_ascii_space a then 1
      else if a = CHR 0xC2 then
        (case r of b # _ \<Rightarrow> if b = CHR 0x85 \<or> b = CHR 0xA0 then 2 else 0 | _ \<Rightarrow> 0)
      else if a = CHR 0xE1 then
        (case r of b # c # _ \<Rightarrow> if b = CHR 0x9A \<and> c = CHR 0x80 then 3 else 0 | _ \<Rightarrow> 0)
      else if a = CHR 0xE2 then
        (case r of b # c # _ \<Rightarrow>
           if b = CHR 0x80 \<and> (CHR 0x80 \<le> c \<and> c \<le> CHR 0x8A \<or> c \<in> {CHR 0xA8, CHR 0xA9, CHR 0xAF})
              \<or> b = CHR 0x81 \<and> c = CHR 0x9F
           then 3 else 0 | _ \<Rightarrow> 0)
      else if a = CHR 0xE3 then
        (case r of b # c # _ \<Rightarrow> if b = CHR 0x80 \<and> c = CHR 0x80 then 3 else 0 | _ \<Rightarrow> 0)
      else 0)"

text \<open>The same for the character a string ends with, read from the end.\<close>

definition ws_len_end :: "string \<Rightarrow> nat" where
  "ws_len_end s =
     (if s \<noteq> [] \<and> ws_len [last s] = 1 then 1
      else if 2 \<le> length s \<and> ws_len (drop (length s - 2) s) = 2 then 2
      else if 3 \<le> length s \<and> ws_len (drop (length s - 3) s) = 3 then 3
      else 0)"

function trim_start :: "string \<Rightarrow> string" where
  "trim_start s = (if ws_len s = 0 then s else trim_start (drop (ws_len s) s))"
  by pat_completeness auto
termination
proof (relation "measure length")
  fix s :: string
  assume "ws_len s \<noteq> 0"
  then have "s \<noteq> []" by auto
  with \<open>ws_len s \<noteq> 0\<close> show "(drop (ws_len s) s, s) \<in> measure length" by simp
qed simp

function trim_end :: "string \<Rightarrow> string" where
  "trim_end s = (if ws_len_end s = 0 then s else trim_end (take (length s - ws_len_end s) s))"
  by pat_completeness auto
termination
proof (relation "measure length")
  fix s :: string
  assume "ws_len_end s \<noteq> 0"
  then have "s \<noteq> []" by (auto simp: ws_len_end_def split: if_splits)
  with \<open>ws_len_end s \<noteq> 0\<close> show "(take (length s - ws_len_end s) s, s) \<in> measure length" by simp
qed simp

declare trim_start.simps [simp del] trim_end.simps [simp del]

definition trim :: "string \<Rightarrow> string" where
  "trim s = trim_end (trim_start s)"


text \<open>\<open>split_whitespace\<close>: the maximal runs without white space.\<close>

function split_ws_acc :: "string \<Rightarrow> string \<Rightarrow> string list" where
  "split_ws_acc cur s =
     (if s = [] then (if cur = [] then [] else [cur])
      else if ws_len s = 0 then split_ws_acc (cur @ [hd s]) (tl s)
      else (if cur = [] then [] else [cur]) @ split_ws_acc [] (drop (ws_len s) s))"
  by pat_completeness auto
termination
  by (relation "measure (\<lambda>(cur, s). length s)") auto

declare split_ws_acc.simps [simp del]

definition split_whitespace :: "string \<Rightarrow> string list" where
  "split_whitespace s = split_ws_acc [] s"

section \<open>Splitting, joining and searching\<close>

fun join :: "string \<Rightarrow> string list \<Rightarrow> string" where
  "join sep [] = []"
| "join sep [x] = x"
| "join sep (x # y # r) = x @ sep @ join sep (y # r)"

text \<open>\<open>str::split\<close> on a one-byte character: always one part more than there are separators.\<close>

fun split_char :: "char \<Rightarrow> string \<Rightarrow> string list" where
  "split_char d [] = [[]]"
| "split_char d (c # s) =
     (if c = d then [] # split_char d s
      else (case split_char d s of [] \<Rightarrow> [[c]] | p # ps \<Rightarrow> (c # p) # ps))"

definition starts_with :: "string \<Rightarrow> string \<Rightarrow> bool" where
  "starts_with s p \<longleftrightarrow> take (length p) s = p"

definition ends_with :: "string \<Rightarrow> string \<Rightarrow> bool" where
  "ends_with s p \<longleftrightarrow> length p \<le> length s \<and> drop (length s - length p) s = p"

definition strip_prefix :: "string \<Rightarrow> string \<Rightarrow> string option" where
  "strip_prefix s p = (if starts_with s p then Some (drop (length p) s) else None)"

text \<open>\<open>str::find\<close> of a substring: the least byte position at which it occurs.\<close>

fun find_str :: "string \<Rightarrow> string \<Rightarrow> nat option" where
  "find_str [] p = (if p = [] then Some 0 else None)"
| "find_str (c # s) p =
     (if starts_with (c # s) p then Some 0 else map_option Suc (find_str s p))"

definition trim_end_matches :: "char \<Rightarrow> string \<Rightarrow> string" where
  "trim_end_matches c s = rev (dropWhile (\<lambda>x. x = c) (rev s))"

section \<open>Decimal numbers\<close>

definition digit_char :: "nat \<Rightarrow> char" where
  "digit_char d = char_of (48 + d)"

definition digit_val :: "char \<Rightarrow> nat" where
  "digit_val c = of_char c - 48"

text \<open>\<open>Display\<close> of an unsigned integer.\<close>

fun nat_str :: "nat \<Rightarrow> string" where
  "nat_str n = (if n < 10 then [digit_char n] else nat_str (n div 10) @ [digit_char (n mod 10)])"

declare nat_str.simps [simp del]

definition digits_val :: "string \<Rightarrow> nat" where
  "digits_val s = foldl (\<lambda>n c. 10 * n + digit_val c) 0 s"

text \<open>
  \<open>str::parse\<close> for the unsigned type of the given width: an optional \<open>+\<close>, then one or more
  decimal digits, leading zeros allowed, and \<open>Err\<close> when the value does not fit.
\<close>

definition parse_digits :: "string \<Rightarrow> nat option" where
  "parse_digits s = (if s \<noteq> [] \<and> list_all is_ascii_digit s then Some (digits_val s) else None)"

definition parse_uint :: "nat \<Rightarrow> string \<Rightarrow> nat option" where
  "parse_uint w s =
     (case parse_digits (if starts_with s ''+'' then tl s else s) of
        None \<Rightarrow> None
      | Some n \<Rightarrow> if n < 2 ^ w then Some n else None)"

text \<open>The same for the signed type of width \<open>w\<close>, which also takes a leading \<open>-\<close>.\<close>

definition parse_sint :: "nat \<Rightarrow> string \<Rightarrow> int option" where
  "parse_sint w s =
     (if starts_with s ''-'' then
        (case parse_digits (tl s) of
           None \<Rightarrow> None
         | Some n \<Rightarrow> if n \<le> 2 ^ (w - 1) then Some (- int n) else None)
      else
        (case parse_digits (if starts_with s ''+'' then tl s else s) of
           None \<Rightarrow> None
         | Some n \<Rightarrow> if n < 2 ^ (w - 1) then Some (int n) else None))"

section \<open>Integers as bytes\<close>

text \<open>
  \<open>to_le\<close> gives the low \<open>n\<close> bytes of a word, least significant first (\<open>to_le_bytes\<close> when the
  word is \<open>n\<close> bytes wide); \<open>of_le\<close> is \<open>from_le_bytes\<close>. Big-endian is the reverse.
\<close>

fun to_le :: "nat \<Rightarrow> 'a::len word \<Rightarrow> bytes" where
  "to_le 0 w = []"
| "to_le (Suc n) w = ucast w # to_le n (drop_bit 8 w)"

fun of_le :: "bytes \<Rightarrow> 'a::len word" where
  "of_le [] = 0"
| "of_le (b # bs) = ucast b OR push_bit 8 (of_le bs)"

definition to_be :: "nat \<Rightarrow> 'a::len word \<Rightarrow> bytes" where
  "to_be n w = rev (to_le n w)"

definition of_be :: "bytes \<Rightarrow> 'a::len word" where
  "of_be bs = of_le (rev bs)"

section \<open>Slices\<close>

text \<open>\<open>slice.get(a..b)\<close>: \<open>None\<close> when the range is not inside the slice.\<close>

definition slice :: "'a list \<Rightarrow> nat \<Rightarrow> nat \<Rightarrow> 'a list option" where
  "slice xs a b = (if a \<le> b \<and> b \<le> length xs then Some (take (b - a) (drop a xs)) else None)"

text \<open>\<open>chunks_exact\<close>: the consecutive full chunks, a shorter rest is dropped.\<close>

fun chunks_exact :: "nat \<Rightarrow> 'a list \<Rightarrow> 'a list list" where
  "chunks_exact n xs =
     (if n = 0 \<or> length xs < n then [] else take n xs # chunks_exact n (drop n xs))"

declare chunks_exact.simps [simp del]

section \<open>Iterators over results\<close>

text \<open>\<open>collect\<close> into a \<open>Result\<close> or an \<open>Option\<close>: the first failure wins.\<close>

fun collect_result :: "('e + 'a) list \<Rightarrow> 'e + 'a list" where
  "collect_result [] = Inr []"
| "collect_result (Inl e # _) = Inl e"
| "collect_result (Inr x # r) =
     (case collect_result r of Inl e \<Rightarrow> Inl e | Inr xs \<Rightarrow> Inr (x # xs))"

fun collect_option :: "'a option list \<Rightarrow> 'a list option" where
  "collect_option [] = Some []"
| "collect_option (None # _) = None"
| "collect_option (Some x # r) =
     (case collect_option r of None \<Rightarrow> None | Some xs \<Rightarrow> Some (x # xs))"

text \<open>\<open>Iterator::max_by_key\<close>: of several greatest elements the last one.\<close>

fun max_by_key_acc :: "('a \<Rightarrow> nat) \<Rightarrow> 'a option \<Rightarrow> 'a list \<Rightarrow> 'a option" where
  "max_by_key_acc f acc [] = acc"
| "max_by_key_acc f acc (x # xs) =
     max_by_key_acc f
       (case acc of None \<Rightarrow> Some x | Some y \<Rightarrow> if f y \<le> f x then Some x else Some y) xs"

definition max_by_key :: "('a \<Rightarrow> nat) \<Rightarrow> 'a list \<Rightarrow> 'a option" where
  "max_by_key f xs = max_by_key_acc f None xs"

text \<open>\<open>Iterator::find_map\<close>.\<close>

fun find_map :: "('a \<Rightarrow> 'b option) \<Rightarrow> 'a list \<Rightarrow> 'b option" where
  "find_map f [] = None"
| "find_map f (x # xs) = (case f x of None \<Rightarrow> find_map f xs | Some y \<Rightarrow> Some y)"

section \<open>UTF-8\<close>

text \<open>
  \<open>std::str::from_utf8\<close> and \<open>String::from_utf8_lossy\<close>. \<open>utf8_step\<close> looks at the front of a
  byte sequence and gives the length of the well-formed character there, or the length of the
  maximal ill-formed prefix that the lossy conversion replaces by U+FFFD.
\<close>

definition is_cont :: "char \<Rightarrow> bool" where
  "is_cont c \<longleftrightarrow> CHR 0x80 \<le> c \<and> c \<le> CHR 0xBF"

definition utf8_second :: "char \<Rightarrow> char \<Rightarrow> bool" where
  "utf8_second a b \<longleftrightarrow>
     (if a = CHR 0xE0 then CHR 0xA0 \<le> b \<and> b \<le> CHR 0xBF
      else if a = CHR 0xED then CHR 0x80 \<le> b \<and> b \<le> CHR 0x9F
      else if a = CHR 0xF0 then CHR 0x90 \<le> b \<and> b \<le> CHR 0xBF
      else if a = CHR 0xF4 then CHR 0x80 \<le> b \<and> b \<le> CHR 0x8F
      else is_cont b)"

definition utf8_width :: "char \<Rightarrow> nat" where
  "utf8_width a =
     (if a \<le> CHR 0x7F then 1
      else if CHR 0xC2 \<le> a \<and> a \<le> CHR 0xDF then 2
      else if CHR 0xE0 \<le> a \<and> a \<le> CHR 0xEF then 3
      else if CHR 0xF0 \<le> a \<and> a \<le> CHR 0xF4 then 4
      else 0)"

fun utf8_step :: "string \<Rightarrow> nat + nat" where
  "utf8_step [] = Inl 0"
| "utf8_step (a # r) =
     (let w = utf8_width a in
      if w = 0 then Inl 1
      else if w = 1 then Inr 1
      else
        (case r of
           [] \<Rightarrow> Inl 1
         | b # r1 \<Rightarrow>
             if \<not> utf8_second a b then Inl 1
             else if w = 2 then Inr 2
             else
               (case r1 of
                  [] \<Rightarrow> Inl 2
                | c # r2 \<Rightarrow>
                    if \<not> is_cont c then Inl 2
                    else if w = 3 then Inr 3
                    else
                      (case r2 of
                         [] \<Rightarrow> Inl 3
                       | d # _ \<Rightarrow> if is_cont d then Inr 4 else Inl 3))))"

fun valid_utf8_fuel :: "nat \<Rightarrow> string \<Rightarrow> bool" where
  "valid_utf8_fuel 0 s = (s = [])"
| "valid_utf8_fuel (Suc f) s =
     (s = [] \<or> (case utf8_step s of Inl _ \<Rightarrow> False | Inr n \<Rightarrow> valid_utf8_fuel f (drop n s)))"

definition valid_utf8 :: "string \<Rightarrow> bool" where
  "valid_utf8 s = valid_utf8_fuel (length s) s"

fun utf8_lossy_fuel :: "nat \<Rightarrow> string \<Rightarrow> string" where
  "utf8_lossy_fuel 0 s = []"
| "utf8_lossy_fuel (Suc f) s =
     (if s = [] then []
      else
        (case utf8_step s of
           Inr n \<Rightarrow> take n s @ utf8_lossy_fuel f (drop n s)
         | Inl n \<Rightarrow> [CHR 0xEF, CHR 0xBF, CHR 0xBD] @ utf8_lossy_fuel f (drop n s)))"

definition from_utf8_lossy :: "bytes \<Rightarrow> string" where
  "from_utf8_lossy bs = utf8_lossy_fuel (length bs) (map (\<lambda>b. char_of (unat b)) bs)"

definition as_bytes :: "string \<Rightarrow> bytes" where
  "as_bytes s = map (\<lambda>c. of_nat (of_char c)) s"


section \<open>Case folding\<close>

lemma ascii_lower_not_upper: "\<not> is_ascii_uppercase (ascii_lower c)"
proof (cases "is_ascii_uppercase c")
  case True
  then have "65 \<le> (of_char c :: nat)" "(of_char c :: nat) \<le> 90"
    by (simp_all add: is_ascii_uppercase_def less_eq_char_def)
  with True show ?thesis
    by (simp add: ascii_lower_def is_ascii_uppercase_def less_eq_char_def)
next
  case False
  then show ?thesis by (simp add: ascii_lower_def)
qed

lemma ascii_lower_id: "\<not> is_ascii_uppercase c \<Longrightarrow> ascii_lower c = c"
  by (simp add: ascii_lower_def)

lemma ascii_lower_idem [simp, rust_str]: "ascii_lower (ascii_lower c) = ascii_lower c"
  by (rule ascii_lower_id) (rule ascii_lower_not_upper)

lemma to_ascii_lowercase_idem [simp, rust_str]:
  "to_ascii_lowercase (to_ascii_lowercase s) = to_ascii_lowercase s"
  by (simp add: to_ascii_lowercase_def)

lemma length_to_ascii_lowercase [simp]: "length (to_ascii_lowercase s) = length s"
  by (simp add: to_ascii_lowercase_def)

lemma to_ascii_lowercase_append [simp]:
  "to_ascii_lowercase (s @ t) = to_ascii_lowercase s @ to_ascii_lowercase t"
  by (simp add: to_ascii_lowercase_def)

lemma to_ascii_lowercase_Nil [simp]: "to_ascii_lowercase [] = []"
  by (simp add: to_ascii_lowercase_def)

lemma to_ascii_lowercase_eq_Nil [simp]: "to_ascii_lowercase s = [] \<longleftrightarrow> s = []"
  by (simp add: to_ascii_lowercase_def)

lemma to_ascii_lowercase_id:
  "to_ascii_lowercase s = s \<longleftrightarrow> (\<forall>c \<in> set s. \<not> is_ascii_uppercase c)"
  by (auto simp: to_ascii_lowercase_def map_idI ascii_lower_id)
     (metis ascii_lower_not_upper in_set_conv_nth length_map nth_map)

lemma eq_ignore_ascii_case_refl [simp]: "eq_ignore_ascii_case s s"
  by (simp add: eq_ignore_ascii_case_def)

lemma eq_ignore_ascii_case_sym: "eq_ignore_ascii_case s t \<longleftrightarrow> eq_ignore_ascii_case t s"
  by (auto simp: eq_ignore_ascii_case_def)

section \<open>Trimming\<close>

text \<open>A byte that is a character of its own and no white space.\<close>

definition solid :: "char \<Rightarrow> bool" where
  "solid c \<longleftrightarrow> c \<le> CHR 0x7F \<and> \<not> is_ascii_space c"

lemma solid_not_lead:
  assumes "solid c"
  shows "\<not> is_ascii_space c" "c \<noteq> CHR 0x85" "c \<noteq> CHR 0xA0" "c \<noteq> CHR 0x80" "c \<noteq> CHR 0x9F"
    "\<not> CHR 0x80 \<le> c" "c \<noteq> CHR 0xA8" "c \<noteq> CHR 0xA9" "c \<noteq> CHR 0xAF"
    "c \<noteq> CHR 0x81" "c \<noteq> CHR 0x9A" "c \<noteq> CHR 0xC2" "c \<noteq> CHR 0xE1" "c \<noteq> CHR 0xE2" "c \<noteq> CHR 0xE3"
  using assms by (auto simp: solid_def less_eq_char_def)

lemma solid_ws_len [simp]: "solid c \<Longrightarrow> ws_len (c # s) = 0"
  by (simp add: solid_not_lead)

lemma ws_len_le_3: "ws_len s \<le> 3"
  by (cases s) (auto split: list.splits)

declare ws_len.simps(2) [simp del]

lemma trim_start_id: "ws_len s = 0 \<Longrightarrow> trim_start s = s"
  by (simp add: trim_start.simps)

lemma trim_end_id: "ws_len_end s = 0 \<Longrightarrow> trim_end s = s"
  by (simp add: trim_end.simps)

lemma trim_Nil [simp]: "trim [] = []"
  by (simp add: trim_def trim_start_id trim_end_id ws_len_end_def)

lemma ws_len_last_solid: "solid c \<Longrightarrow> ws_len (s @ [c]) \<noteq> Suc (length s)"
proof -
  assume c: "solid c"
  consider "s = []" | a where "s = [a]" | a b where "s = [a, b]" | "3 \<le> length s"
    by (cases s; cases "tl s"; cases "tl (tl s)") auto
  then show ?thesis
  proof cases
    case 1
    with c show ?thesis by simp
  next
    case (2 a)
    with solid_not_lead [OF c] show ?thesis by (simp add: ws_len.simps)
  next
    case (3 a b)
    with solid_not_lead [OF c] show ?thesis by (simp add: ws_len.simps)
  next
    case 4
    with ws_len_le_3 [of "s @ [c]"] show ?thesis by linarith
  qed
qed

lemma solid_ws_len_end [simp]:
  assumes "solid c"
  shows "ws_len_end (s @ [c]) = 0"
proof -
  have two: "ws_len [b, c] \<noteq> 2" for b
    using ws_len_last_solid [OF assms, of "[b]"] by simp
  have three: "ws_len [a, b, c] \<noteq> 3" for a b
    using ws_len_last_solid [OF assms, of "[a, b]"] by simp
  have "ws_len [c] = 0" using assms by simp
  moreover have "ws_len (drop (length (s @ [c]) - 2) (s @ [c])) \<noteq> 2" if "2 \<le> length (s @ [c])"
  proof -
    from that obtain t b where "s = t @ [b]" by (cases s rule: rev_cases) auto
    then show ?thesis using two by simp
  qed
  moreover have "ws_len (drop (length (s @ [c]) - 3) (s @ [c])) \<noteq> 3" if "3 \<le> length (s @ [c])"
  proof -
    from that obtain t b where s: "s = t @ [b]" by (cases s rule: rev_cases) auto
    with that obtain u a where "t = u @ [a]" by (cases t rule: rev_cases) auto
    with s show ?thesis using three by simp
  qed
  ultimately show ?thesis by (auto simp: ws_len_end_def)
qed

lemma trim_solid [rust_str]:
  assumes "s \<noteq> []" "solid (hd s)" "solid (last s)"
  shows "trim s = s"
proof -
  from assms(1,2) have "trim_start s = s"
    by (cases s) (simp_all add: trim_start_id)
  moreover from assms(1,3) have "ws_len_end s = 0"
    by (metis append_butlast_last_id solid_ws_len_end)
  ultimately show ?thesis by (simp add: trim_def trim_end_id)
qed

section \<open>Splitting and joining\<close>

lemma join_Cons: "join sep (x # r) = x @ (if r = [] then [] else sep @ join sep r)"
  by (cases r) simp_all

lemma split_char_not_Nil [simp]: "split_char d s \<noteq> []"
  by (induction s) (auto split: list.splits)

lemma join_split_char [simp, rust_str]: "join [d] (split_char d s) = s"
proof (induction s)
  case (Cons c s)
  then show ?case by (cases "split_char d s") (auto simp: join_Cons split: if_splits)
qed simp

lemma split_char_free: "d \<notin> set s \<Longrightarrow> split_char d s = [s]"
  by (induction s) auto

lemma split_char_append:
  "d \<notin> set s \<Longrightarrow> split_char d (s @ d # t) = s # split_char d t"
  by (induction s) auto

lemma split_char_join [rust_str]:
  "ps \<noteq> [] \<Longrightarrow> \<forall>p \<in> set ps. d \<notin> set p \<Longrightarrow> split_char d (join [d] ps) = ps"
proof (induction ps)
  case (Cons p ps)
  then show ?case
    by (cases "ps = []") (auto simp: join_Cons split_char_free split_char_append)
qed simp

lemma join_append:
  "xs \<noteq> [] \<Longrightarrow> ys \<noteq> [] \<Longrightarrow> join sep (xs @ ys) = join sep xs @ sep @ join sep ys"
  by (induction xs) (auto simp: join_Cons)

lemma split_char_parts_free: "p \<in> set (split_char d s) \<Longrightarrow> d \<notin> set p"
  by (induction s arbitrary: p) (auto split: if_splits list.splits)

lemma starts_with_prefix: "starts_with s p \<longleftrightarrow> prefix p s"
  unfolding starts_with_def prefix_def by (metis append_eq_conv_conj append_take_drop_id)

lemma strip_prefix_append [simp]: "strip_prefix (p @ s) p = Some s"
  by (simp add: strip_prefix_def starts_with_def)

lemma strip_prefix_eq_Some [rust_str]: "strip_prefix s p = Some r \<longleftrightarrow> s = p @ r"
  unfolding strip_prefix_def starts_with_prefix by (auto simp: prefix_def)

lemma ends_with_suffix: "ends_with s p \<longleftrightarrow> suffix p s"
  unfolding ends_with_def suffix_def
  by (metis append_eq_append_conv append_take_drop_id diff_diff_cancel length_append length_drop le_add2)

lemma find_str_Some [rust_str]:
  "find_str s p = Some n \<longleftrightarrow>
     n \<le> length s \<and> prefix p (drop n s) \<and> (\<forall>m < n. \<not> prefix p (drop m s))"
proof (induction s p arbitrary: n rule: find_str.induct)
  case (1 p)
  then show ?case by (auto simp: prefix_def)
next
  case (2 c s p)
  show ?case
  proof (cases "prefix p (c # s)")
    case True
    then show ?thesis by (cases n) (auto simp: starts_with_prefix)
  next
    case False
    then show ?thesis
      using 2 by (cases n) (auto simp: starts_with_prefix less_Suc_eq_0_disj)
  qed
qed

lemma find_str_None [rust_str]:
  "find_str s p = None \<longleftrightarrow> (\<forall>n \<le> length s. \<not> prefix p (drop n s))"
proof (induction s p rule: find_str.induct)
  case (2 c s p)
  have "(\<forall>n \<le> length (c # s). \<not> prefix p (drop n (c # s))) \<longleftrightarrow>
        \<not> prefix p (c # s) \<and> (\<forall>n \<le> length s. \<not> prefix p (drop n s))"
    by (auto simp: less_Suc_eq_0_disj) (metis Suc_le_mono drop_Suc_Cons not0_implies_Suc drop0)
  with 2 show ?case by (auto simp: starts_with_prefix)
qed (auto simp: prefix_def)

section \<open>The edges of a string\<close>

lemma ws_len_end_after_solid:
  assumes "solid c"
  shows "ws_len_end (x @ c # y) = ws_len_end y"
proof -
  consider "y = []" | b where "y = [b]" | a b where "y = [a, b]" | "3 \<le> length y"
    by (cases y; cases "tl y"; cases "tl (tl y)") auto
  then show ?thesis
  proof cases
    case 1
    then show ?thesis using assms by (simp add: ws_len_end_def [of "[]"])
  next
    case (2 b)
    have "ws_len [c, b] = 0" "\<And>a. ws_len [a, c, b] \<noteq> 3"
      using assms by (simp, simp add: ws_len.simps solid_not_lead)
    moreover have "drop (length (x @ [c, b]) - 3) (x @ [c, b]) = [last x, c, b]" if "x \<noteq> []"
      using that by (cases x rule: rev_cases) auto
    ultimately show ?thesis using 2
      by (cases "x = []") (auto simp: ws_len_end_def)
  next
    case (3 a b)
    then show ?thesis using assms by (auto simp: ws_len_end_def)
  next
    case 4
    then have "y \<noteq> []" "drop (length y - Suc 0) (c # y) = drop (length y - 2) y"
      "drop (length y - 2) (c # y) = drop (length y - 3) y"
      by (auto simp: drop_Cons' numeral_eq_Suc)
    with 4 show ?thesis by (simp add: ws_len_end_def)
  qed
qed

lemma trim_id: "ws_len s = 0 \<Longrightarrow> ws_len_end s = 0 \<Longrightarrow> trim s = s"
  by (simp add: trim_def trim_start_id trim_end_id)

definition low :: "char \<Rightarrow> bool" where
  "low c \<longleftrightarrow> c \<le> CHR 0x7F"

lemma solid_low: "solid c \<Longrightarrow> low c"
  by (simp add: solid_def low_def)

lemma low_solid_or_space: "low c \<Longrightarrow> solid c \<or> is_ascii_space c"
  by (simp add: solid_def low_def)

lemma low_not_lead:
  assumes "low c"
  shows "c \<noteq> CHR 0x85" "c \<noteq> CHR 0xA0" "c \<noteq> CHR 0x80" "c \<noteq> CHR 0x9F"
    "\<not> CHR 0x80 \<le> c" "c \<noteq> CHR 0xA8" "c \<noteq> CHR 0xA9" "c \<noteq> CHR 0xAF" "c \<noteq> CHR 0x81" "c \<noteq> CHR 0x9A"
    "c \<noteq> CHR 0xC2" "c \<noteq> CHR 0xE1" "c \<noteq> CHR 0xE2" "c \<noteq> CHR 0xE3"
  using assms by (auto simp: low_def less_eq_char_def)

lemma ws_len_space: "is_ascii_space c \<Longrightarrow> ws_len (c # s) = 1"
  by (simp add: ws_len.simps)

lemma ws_len_end_after_low:
  assumes "low c" "y \<noteq> []"
  shows "ws_len_end (x @ c # y) = ws_len_end y"
proof -
  consider b where "y = [b]" | a b where "y = [a, b]" | "3 \<le> length y"
    using assms(2) by (cases y; cases "tl y"; cases "tl (tl y)") auto
  then show ?thesis
  proof cases
    case (1 b)
    have "ws_len [c, b] \<noteq> 2" "\<And>a. ws_len [a, c, b] \<noteq> 3"
      using assms by (simp_all add: ws_len.simps low_not_lead)
    moreover have "drop (length (x @ [c, b]) - 3) (x @ [c, b]) = [last x, c, b]" if "x \<noteq> []"
      using that by (cases x rule: rev_cases) auto
    ultimately show ?thesis using 1
      by (cases "x = []") (auto simp: ws_len_end_def)
  next
    case (2 a b)
    have "ws_len [c, a, b] \<noteq> 3" using assms by (simp add: ws_len.simps low_not_lead)
    then show ?thesis using 2 by (auto simp: ws_len_end_def)
  next
    case 3
    then have "y \<noteq> []" "drop (length y - Suc 0) (c # y) = drop (length y - 2) y"
      "drop (length y - 2) (c # y) = drop (length y - 3) y"
      by (auto simp: drop_Cons' numeral_eq_Suc)
    with 3 show ?thesis by (simp add: ws_len_end_def)
  qed
qed

lemma ws_len_high: "ws_len (c # s) = (if is_ascii_space c then 1 else ws_len (takeWhile (\<lambda>c. \<not> low c) (c # s)))"
proof (cases "low c")
  case True
  then show ?thesis by (auto simp: ws_len.simps low_not_lead)
next
  case False
  show ?thesis
  proof (cases s)
    case Nil
    then show ?thesis using False by simp (simp add: ws_len.simps)
  next
    case (Cons b r)
    then show ?thesis
      using False by (cases r) (auto simp: ws_len.simps low_not_lead)
  qed
qed

lemma join_prefix: "xs \<noteq> [] \<Longrightarrow> prefix (hd xs) (join sep xs)"
  by (cases xs) (simp_all add: join_Cons)

lemma join_suffix: "xs \<noteq> [] \<Longrightarrow> suffix (last xs) (join sep xs)"
  by (induction xs) (auto simp: join_Cons intro: suffix_appendI)

section \<open>Case folding and white space\<close>

lemma ascii_lower_eq_iff:
  assumes "\<not> is_ascii_uppercase c" "\<not> is_ascii_lowercase c"
  shows "ascii_lower x = c \<longleftrightarrow> x = c"
proof
  assume e: "ascii_lower x = c"
  show "x = c"
  proof (cases "is_ascii_uppercase x")
    case True
    then have "65 \<le> (of_char x :: nat)" "(of_char x :: nat) \<le> 90"
      by (simp_all add: is_ascii_uppercase_def less_eq_char_def)
    then have "is_ascii_lowercase (ascii_lower x)"
      using True by (simp add: ascii_lower_def is_ascii_lowercase_def less_eq_char_def)
    with e assms show ?thesis by simp
  qed (use e in \<open>simp add: ascii_lower_def\<close>)
qed (use assms in \<open>simp add: ascii_lower_id\<close>)

lemma ascii_lower_delim [simp]:
  "ascii_lower x = CHR 0x5C \<longleftrightarrow> x = CHR 0x5C" "ascii_lower x = CHR '','' \<longleftrightarrow> x = CHR '',''"
  "ascii_lower x = CHR ''+'' \<longleftrightarrow> x = CHR ''+''" "ascii_lower x = CHR ''='' \<longleftrightarrow> x = CHR ''=''"
  by (rule ascii_lower_eq_iff; simp add: is_ascii_uppercase_def is_ascii_lowercase_def less_eq_char_def)+

lemma ascii_lower_high: "\<not> low x \<Longrightarrow> ascii_lower x = x"
  by (rule ascii_lower_id) (auto simp: is_ascii_uppercase_def low_def less_eq_char_def)

lemma low_ascii_lower [simp]: "low (ascii_lower x) \<longleftrightarrow> low x"
proof (cases "is_ascii_uppercase x")
  case True
  then have "65 \<le> (of_char x :: nat)" "(of_char x :: nat) \<le> 90"
    by (simp_all add: is_ascii_uppercase_def less_eq_char_def)
  with True show ?thesis by (simp add: ascii_lower_def low_def less_eq_char_def)
qed (simp add: ascii_lower_id)

lemma ascii_lower_space: "ascii_lower x = CHR '' '' \<longleftrightarrow> x = CHR '' ''"
  by (rule ascii_lower_eq_iff; simp add: is_ascii_uppercase_def is_ascii_lowercase_def less_eq_char_def)

lemma is_ascii_space_lower [simp]: "is_ascii_space (ascii_lower x) \<longleftrightarrow> is_ascii_space x"
proof (cases "is_ascii_uppercase x")
  case True
  then have "65 \<le> (of_char x :: nat)" "(of_char x :: nat) \<le> 90"
    by (simp_all add: is_ascii_uppercase_def less_eq_char_def)
  with True show ?thesis
    unfolding is_ascii_space_def ascii_lower_space
    by (auto simp: ascii_lower_def less_eq_char_def)
qed (simp add: ascii_lower_id)

lemma takeWhile_high_lower:
  "takeWhile (\<lambda>c. \<not> low c) (to_ascii_lowercase s) = takeWhile (\<lambda>c. \<not> low c) s"
  by (induction s) (auto simp: to_ascii_lowercase_def ascii_lower_high)

lemma ws_len_lower [simp]: "ws_len (to_ascii_lowercase s) = ws_len s"
proof (cases s)
  case (Cons c r)
  have "to_ascii_lowercase s = ascii_lower c # to_ascii_lowercase r"
    by (simp add: Cons to_ascii_lowercase_def)
  then show ?thesis
    using takeWhile_high_lower [of s] Cons
    by (simp add: ws_len_high [of c r] ws_len_high [of "ascii_lower c"])
qed simp

lemma to_ascii_lowercase_take: "to_ascii_lowercase (take n s) = take n (to_ascii_lowercase s)"
  by (simp add: to_ascii_lowercase_def take_map)

lemma to_ascii_lowercase_drop: "to_ascii_lowercase (drop n s) = drop n (to_ascii_lowercase s)"
  by (simp add: to_ascii_lowercase_def drop_map)

lemma ws_len_end_lower [simp]: "ws_len_end (to_ascii_lowercase s) = ws_len_end s"
proof -
  have "ws_len [last (to_ascii_lowercase s)] = ws_len [last s]" if "s \<noteq> []"
    using that ws_len_lower [of "[last s]"] by (simp add: to_ascii_lowercase_def last_map)
  then show ?thesis
    by (auto simp: ws_len_end_def simp flip: to_ascii_lowercase_drop)
qed

lemma trim_start_lower: "trim_start (to_ascii_lowercase s) = to_ascii_lowercase (trim_start s)"
proof (induction s rule: trim_start.induct)
  case (1 s)
  then show ?case
    by (subst (1 2) trim_start.simps) (simp add: to_ascii_lowercase_drop)
qed

lemma trim_end_lower: "trim_end (to_ascii_lowercase s) = to_ascii_lowercase (trim_end s)"
proof (induction s rule: trim_end.induct)
  case (1 s)
  then show ?case
    by (subst (1 2) trim_end.simps) (simp add: to_ascii_lowercase_take)
qed

lemma trim_lower [rust_str]: "trim (to_ascii_lowercase s) = to_ascii_lowercase (trim s)"
  by (simp add: trim_def trim_start_lower trim_end_lower)

section \<open>Decimal numbers\<close>

lemma digit_char_digit: "d < 10 \<Longrightarrow> is_ascii_digit (digit_char d)"
  by (simp add: is_ascii_digit_def digit_char_def less_eq_char_def)

lemma digit_val_char: "d < 10 \<Longrightarrow> digit_val (digit_char d) = d"
  by (simp add: digit_val_def digit_char_def)

lemma nat_str_not_Nil [simp]: "nat_str n \<noteq> []"
  by (subst nat_str.simps) simp

lemma nat_str_digits: "list_all is_ascii_digit (nat_str n)"
proof (induction n rule: nat_str.induct)
  case (1 n)
  then show ?case by (subst nat_str.simps) (simp add: digit_char_digit)
qed

lemma digits_val_snoc: "digits_val (s @ [c]) = 10 * digits_val s + digit_val c"
  by (simp add: digits_val_def)

lemma digits_val_nat_str [simp]: "digits_val (nat_str n) = n"
proof (induction n rule: nat_str.induct)
  case (1 n)
  show ?case
  proof (cases "n < 10")
    case True
    then show ?thesis by (subst nat_str.simps) (simp add: digits_val_def digit_val_char)
  next
    case False
    with 1 show ?thesis
      by (subst nat_str.simps) (simp add: digits_val_snoc digit_val_char)
  qed
qed

lemma parse_digits_nat_str [simp]: "parse_digits (nat_str n) = Some n"
  by (simp add: parse_digits_def nat_str_digits)

lemma nat_str_no_plus: "\<not> starts_with (nat_str n) ''+''"
  using nat_str_digits [of n]
  by (cases "nat_str n") (auto simp: starts_with_def is_ascii_digit_def less_eq_char_def)

lemma parse_uint_nat_str [rust_str]: "n < 2 ^ w \<Longrightarrow> parse_uint w (nat_str n) = Some n"
  by (simp add: parse_uint_def nat_str_no_plus)

lemma parse_uint_bound: "parse_uint w s = Some n \<Longrightarrow> n < 2 ^ w"
  by (auto simp: parse_uint_def split: option.splits if_splits)

lemma nat_str_chars: "c \<in> set (nat_str n) \<Longrightarrow> is_ascii_digit c"
  using nat_str_digits by (auto simp: list_all_iff)

lemma nat_str_inj: "nat_str m = nat_str n \<Longrightarrow> m = n"
  by (metis digits_val_nat_str)

section \<open>Integers as bytes\<close>

lemma unat_bound: "unat (w :: 'a::len word) < 2 ^ LENGTH('a)"
  by (rule unsigned_less)

lemma length_to_le [simp]: "length (to_le n w) = n"
  by (induction n w rule: to_le.induct) auto

lemma length_to_be [simp]: "length (to_be n w) = n"
  by (simp add: to_be_def)

lemma of_le_to_le: "of_le (to_le n w) = take_bit (8 * n) w"
proof (induction n w rule: to_le.induct)
  case (2 n w)
  show ?case
    by (rule bit_word_eqI)
       (auto simp: 2 bit_simps not_le)
qed simp

lemma of_le_to_le_id [simp, rust_bytes]:
  fixes w :: "'a::len word"
  shows "LENGTH('a) \<le> 8 * n \<Longrightarrow> of_le (to_le n w) = w"
  by (simp add: of_le_to_le take_bit_word_eq_self)

lemma of_be_to_be_id [simp, rust_bytes]:
  fixes w :: "'a::len word"
  shows "LENGTH('a) \<le> 8 * n \<Longrightarrow> of_be (to_be n w) = w"
  by (simp add: of_be_def to_be_def)

lemma bit_of_le: "bit (of_le bs :: 'a::len word) n \<Longrightarrow> n < 8 * length bs"
proof (induction bs arbitrary: n)
  case (Cons b bs)
  then consider "n < 8" | "8 \<le> n" "bit (of_le bs :: 'a word) (n - 8)"
    by (auto simp: bit_simps dest: bit_imp_le_length)
  then show ?case using Cons.IH [of "n - 8"] by cases auto
qed simp

lemma to_le_of_le [simp, rust_bytes]:
  "8 * length bs \<le> LENGTH('a) \<Longrightarrow> to_le (length bs) (of_le bs :: 'a::len word) = bs"
proof (induction bs)
  case (Cons b bs)
  have "ucast (ucast b OR push_bit 8 (of_le bs) :: 'a word) = b"
    using Cons.prems by (intro bit_word_eqI) (auto simp: bit_simps)
  moreover have "drop_bit 8 (ucast b OR push_bit 8 (of_le bs) :: 'a word) = of_le bs"
    using Cons.prems bit_of_le [where ?'a = 'a, of bs]
    by (intro bit_word_eqI) (fastforce simp: bit_simps dest: bit_imp_le_length)
  ultimately show ?case using Cons by simp
qed simp

lemma to_be_of_be [simp, rust_bytes]:
  "8 * length bs \<le> LENGTH('a) \<Longrightarrow> to_be (length bs) (of_be bs :: 'a::len word) = bs"
  using to_le_of_le [where ?'a = 'a, of "rev bs"] by (simp add: to_be_def of_be_def)

lemma of_le_append_zero [simp]: "of_le (bs @ [0]) = of_le bs"
  by (induction bs) simp_all

lemma of_le_snoc: "of_le (bs @ [b]) = of_le bs OR push_bit (8 * length bs) (ucast b :: 'a::len word)"
proof (induction bs)
  case (Cons c bs)
  have "push_bit 8 (of_le bs OR push_bit (8 * length bs) (ucast b)) =
        push_bit 8 (of_le bs) OR push_bit (8 * length (c # bs)) (ucast b :: 'a word)"
    by (simp add: push_bit_or add.commute)
  with Cons show ?case by (simp add: or.assoc)
qed simp

section \<open>Slices\<close>

lemma slice_append [simp]:
  "slice (xs @ ys @ zs) (length xs) (length xs + length ys) = Some ys"
  by (simp add: slice_def)

lemma slice_middle:
  "zs = xs @ ys @ ws \<Longrightarrow> a = length xs \<Longrightarrow> b = a + length ys \<Longrightarrow> slice zs a b = Some ys"
  by simp

lemma slice_length: "slice xs a b = Some ys \<Longrightarrow> length ys = b - a \<and> b \<le> length xs \<and> a \<le> b"
  by (auto simp: slice_def split: if_splits)

lemma chunks_exact_Nil [simp]: "chunks_exact n [] = []"
  by (subst chunks_exact.simps) auto

lemma chunks_exact_append:
  "length x = n \<Longrightarrow> 0 < n \<Longrightarrow> chunks_exact n (x @ xs) = x # chunks_exact n xs"
  by (subst chunks_exact.simps) simp

lemma chunks_exact_concat [rust_bytes]:
  "\<forall>x \<in> set xs. length x = n \<Longrightarrow> 0 < n \<Longrightarrow> chunks_exact n (concat xs) = xs"
  by (induction xs) (simp_all add: chunks_exact_append)

lemma concat_chunks_exact [rust_bytes]:
  "0 < n \<Longrightarrow> n dvd length xs \<Longrightarrow> concat (chunks_exact n xs) = xs"
proof (induction n xs rule: chunks_exact.induct)
  case (1 n xs)
  show ?case
  proof (cases "length xs < n")
    case True
    with 1 have "xs = []" by (auto dest: nat_dvd_not_less)
    then show ?thesis by simp
  next
    case False
    moreover have "n dvd length (drop n xs)" using 1 False by (simp add: dvd_diff_nat)
    ultimately show ?thesis using 1 by (subst chunks_exact.simps) simp
  qed
qed

lemma chunks_exact_lengths: "x \<in> set (chunks_exact n xs) \<Longrightarrow> length x = n"
proof (induction n xs rule: chunks_exact.induct)
  case (1 n xs)
  then show ?case by (subst (asm) (2) chunks_exact.simps) (auto split: if_splits)
qed

lemma length_chunks_exact: "0 < n \<Longrightarrow> length (chunks_exact n xs) = length xs div n"
proof (induction n xs rule: chunks_exact.induct)
  case (1 n xs)
  then show ?case
    by (subst chunks_exact.simps) (auto simp: le_div_geq)
qed

section \<open>Iterators over results\<close>

lemma collect_result_Inr: "collect_result (map Inr xs) = Inr xs"
  by (induction xs) simp_all

lemma collect_result_map_Inr:
  "(\<And>x. x \<in> set xs \<Longrightarrow> f x = Inr (g x)) \<Longrightarrow> collect_result (map f xs) = Inr (map g xs)"
  by (induction xs) simp_all

lemma collect_result_eq_Inr:
  "collect_result rs = Inr xs \<longleftrightarrow> rs = map Inr xs"
  by (induction rs arbitrary: xs rule: collect_result.induct)
     (auto split: sum.splits simp: map_eq_Cons_conv Cons_eq_map_conv collect_result_Inr)

lemma collect_option_Some: "collect_option (map Some xs) = Some xs"
  by (induction xs) simp_all

lemma collect_option_eq_Some:
  "collect_option rs = Some xs \<longleftrightarrow> rs = map Some xs"
  by (induction rs arbitrary: xs rule: collect_option.induct)
     (auto split: option.splits simp: map_eq_Cons_conv Cons_eq_map_conv collect_option_Some)

lemma max_by_key_acc_Some:
  "max_by_key_acc f acc xs = Some m \<Longrightarrow>
     (m \<in> set xs \<or> acc = Some m) \<and> (\<forall>x \<in> set xs. f x \<le> f m) \<and> (\<forall>y. acc = Some y \<longrightarrow> f y \<le> f m)"
proof (induction xs arbitrary: acc)
  case (Cons x xs)
  then show ?case by (cases acc) (fastforce split: if_splits)+
qed simp

lemma max_by_key_acc_None: "max_by_key_acc f acc xs = None \<longleftrightarrow> acc = None \<and> xs = []"
  by (induction xs arbitrary: acc) (auto split: option.splits)

lemma max_by_key_Some:
  "max_by_key f xs = Some m \<Longrightarrow> m \<in> set xs \<and> (\<forall>x \<in> set xs. f x \<le> f m)"
  unfolding max_by_key_def by (drule max_by_key_acc_Some) auto

lemma max_by_key_None [simp]: "max_by_key f xs = None \<longleftrightarrow> xs = []"
  by (simp add: max_by_key_def max_by_key_acc_None)

lemma find_map_Some: "find_map f xs = Some y \<Longrightarrow> \<exists>x \<in> set xs. f x = Some y"
  by (induction xs) (auto split: option.splits)

lemma find_map_None: "find_map f xs = None \<longleftrightarrow> (\<forall>x \<in> set xs. f x = None)"
  by (induction xs) (auto split: option.splits)

section \<open>UTF-8\<close>

lemma utf8_step_bounds:
  "utf8_step s = Inr n \<Longrightarrow> 0 < n \<and> n \<le> length s"
  "s \<noteq> [] \<Longrightarrow> utf8_step s = Inl n \<Longrightarrow> 0 < n \<and> n \<le> length s"
  by (cases s; auto simp: Let_def split: if_splits list.splits)+

lemma utf8_lossy_valid:
  "valid_utf8_fuel f s \<Longrightarrow> utf8_lossy_fuel f s = s"
  by (induction f s rule: utf8_lossy_fuel.induct) (auto split: sum.splits)

lemma length_as_bytes [simp]: "length (as_bytes s) = length s"
  by (simp add: as_bytes_def)

lemma as_bytes_chars: "map (\<lambda>b. char_of (unat b)) (as_bytes s) = s"
  by (simp add: as_bytes_def comp_def unat_of_nat take_bit_nat_eq_self_iff  map_idI)

lemma from_utf8_lossy_as_bytes [rust_str]: "valid_utf8 s \<Longrightarrow> from_utf8_lossy (as_bytes s) = s"
  using utf8_lossy_valid [of "length s" s]
  by (simp add: from_utf8_lossy_def as_bytes_chars valid_utf8_def)

end
