(* ===== verification/Dn.thy ===== *)
theory Dn
  imports Prelude
begin

text \<open>
  Distinguished names (crates/partition/src/dn.rs) and the error type of the crate (error.rs).
  \<open>Dn\<close>, \<open>Rdn\<close> and \<open>Ava\<close> are the structs; equality is the hand-written one of \<open>Ava\<close>, which
  ignores the display value, and the derived ones above it. Parsing and printing follow the
  source's loops: the accumulators and flags of \<open>split_unescaped\<close>, \<open>find_unescaped\<close> and
  \<open>unescape\<close> are arguments of the recursive functions. The source iterates over characters
  and the model over bytes, which agree because every character the code tests for is ASCII.
\<close>

section \<open>Errors\<close>

text \<open>The reason texts of \<open>InvalidDn\<close> are constructors; the text quotes at most one string.\<close>

datatype dn_reason = Empty_RDN | No_equals string | Empty_attribute_type | Not_under_tree_root

datatype partition_error =
    InvalidDn string dn_reason
  | InvalidId string
  | InvalidForestId string
  | UnknownPartition string
  | NoOwningPartition string
  | DuplicateId string

section \<open>The structs\<close>

record ava =
  attr :: string
  val :: string
  norm_value :: string

datatype rdn = Rdn (avas: "ava list")

datatype dn = Dn (rdns: "rdn list")

definition ava_eq :: "ava \<Rightarrow> ava \<Rightarrow> bool" where
  "ava_eq a b \<longleftrightarrow> attr a = attr b \<and> norm_value a = norm_value b"

definition rdn_eq :: "rdn \<Rightarrow> rdn \<Rightarrow> bool" where
  "rdn_eq r s \<longleftrightarrow> list_all2 ava_eq (avas r) (avas s)"

definition dn_eq :: "dn \<Rightarrow> dn \<Rightarrow> bool" where
  "dn_eq d e \<longleftrightarrow> list_all2 rdn_eq (rdns d) (rdns e)"

definition root :: dn where
  "root = Dn []"

section \<open>Printing\<close>

definition is_special :: "char \<Rightarrow> bool" where
  "is_special c \<longleftrightarrow> c \<in> set [CHR 0x5C, CHR '','', CHR ''+'', CHR ''='', CHR ''<'', CHR ''>'',
     CHR ''#'', CHR '';'', CHR 0x22]"

fun escape_chars :: "nat \<Rightarrow> nat \<Rightarrow> string \<Rightarrow> string" where
  "escape_chars n i [] = []"
| "escape_chars n i (c # r) =
     (if is_special c then [CHR 0x5C, c]
      else if c = CHR '' '' \<and> (i = 0 \<or> i = n - 1) then [CHR 0x5C, CHR '' '']
      else [c]) @ escape_chars n (Suc i) r"

definition escape_value :: "string \<Rightarrow> string" where
  "escape_value v = escape_chars (length v) 0 v"

definition ava_string :: "ava \<Rightarrow> string" where
  "ava_string a = attr a @ ''='' @ escape_value (val a)"

definition rdn_string :: "rdn \<Rightarrow> string" where
  "rdn_string r = join ''+'' (map ava_string (avas r))"

definition dn_string :: "dn \<Rightarrow> string" where
  "dn_string d = join '','' (map rdn_string (rdns d))"

definition normalized_string :: "rdn \<Rightarrow> string" where
  "normalized_string r = join ''+'' (map (\<lambda>a. attr a @ ''='' @ norm_value a) (avas r))"

section \<open>Parsing\<close>

fun split_loop :: "char \<Rightarrow> string list \<Rightarrow> string \<Rightarrow> bool \<Rightarrow> string \<Rightarrow> string list" where
  "split_loop delim parts cur escaped [] =
     parts @ [if escaped then cur @ [CHR 0x5C] else cur]"
| "split_loop delim parts cur escaped (c # s) =
     (if escaped then split_loop delim parts (cur @ [CHR 0x5C, c]) False s
      else if c = CHR 0x5C then split_loop delim parts cur True s
      else if c = delim then split_loop delim (parts @ [cur]) [] False s
      else split_loop delim parts (cur @ [c]) False s)"

definition split_unescaped :: "string \<Rightarrow> char \<Rightarrow> string list" where
  "split_unescaped s delim = split_loop delim [] [] False s"

fun find_loop :: "char \<Rightarrow> nat \<Rightarrow> bool \<Rightarrow> string \<Rightarrow> nat option" where
  "find_loop delim i escaped [] = None"
| "find_loop delim i escaped (c # s) =
     (if escaped then find_loop delim (Suc i) False s
      else if c = CHR 0x5C then find_loop delim (Suc i) True s
      else if c = delim then Some i
      else find_loop delim (Suc i) False s)"

definition find_unescaped :: "string \<Rightarrow> char \<Rightarrow> nat option" where
  "find_unescaped s delim = find_loop delim 0 False s"

definition hex_val :: "char \<Rightarrow> nat" where
  "hex_val c =
     (if is_ascii_digit c then of_char c - 48
      else if is_ascii_lowercase c then of_char c - 87
      else of_char c - 55)"

text \<open>\<open>out.push(byte as char)\<close>: the code point below 256, in UTF-8.\<close>

definition push_byte :: "nat \<Rightarrow> string" where
  "push_byte b =
     (if b < 128 then [char_of b] else [char_of (192 + b div 64), char_of (128 + b mod 64)])"

fun unescape :: "string \<Rightarrow> string" where
  "unescape [] = []"
| "unescape (c # s) =
     (if c \<noteq> CHR 0x5C then c # unescape s
      else
        (case s of
           [] \<Rightarrow> [CHR 0x5C]
         | h1 # s1 \<Rightarrow>
             if is_ascii_hexdigit h1 then
               (case s1 of
                  [] \<Rightarrow> [h1]
                | h2 # s2 \<Rightarrow>
                    if is_ascii_hexdigit h2 then push_byte (16 * hex_val h1 + hex_val h2) @ unescape s2
                    else h1 # unescape s1)
             else h1 # unescape s1))"

definition parse_ava :: "string \<Rightarrow> string \<Rightarrow> partition_error + ava" where
  "parse_ava s full =
     (case find_unescaped s (CHR ''='') of
        None \<Rightarrow> Inl (InvalidDn full (No_equals s))
      | Some eq \<Rightarrow>
          (let a = to_ascii_lowercase (trim (take eq s)) in
           if a = [] then Inl (InvalidDn full Empty_attribute_type)
           else
             (let v = unescape (trim (drop (eq + 1) s)) in
              Inr \<lparr>attr = a, val = v, norm_value = to_ascii_lowercase (trim v)\<rparr>)))"

fun parse_avas :: "string \<Rightarrow> string list \<Rightarrow> partition_error + ava list" where
  "parse_avas full [] = Inr []"
| "parse_avas full (a # r) =
     (case parse_ava (trim a) full of
        Inl e \<Rightarrow> Inl e
      | Inr x \<Rightarrow> (case parse_avas full r of Inl e \<Rightarrow> Inl e | Inr xs \<Rightarrow> Inr (x # xs)))"

definition ava_key :: "ava \<Rightarrow> string \<times> string" where
  "ava_key a = (attr a, norm_value a)"

fun parse_rdns :: "string \<Rightarrow> string list \<Rightarrow> partition_error + rdn list" where
  "parse_rdns full [] = Inr []"
| "parse_rdns full (p # ps) =
     (let p' = trim p in
      if p' = [] then Inl (InvalidDn full Empty_RDN)
      else
        (case parse_avas full (split_unescaped p' (CHR ''+'')) of
           Inl e \<Rightarrow> Inl e
         | Inr as \<Rightarrow>
             (case parse_rdns full ps of
                Inl e \<Rightarrow> Inl e
              | Inr rs \<Rightarrow> Inr (Rdn (sort_key ava_key as) # rs))))"

definition dn_parse :: "string \<Rightarrow> partition_error + dn" where
  "dn_parse s =
     (let trimmed = trim s in
      if trimmed = [] then Inr root
      else (case parse_rdns s (split_unescaped trimmed (CHR '','')) of
              Inl e \<Rightarrow> Inl e
            | Inr rs \<Rightarrow> Inr (Dn rs)))"

section \<open>Tree operations\<close>

definition is_empty :: "dn \<Rightarrow> bool" where
  "is_empty d \<longleftrightarrow> rdns d = []"

definition depth :: "dn \<Rightarrow> nat" where
  "depth d = length (rdns d)"

definition parent :: "dn \<Rightarrow> dn option" where
  "parent d = (if rdns d = [] then None else Some (Dn (tl (rdns d))))"

definition is_within :: "dn \<Rightarrow> dn \<Rightarrow> bool" where
  "is_within d base \<longleftrightarrow>
     (if length (rdns base) > length (rdns d) then False
      else list_all2 rdn_eq (drop (length (rdns d) - length (rdns base)) (rdns d)) (rdns base))"

definition is_strict_descendant_of :: "dn \<Rightarrow> dn \<Rightarrow> bool" where
  "is_strict_descendant_of d base \<longleftrightarrow>
     length (rdns d) > length (rdns base) \<and> is_within d base"

definition reversed_components :: "dn \<Rightarrow> string list" where
  "reversed_components d = map normalized_string (rev (rdns d))"

section \<open>Equality and containment\<close>

text \<open>What equality sees of a name: attribute types and folded values.\<close>

definition rdn_norm :: "rdn \<Rightarrow> (string \<times> string) list" where
  "rdn_norm r = map ava_key (avas r)"

definition dn_norm :: "dn \<Rightarrow> (string \<times> string) list list" where
  "dn_norm d = map rdn_norm (rdns d)"

lemma rdn_eq_norm: "rdn_eq r s \<longleftrightarrow> rdn_norm r = rdn_norm s"
  by (auto simp: rdn_eq_def rdn_norm_def ava_eq_def ava_key_def list_all2_conv_all_nth
      list_eq_iff_nth_eq)

lemma rdns_eq_norm: "list_all2 rdn_eq xs ys \<longleftrightarrow> map rdn_norm xs = map rdn_norm ys"
  by (auto simp: rdn_eq_norm list_all2_conv_all_nth list_eq_iff_nth_eq)

lemma dn_eq_norm: "dn_eq d e \<longleftrightarrow> dn_norm d = dn_norm e"
  by (simp add: dn_eq_def dn_norm_def rdns_eq_norm)

lemma dn_eq_refl [simp]: "dn_eq d d"
  by (simp add: dn_eq_norm)

lemma is_within_suffix: "is_within d base \<longleftrightarrow> suffix (dn_norm base) (dn_norm d)"
proof
  assume w: "is_within d base"
  then have "map rdn_norm (drop (length (rdns d) - length (rdns base)) (rdns d)) = dn_norm base"
    by (simp add: is_within_def rdns_eq_norm dn_norm_def split: if_splits)
  then have "drop (length (rdns d) - length (rdns base)) (dn_norm d) = dn_norm base"
    by (simp add: dn_norm_def drop_map)
  then show "suffix (dn_norm base) (dn_norm d)" by (metis suffix_drop)
next
  assume "suffix (dn_norm base) (dn_norm d)"
  then obtain p where p: "dn_norm d = p @ dn_norm base" by (auto simp: suffix_def)
  then have "length (rdns d) = length p + length (rdns base)"
    by (metis dn_norm_def length_append length_map)
  then show "is_within d base"
    using p by (simp add: is_within_def rdns_eq_norm flip: drop_map dn_norm_def)
qed

lemma is_within_refl: "is_within d d"
  by (simp add: is_within_suffix)

lemma is_within_trans: "is_within a b \<Longrightarrow> is_within b c \<Longrightarrow> is_within a c"
  by (auto simp: is_within_suffix intro: suffix_order.trans)

lemma is_within_antisym: "is_within a b \<Longrightarrow> is_within b a \<Longrightarrow> dn_eq a b"
  by (auto simp: is_within_suffix dn_eq_norm intro: suffix_order.antisym)

lemma depth_norm: "depth d = length (dn_norm d)"
  by (simp add: depth_def dn_norm_def)

lemma is_within_depth: "is_within d base \<Longrightarrow> depth base \<le> depth d"
  by (simp add: is_within_def depth_def split: if_splits)

lemma strict_descendant_norm:
  "is_strict_descendant_of d base \<longleftrightarrow> strict_suffix (dn_norm base) (dn_norm d)"
proof -
  have "length (rdns base) < length (rdns d) \<longleftrightarrow> length (dn_norm base) < length (dn_norm d)"
    by (simp add: dn_norm_def)
  moreover have "suffix xs ys \<Longrightarrow> length xs < length ys \<longleftrightarrow> xs \<noteq> ys" for xs ys :: "(string \<times> string) list list"
    by (auto simp: suffix_def)
  ultimately show ?thesis
    unfolding is_strict_descendant_of_def is_within_suffix strict_suffix_def by blast
qed

text \<open>Two ancestors of one name are comparable: routing by the longest suffix is well defined.\<close>

lemma within_comparable:
  assumes "is_within d a" "is_within d b" "depth a \<le> depth b"
  shows "is_within b a"
  using assms unfolding is_within_suffix depth_norm
  by (metis suffix_length_suffix)

lemma parent_within: "parent d = Some p \<Longrightarrow> is_strict_descendant_of d p"
  by (cases "rdns d")
     (auto simp: parent_def is_strict_descendant_of_def is_within_suffix dn_norm_def suffix_def)

section \<open>Printing and parsing values\<close>

text \<open>\<open>clean d e s\<close>: scanning \<open>s\<close> with the escape flag \<open>e\<close> meets no unescaped \<open>d\<close> and ends unescaped.\<close>

fun clean :: "char \<Rightarrow> bool \<Rightarrow> string \<Rightarrow> bool" where
  "clean d e [] = (\<not> e)"
| "clean d e (c # s) =
     (if e then clean d False s
      else if c = CHR 0x5C then clean d True s
      else c \<noteq> d \<and> clean d False s)"

lemma clean_append: "clean d e x \<Longrightarrow> clean d False y \<Longrightarrow> clean d e (x @ y)"
  by (induction d e x rule: clean.induct) (auto split: if_splits)

lemma split_loop_clean:
  "clean d e x \<Longrightarrow> split_loop d parts cur e (x @ y) =
     split_loop d parts (cur @ (if e then CHR 0x5C # x else x)) False y"
  by (induction d e x arbitrary: cur rule: clean.induct) (auto split: if_splits)

lemma split_loop_parts: "split_loop d parts cur e s = parts @ split_loop d [] cur e s"
proof (induction s arbitrary: parts cur e)
  case (Cons c s)
  show ?case
    using Cons.IH [of "parts @ [cur]" "[]" False] Cons.IH [of "[cur]" "[]" False]
      Cons.IH [of parts]
    by auto
qed simp

lemma split_unescaped_join:
  "ps \<noteq> [] \<Longrightarrow> \<forall>p \<in> set ps. clean d False p \<Longrightarrow> d \<noteq> CHR 0x5C \<Longrightarrow>
     split_unescaped (join [d] ps) d = ps"
proof (induction ps)
  case (Cons p ps)
  show ?case
  proof (cases "ps = []")
    case True
    with Cons.prems split_loop_clean [of d False p "[]" "[]" "[]"] show ?thesis
      by (simp add: split_unescaped_def)
  next
    case False
    with Cons have "split_loop d [] [] False (join [d] ps) = ps"
      by (simp add: split_unescaped_def)
    with Cons.prems False show ?thesis
      by (simp add: split_unescaped_def join_Cons split_loop_clean split_loop_parts [of d "[p]"])
  qed
qed simp

lemma find_loop_clean:
  "clean d e x \<Longrightarrow> d \<noteq> CHR 0x5C \<Longrightarrow> find_loop d i e (x @ d # y) = Some (i + length x)"
  by (induction d e x arbitrary: i rule: clean.induct) (auto split: if_splits)

lemma clean_no_escape: "CHR 0x5C \<notin> set s \<Longrightarrow> d \<notin> set s \<Longrightarrow> clean d False s"
  by (induction s) auto

lemma clean_escape_chars: "is_special d \<Longrightarrow> clean d False (escape_chars n i v)"
  by (induction n i v rule: escape_chars.induct) (auto simp: is_special_def)

lemma special_not_hex: "is_special c \<Longrightarrow> \<not> is_ascii_hexdigit c"
  by (auto simp: is_special_def is_ascii_hexdigit_def is_ascii_digit_def less_eq_char_def)

lemma special_solid: "is_special c \<Longrightarrow> solid c"
  by (auto simp: is_special_def solid_def is_ascii_space_def less_eq_char_def)

lemma backslash_special: "is_special CHR 0x5C" "is_special (CHR ''='')" "is_special (CHR ''+'')"
    "is_special (CHR '','')"
  by (simp_all add: is_special_def)

lemma space_not_hex: "\<not> is_ascii_hexdigit (CHR '' '')"
  by (simp add: is_ascii_hexdigit_def is_ascii_digit_def less_eq_char_def)

lemma unescape_escaped: "\<not> is_ascii_hexdigit c \<Longrightarrow> unescape (CHR 0x5C # c # s) = c # unescape s"
  by simp

lemma unescape_escape_chars: "unescape (escape_chars n i v) = v"
proof (induction n i v rule: escape_chars.induct)
  case (2 n i c r)
  have bs: "\<not> is_special c \<Longrightarrow> c \<noteq> CHR 0x5C" using backslash_special by auto
  show ?case
    using 2 bs special_not_hex [of c] space_not_hex by simp
qed simp

lemma unescape_escape_value [rust_str]: "unescape (escape_value v) = v"
  by (simp add: escape_value_def unescape_escape_chars)

section \<open>Escaping keeps the white space at the edges\<close>

lemma escape_chars_append:
  "escape_chars n i (x @ y) = escape_chars n i x @ escape_chars n (i + length x) y"
  by (induction n i x rule: escape_chars.induct) auto

lemma special_low: "is_special c \<Longrightarrow> low c"
  by (simp add: special_solid solid_low)

lemma escape_chars_high: "\<forall>c \<in> set y. \<not> low c \<Longrightarrow> escape_chars n i y = y"
proof (induction n i y rule: escape_chars.induct)
  case (2 n i c r)
  then have "\<not> is_special c" "c \<noteq> CHR '' ''" using special_low by (auto simp: low_def less_eq_char_def)
  with 2 show ?case by simp
qed simp

lemma escape_chars_low_last:
  assumes "low c"
  shows "\<exists>u. escape_chars n i (x @ [c]) = u @ [c]"
  by (auto simp: escape_chars_append)

lemma ws_len_end_escape:
  assumes "ws_len_end v = 0"
  shows "ws_len_end (escape_value v) = 0"
proof -
  define y where "y = rev (takeWhile (\<lambda>c. \<not> low c) (rev v))"
  define x where "x = rev (dropWhile (\<lambda>c. \<not> low c) (rev v))"
  have v: "v = x @ y" unfolding x_def y_def by (metis rev_append rev_rev_ident takeWhile_dropWhile_id)
  have y: "\<forall>c \<in> set y. \<not> low c" by (auto simp: y_def dest: set_takeWhileD)
  have x: "x = [] \<or> low (last x)"
    unfolding x_def by (metis hd_dropWhile hd_rev rev_rev_ident rev.simps(1))
  have e: "escape_value v = escape_chars (length v) 0 x @ y"
    using y by (simp add: v escape_value_def escape_chars_append escape_chars_high)
  show ?thesis
  proof (cases "x = []")
    case True
    then show ?thesis using e v assms by simp
  next
    case False
    with x obtain u c where xu: "x = u @ [c]" "low c" by (metis append_butlast_last_id)
    obtain w where w: "escape_chars (length v) 0 x = w @ [c]"
      using escape_chars_low_last [OF xu(2)] xu(1) by blast
    show ?thesis
    proof (cases "y = []")
      case True
      with v xu assms have "ws_len [c] \<noteq> 1" by (auto simp: ws_len_end_def split: if_splits)
      then have "\<not> is_ascii_space c" using ws_len_space by blast
      with xu(2) have "solid c" using low_solid_or_space by blast
      then show ?thesis using e w True by simp
    next
      case False
      then show ?thesis using e w v xu assms ws_len_end_after_low [OF xu(2) False] by simp
    qed
  qed
qed

lemma takeWhile_escape: "takeWhile (\<lambda>c. \<not> low c) (escape_chars n i v) = takeWhile (\<lambda>c. \<not> low c) v"
proof (induction n i v rule: escape_chars.induct)
  case (2 n i c r)
  have "low CHR 0x5C" "low (CHR '' '')" by (simp_all add: low_def less_eq_char_def)
  with 2 show ?case using special_low by auto
qed simp

lemma ws_len_escape:
  assumes "ws_len v = 0 \<or> hd v = CHR '' ''"
  shows "ws_len (escape_value v) = 0"
proof (cases v)
  case Nil
  then show ?thesis by (simp add: escape_value_def)
next
  case (Cons c r)
  have bs: "solid CHR 0x5C" using backslash_special special_solid by blast
  show ?thesis
  proof (cases "is_special c \<or> c = CHR '' ''")
    case True
    then show ?thesis using bs Cons by (auto simp: escape_value_def)
  next
    case False
    then have "ws_len (c # r) = 0" using assms Cons by auto
    moreover from this have "\<not> is_ascii_space c" by (auto simp: ws_len.simps)
    ultimately have "ws_len (takeWhile (\<lambda>c. \<not> low c) (c # escape_chars (length v) 1 r)) = 0"
      using ws_len_high [of c r] by (simp add: takeWhile_escape split: if_splits)
    then show ?thesis
      using False Cons \<open>\<not> is_ascii_space c\<close> ws_len_high [of c "escape_chars (length v) 1 r"]
      by (simp add: escape_value_def)
  qed
qed

section \<open>Well-formed names\<close>

text \<open>
  The names that survive printing: attribute types are ASCII without the characters the parser
  splits on, the value has no white space at its end and none at its start but plain spaces
  after an initial one, the folded value belongs to the value, the assertions are in order.
\<close>

definition attr_ok :: "string \<Rightarrow> bool" where
  "attr_ok a \<longleftrightarrow> a \<noteq> [] \<and> (\<forall>c \<in> set a. solid c \<and> \<not> is_ascii_uppercase c \<and>
     c \<notin> {CHR 0x5C, CHR '','', CHR ''+'', CHR ''=''})"

definition value_ok :: "string \<Rightarrow> bool" where
  "value_ok v \<longleftrightarrow> (ws_len v = 0 \<or> hd v = CHR '' '') \<and> ws_len_end v = 0"

definition ava_ok :: "ava \<Rightarrow> bool" where
  "ava_ok a \<longleftrightarrow> attr_ok (attr a) \<and> value_ok (val a) \<and>
     norm_value a = to_ascii_lowercase (trim (val a))"

definition rdn_ok :: "rdn \<Rightarrow> bool" where
  "rdn_ok r \<longleftrightarrow> avas r \<noteq> [] \<and> (\<forall>a \<in> set (avas r). ava_ok a) \<and> sorted (map ava_key (avas r))"

definition dn_ok :: "dn \<Rightarrow> bool" where
  "dn_ok d \<longleftrightarrow> (\<forall>r \<in> set (rdns d). rdn_ok r)"

lemma attr_okD:
  assumes "attr_ok a"
  shows "a \<noteq> []" "solid (hd a)" "solid (last a)" "to_ascii_lowercase a = a" "trim a = a"
    "clean (CHR ''='') False a" "clean (CHR ''+'') False a" "clean (CHR '','') False a"
    "find_unescaped (a @ CHR ''='' # s) (CHR ''='') = Some (length a)"
proof -
  show "a \<noteq> []" "solid (hd a)" "solid (last a)" "to_ascii_lowercase a = a"
    using assms by (auto simp: attr_ok_def to_ascii_lowercase_id)
  then show "trim a = a" by (simp add: trim_solid)
  show c: "clean (CHR ''='') False a" "clean (CHR ''+'') False a" "clean (CHR '','') False a"
    using assms by (auto simp: attr_ok_def intro!: clean_no_escape)
  show "find_unescaped (a @ CHR ''='' # s) (CHR ''='') = Some (length a)"
    using find_loop_clean [OF c(1)] by (simp add: find_unescaped_def)
qed

lemma ava_string_ends:
  assumes "ava_ok a"
  shows "ws_len (ava_string a @ s) = 0" "ws_len_end (x @ ava_string a) = 0" "ava_string a \<noteq> []"
    "trim (ava_string a) = ava_string a"
proof -
  have ok: "attr_ok (attr a)" "ws_len_end (escape_value (val a)) = 0"
    using assms by (auto simp: ava_ok_def value_ok_def ws_len_end_escape)
  show s: "ws_len (ava_string a @ s) = 0" for s
    using attr_okD(1,2) [OF ok(1)] by (cases "attr a") (auto simp: ava_string_def)
  show e: "ws_len_end (x @ ava_string a) = 0" for x
    using ok(2) ws_len_end_after_solid [of "CHR ''=''" "x @ attr a"] special_solid backslash_special
    by (simp add: ava_string_def)
  show "ava_string a \<noteq> []" by (simp add: ava_string_def)
  show "trim (ava_string a) = ava_string a"
    using s [of "[]"] e [of "[]"] by (simp add: trim_id)
qed

lemma clean_ava_string:
  assumes "ava_ok a" "d = CHR ''+'' \<or> d = CHR '',''"
  shows "clean d False (ava_string a)"
proof -
  have "clean d False (attr a)" using assms attr_okD(7,8) by (auto simp: ava_ok_def)
  moreover have "clean d False ''=''" using assms(2) by auto
  moreover have "clean d False (escape_value (val a))"
    using assms(2) by (auto simp: escape_value_def intro!: clean_escape_chars backslash_special)
  ultimately show ?thesis by (simp add: ava_string_def clean_append)
qed

lemma parse_ava_string:
  assumes "ava_ok a"
  shows "parse_ava (ava_string a) full = Inr a"
proof -
  have ok: "attr_ok (attr a)" "value_ok (val a)" "norm_value a = to_ascii_lowercase (trim (val a))"
    using assms by (auto simp: ava_ok_def)
  have "trim (escape_value (val a)) = escape_value (val a)"
    using ok(2) by (simp add: value_ok_def trim_id ws_len_escape ws_len_end_escape)
  then show ?thesis
    using ok attr_okD [OF ok(1)]
    by (simp add: parse_ava_def ava_string_def unescape_escape_value Let_def)
qed

lemma parse_avas_strings:
  "\<forall>a \<in> set as. ava_ok a \<Longrightarrow> parse_avas full (map ava_string as) = Inr as"
  by (induction as) (simp_all add: parse_ava_string ava_string_ends(4))

lemma rdn_string_ends:
  assumes "rdn_ok r"
  shows "ws_len (rdn_string r @ s) = 0" "ws_len_end (x @ rdn_string r) = 0" "rdn_string r \<noteq> []"
    "trim (rdn_string r) = rdn_string r"
proof -
  let ?xs = "map ava_string (avas r)"
  have ne: "?xs \<noteq> []" and ok: "ava_ok (hd (avas r))" "ava_ok (last (avas r))"
    using assms by (auto simp: rdn_ok_def)
  obtain u w where u: "rdn_string r = ava_string (hd (avas r)) @ u"
    and w: "rdn_string r = w @ ava_string (last (avas r))"
    using join_prefix [OF ne, of "''+''"] join_suffix [OF ne, of "''+''"] ne
    unfolding prefix_def suffix_def rdn_string_def by (metis Nil_is_map_conv hd_map last_map)
  show s: "ws_len (rdn_string r @ s) = 0" for s using ava_string_ends(1) [OF ok(1)] by (simp add: u)
  show e: "ws_len_end (x @ rdn_string r) = 0" for x
    using ava_string_ends(2) [OF ok(2), of "x @ w"] by (simp add: w)
  show "rdn_string r \<noteq> []" using ava_string_ends(3) [OF ok(1)] by (simp add: u)
  show "trim (rdn_string r) = rdn_string r" using s [of "[]"] e [of "[]"] by (simp add: trim_id)
qed

lemma clean_join:
  "\<forall>x \<in> set xs. clean d False x \<Longrightarrow> clean d False sep \<Longrightarrow> clean d False (join sep xs)"
  by (induction xs) (auto simp: join_Cons clean_append)

lemma split_rdn_string:
  "rdn_ok r \<Longrightarrow> split_unescaped (rdn_string r) (CHR ''+'') = map ava_string (avas r)"
  unfolding rdn_string_def rdn_ok_def
  by (intro split_unescaped_join) (auto simp: clean_ava_string)

lemma parse_rdns_strings:
  assumes "\<forall>r \<in> set rs. rdn_ok r"
  shows "parse_rdns full (map rdn_string rs) = Inr rs"
  using assms
proof (induction rs)
  case (Cons r rs)
  then have r: "rdn_ok r" by simp
  then have "parse_avas full (split_unescaped (rdn_string r) (CHR ''+'')) = Inr (avas r)"
    by (simp add: split_rdn_string parse_avas_strings rdn_ok_def)
  moreover have "sort_key ava_key (avas r) = avas r"
    using r by (simp add: rdn_ok_def sort_key_id_if_sorted)
  ultimately show ?case
    using Cons rdn_string_ends(3,4) [OF r] by (simp add: Let_def)
qed simp

lemma dn_parse_string:
  assumes "dn_ok d"
  shows "dn_parse (dn_string d) = Inr d"
proof (cases "rdns d = []")
  case True
  then show ?thesis by (cases d) (simp add: dn_string_def dn_parse_def root_def)
next
  case False
  let ?xs = "map rdn_string (rdns d)"
  have ne: "?xs \<noteq> []" and ok: "rdn_ok (hd (rdns d))" "rdn_ok (last (rdns d))"
    using assms False by (auto simp: dn_ok_def)
  obtain u w where u: "dn_string d = rdn_string (hd (rdns d)) @ u"
    and w: "dn_string d = w @ rdn_string (last (rdns d))"
    using join_prefix [OF ne, of "'',''"] join_suffix [OF ne, of "'',''"] False
    unfolding prefix_def suffix_def dn_string_def by (metis hd_map last_map)
  have "trim (dn_string d) = dn_string d"
    using rdn_string_ends(1) [OF ok(1), of u] rdn_string_ends(2) [OF ok(2), of w] u w
    by (metis trim_id)
  moreover have "dn_string d \<noteq> []" using rdn_string_ends(3) [OF ok(1)] u by simp
  moreover have "split_unescaped (dn_string d) (CHR '','') = ?xs"
    unfolding dn_string_def
  proof (intro split_unescaped_join)
    show "\<forall>p \<in> set ?xs. clean (CHR '','') False p"
      using assms by (auto simp: dn_ok_def rdn_ok_def rdn_string_def clean_ava_string intro!: clean_join)
  qed (use ne in auto)
  ultimately show ?thesis
    using assms parse_rdns_strings [of "rdns d"]
    by (cases d) (simp add: dn_parse_def dn_ok_def)
qed

section \<open>What the parser returns\<close>

definition ava_parsed :: "ava \<Rightarrow> bool" where
  "ava_parsed a \<longleftrightarrow> attr a \<noteq> [] \<and> to_ascii_lowercase (attr a) = attr a \<and>
     norm_value a = to_ascii_lowercase (trim (val a))"

definition rdn_parsed :: "rdn \<Rightarrow> bool" where
  "rdn_parsed r \<longleftrightarrow> avas r \<noteq> [] \<and> (\<forall>a \<in> set (avas r). ava_parsed a) \<and> sorted (map ava_key (avas r))"

definition dn_parsed :: "dn \<Rightarrow> bool" where
  "dn_parsed d \<longleftrightarrow> (\<forall>r \<in> set (rdns d). rdn_parsed r)"

lemma parse_ava_parsed: "parse_ava s full = Inr a \<Longrightarrow> ava_parsed a"
  by (auto simp: parse_ava_def ava_parsed_def Let_def split: option.splits if_splits)

lemma parse_avas_parsed: "parse_avas full ps = Inr as \<Longrightarrow> length as = length ps \<and> (\<forall>a \<in> set as. ava_parsed a)"
  by (induction full ps arbitrary: as rule: parse_avas.induct)
     (auto split: sum.splits dest: parse_ava_parsed)

lemma split_loop_not_Nil: "split_loop d parts cur e s \<noteq> []"
  by (induction d parts cur e s rule: split_loop.induct) auto

lemma parse_rdns_parsed: "parse_rdns full ps = Inr rs \<Longrightarrow> length rs = length ps \<and> (\<forall>r \<in> set rs. rdn_parsed r)"
proof (induction full ps arbitrary: rs rule: parse_rdns.induct)
  case (2 full p ps)
  from "2.prems" obtain as rs' where
    as: "parse_avas full (split_unescaped (trim p) (CHR ''+'')) = Inr as"
    and rs': "parse_rdns full ps = Inr rs'" and rs: "rs = Rdn (sort_key ava_key as) # rs'"
    by (auto simp: Let_def split: sum.splits if_splits)
  have "as \<noteq> []"
    using parse_avas_parsed [OF as] split_loop_not_Nil by (auto simp: split_unescaped_def)
  then have "sort_key ava_key as \<noteq> []" by (metis length_0_conv length_sort)
  then have "rdn_parsed (Rdn (sort_key ava_key as))"
    using parse_avas_parsed [OF as] by (simp add: rdn_parsed_def)
  moreover have "trim p \<noteq> []" using "2.prems" by (auto simp: Let_def)
  ultimately show ?case using "2.IH" [OF refl _ as rs'] rs by auto
qed simp

lemma dn_parse_parsed: "dn_parse s = Inr d \<Longrightarrow> dn_parsed d"
  by (auto simp: dn_parse_def dn_parsed_def root_def Let_def split: sum.splits if_splits
      dest: parse_rdns_parsed)

section \<open>Parsing ignores ASCII case\<close>

lemma split_loop_lower:
  assumes "d = CHR '','' \<or> d = CHR ''+''"
  shows "split_loop d (map to_ascii_lowercase parts) (to_ascii_lowercase cur) e (to_ascii_lowercase s) =
    map to_ascii_lowercase (split_loop d parts cur e s)"
proof (induction s arbitrary: parts cur e)
  case Nil
  then show ?case using assms by (auto simp: to_ascii_lowercase_def ascii_lower_id is_ascii_uppercase_def less_eq_char_def)
next
  case (Cons c s)
  have bs: "ascii_lower CHR 0x5C = CHR 0x5C" "\<And>x. ascii_lower x = d \<longleftrightarrow> x = d"
    using assms by auto
  show ?case
    using Cons.IH [of parts "cur @ [CHR 0x5C, c]" False] Cons.IH [of parts cur True]
      Cons.IH [of "parts @ [cur]" "[]" False] Cons.IH [of parts "cur @ [c]" False] bs
    by (auto simp: to_ascii_lowercase_def)
qed

lemma split_unescaped_lower:
  "d = CHR '','' \<or> d = CHR ''+'' \<Longrightarrow>
     split_unescaped (to_ascii_lowercase s) d = map to_ascii_lowercase (split_unescaped s d)"
  using split_loop_lower [of d "[]" "[]" False s] by (simp add: split_unescaped_def)

lemma find_loop_lower: "find_loop (CHR ''='') i e (to_ascii_lowercase s) = find_loop (CHR ''='') i e s"
  by (induction s arbitrary: i e) (auto simp: to_ascii_lowercase_def)

lemma hex_lower:
  "is_ascii_hexdigit (ascii_lower c) \<longleftrightarrow> is_ascii_hexdigit c"
  "is_ascii_hexdigit c \<Longrightarrow> hex_val (ascii_lower c) = hex_val c"
proof -
  have "is_ascii_hexdigit (ascii_lower c) = is_ascii_hexdigit c \<and>
      (is_ascii_hexdigit c \<longrightarrow> hex_val (ascii_lower c) = hex_val c)"
  proof (cases "is_ascii_uppercase c")
    case True
    then have "65 \<le> (of_char c :: nat)" "(of_char c :: nat) \<le> 90"
      by (simp_all add: is_ascii_uppercase_def less_eq_char_def)
    with True show ?thesis
      by (auto simp: ascii_lower_def is_ascii_hexdigit_def is_ascii_digit_def is_ascii_lowercase_def
          hex_val_def less_eq_char_def)
  qed (simp add: ascii_lower_id)
  then show "is_ascii_hexdigit (ascii_lower c) \<longleftrightarrow> is_ascii_hexdigit c"
    "is_ascii_hexdigit c \<Longrightarrow> hex_val (ascii_lower c) = hex_val c" by auto
qed

lemma unescape_lower:
  "to_ascii_lowercase (unescape (to_ascii_lowercase s)) = to_ascii_lowercase (unescape s)"
proof (induction s rule: unescape.induct)
  case (2 c s)
  show ?case
  proof (cases "c = CHR 0x5C")
    case False
    then show ?thesis using 2 by (simp add: to_ascii_lowercase_def)
  next
    case True
    then have [simp]: "ascii_lower c = CHR 0x5C" by simp
    show ?thesis
    proof (cases s)
      case Nil
      then show ?thesis using True by (simp add: to_ascii_lowercase_def)
    next
      case (Cons h1 s1)
      show ?thesis
        using True 2 Cons
        by (cases s1) (auto simp: to_ascii_lowercase_def hex_lower)
    qed
  qed
qed simp

lemma parse_ava_lower:
  "rel_sum (\<lambda>_ _. True) (\<lambda>a b. ava_key a = ava_key b)
     (parse_ava s full) (parse_ava (to_ascii_lowercase s) full')"
proof -
  have n: "to_ascii_lowercase (trim (unescape (to_ascii_lowercase x))) =
      to_ascii_lowercase (trim (unescape x))" for x
    by (simp add: unescape_lower flip: trim_lower)
  show ?thesis
    by (simp add: parse_ava_def find_unescaped_def find_loop_lower trim_lower ava_key_def n
        to_ascii_lowercase_take [symmetric] to_ascii_lowercase_drop [symmetric] Let_def split: option.split)
qed

lemma parse_avas_lower:
  "rel_sum (\<lambda>_ _. True) (\<lambda>as bs. map ava_key as = map ava_key bs)
     (parse_avas full ps) (parse_avas full' (map to_ascii_lowercase ps))"
proof (induction ps)
  case (Cons p ps)
  show ?case
    using Cons parse_ava_lower [of "trim p" full full']
    by (auto simp: trim_lower split: sum.split elim!: rel_sum.cases)
qed simp

lemma map_sort_key: "map f (sort_key f xs) = sort (map f xs)"
proof (induction xs)
  case (Cons x xs)
  have "map f (insort_key f x ys) = insort (f x) (map f ys)" for ys
    by (induction ys) auto
  with Cons show ?case by simp
qed simp

lemma parse_rdns_lower:
  "rel_sum (\<lambda>_ _. True) (\<lambda>rs ss. map rdn_norm rs = map rdn_norm ss)
     (parse_rdns full ps) (parse_rdns full' (map to_ascii_lowercase ps))"
proof (induction ps)
  case (Cons p ps)
  let ?as = "parse_avas full (split_unescaped (trim p) (CHR ''+''))"
  let ?bs = "parse_avas full' (map to_ascii_lowercase (split_unescaped (trim p) (CHR ''+'')))"
  have "rel_sum (\<lambda>_ _. True) (\<lambda>as bs. map ava_key as = map ava_key bs) ?as ?bs"
    by (rule parse_avas_lower)
  then consider e e' where "?as = Inl e" "?bs = Inl e'"
    | as bs where "?as = Inr as" "?bs = Inr bs" "map ava_key as = map ava_key bs"
    by (cases rule: rel_sum.cases) auto
  then show ?case
  proof cases
    case 1
    then show ?thesis by (simp add: trim_lower split_unescaped_lower Let_def)
  next
    case 2
    then have "rdn_norm (Rdn (sort_key ava_key as)) = rdn_norm (Rdn (sort_key ava_key bs))"
      by (simp add: rdn_norm_def map_sort_key)
    with 2(1,2) Cons show ?thesis
      by (cases "parse_rdns full ps"; cases "parse_rdns full' (map to_ascii_lowercase ps)")
         (simp_all add: trim_lower split_unescaped_lower Let_def)
  qed
qed simp

lemma dn_parse_lower:
  "rel_sum (\<lambda>_ _. True) dn_eq (dn_parse s) (dn_parse (to_ascii_lowercase s))"
  using parse_rdns_lower [of s "split_unescaped (trim s) (CHR '','')" "to_ascii_lowercase s"]
  by (auto simp: dn_parse_def trim_lower split_unescaped_lower dn_eq_norm dn_norm_def Let_def
      split: sum.split elim!: rel_sum.cases)

lemma dn_parse_ignore_case:
  assumes "eq_ignore_ascii_case s t"
  shows "rel_sum (\<lambda>_ _. True) dn_eq (dn_parse s) (dn_parse t)"
  using dn_parse_lower [of s] dn_parse_lower [of t] assms
  by (auto simp: eq_ignore_ascii_case_def dn_eq_norm elim!: rel_sum.cases)

section \<open>Properties\<close>

text \<open>
  C16: Printing a name and parsing the text gives the name back, with its display values, its
  folded values and the order of its multi-valued components. The names are those whose
  attribute types are lower case and free of the delimiters and whose values do not end in white
  space; values may hold every special character.
\<close>
theorem parse_print_roundtrip:
  assumes "dn_ok d"
  shows "dn_parse (dn_string d) = Inr d"
  using assms by (rule dn_parse_string)

theorem parse_print_roundtrip_witness:
  "let d = Dn [Rdn [\<lparr>attr = ''cn'', val = ''Doe, J+=#'', norm_value = ''doe, j+=#''\<rparr>],
               Rdn [\<lparr>attr = ''dc'', val = ''lo'', norm_value = ''lo''\<rparr>]]
   in dn_ok d \<and> dn_parse (dn_string d) = Inr d"
proof -
  let ?d = "Dn [Rdn [\<lparr>attr = ''cn'', val = ''Doe, J+=#'', norm_value = ''doe, j+=#''\<rparr>],
                Rdn [\<lparr>attr = ''dc'', val = ''lo'', norm_value = ''lo''\<rparr>]]"
  have "dn_ok ?d" by code_simp
  with parse_print_roundtrip [OF this] show ?thesis by (simp only: Let_def)
qed

text \<open>
  C24: Texts that differ only in ASCII case parse alike: both fail, or both give names that are
  equal for the directory.
\<close>
theorem parse_ignores_case:
  assumes "eq_ignore_ascii_case s t"
  shows "case (dn_parse s, dn_parse t) of
      (Inr d, Inr e) \<Rightarrow> dn_eq d e
    | (Inl _, Inl _) \<Rightarrow> True
    | _ \<Rightarrow> False"
  using dn_parse_ignore_case [of s t] assms by (auto simp: eq_ignore_ascii_case_def split: sum.splits)

theorem parse_ignores_case_witness:
  "eq_ignore_ascii_case ''CN=Al,dc=LO'' ''cn=aL,DC=lo'' \<and>
   (case (dn_parse ''CN=Al,dc=LO'', dn_parse ''cn=aL,DC=lo'') of
      (Inr d, Inr e) \<Rightarrow> dn_eq d e
    | (Inl _, Inl _) \<Rightarrow> True
    | _ \<Rightarrow> False)"
proof -
  have "eq_ignore_ascii_case ''CN=Al,dc=LO'' ''cn=aL,DC=lo''" by code_simp
  with parse_ignores_case [OF this] show ?thesis by blast
qed

text \<open>
  A value that ends in a space is printed in a form that parses to a different value: the
  escaped space is trimmed away and its backslash stays.
\<close>
theorem trailing_space_not_preserved:
  "case dn_parse (''cn=a'' @ [CHR 0x5C] @ ''20'') of
     Inl _ \<Rightarrow> False
   | Inr d \<Rightarrow> (case dn_parse (dn_string d) of Inl _ \<Rightarrow> False | Inr e \<Rightarrow> \<not> dn_eq d e)"
  by code_simp

end
