(* ===== verification/BTree.thy ===== *)
theory BTree
  imports Prelude
begin

text \<open>
  \<open>std::collections::BTreeMap\<close>, the container of \<open>PartitionRegistry\<close> (registry.rs) and of the
  stored \<open>Entry\<close> (model.rs): an association list in strictly ascending key order, so that
  iteration (\<open>iter\<close>, \<open>values\<close>, \<open>keys\<close>) is list traversal. The interface the clients rely on is
  the locale \<open>ordered_map\<close>, interpreted here on the list operations.
\<close>

type_synonym ('k, 'v) btree = "('k \<times> 'v) list"

fun bt_get :: "('k::linorder, 'v) btree \<Rightarrow> 'k \<Rightarrow> 'v option" where
  "bt_get [] k = None"
| "bt_get ((k', v) # m) k = (if k = k' then Some v else bt_get m k)"

fun bt_insert :: "'k::linorder \<Rightarrow> 'v \<Rightarrow> ('k, 'v) btree \<Rightarrow> ('k, 'v) btree" where
  "bt_insert k v [] = [(k, v)]"
| "bt_insert k v ((k', v') # m) =
     (if k < k' then (k, v) # (k', v') # m
      else if k = k' then (k, v) # m
      else (k', v') # bt_insert k v m)"

fun bt_remove :: "'k::linorder \<Rightarrow> ('k, 'v) btree \<Rightarrow> ('k, 'v) btree" where
  "bt_remove k [] = []"
| "bt_remove k ((k', v') # m) = (if k = k' then m else (k', v') # bt_remove k m)"

definition bt_keys :: "('k, 'v) btree \<Rightarrow> 'k list" where
  "bt_keys m = map fst m"

definition bt_values :: "('k, 'v) btree \<Rightarrow> 'v list" where
  "bt_values m = map snd m"

definition bt_ok :: "('k::linorder, 'v) btree \<Rightarrow> bool" where
  "bt_ok m \<longleftrightarrow> sorted_wrt (<) (bt_keys m)"

section \<open>The interface\<close>

locale ordered_map =
  fixes emp :: "'m"
    and get :: "'m \<Rightarrow> 'k::linorder \<Rightarrow> 'v option"
    and ins :: "'k \<Rightarrow> 'v \<Rightarrow> 'm \<Rightarrow> 'm"
    and rem :: "'k \<Rightarrow> 'm \<Rightarrow> 'm"
    and keys :: "'m \<Rightarrow> 'k list"
    and ok :: "'m \<Rightarrow> bool"
  assumes ok_emp: "ok emp"
    and ok_ins: "ok m \<Longrightarrow> ok (ins k v m)"
    and ok_rem: "ok m \<Longrightarrow> ok (rem k m)"
    and get_emp: "get emp k = None"
    and get_ins: "ok m \<Longrightarrow> get (ins k v m) k' = (if k' = k then Some v else get m k')"
    and get_rem: "ok m \<Longrightarrow> get (rem k m) k' = (if k' = k then None else get m k')"
    and keys_dom: "ok m \<Longrightarrow> set (keys m) = {k. get m k \<noteq> None}"
    and keys_sorted: "ok m \<Longrightarrow> sorted_wrt (<) (keys m)"
    and get_ext: "ok m \<Longrightarrow> ok n \<Longrightarrow> (\<And>k. get m k = get n k) \<Longrightarrow> m = n"
begin

lemma ins_ins_same: "ok m \<Longrightarrow> ins k v (ins k w m) = ins k v m"
  by (rule get_ext) (simp_all add: ok_ins get_ins)

lemma ins_commute: "ok m \<Longrightarrow> j \<noteq> k \<Longrightarrow> ins k v (ins j w m) = ins j w (ins k v m)"
  by (rule get_ext) (auto simp: ok_ins get_ins)

lemma rem_absent: "ok m \<Longrightarrow> get m k = None \<Longrightarrow> rem k m = m"
  by (rule get_ext) (auto simp: ok_rem get_rem)

lemma rem_ins: "ok m \<Longrightarrow> get m k = None \<Longrightarrow> rem k (ins k v m) = m"
  by (rule get_ext) (auto simp: ok_rem ok_ins get_rem get_ins)

lemma keys_distinct: "ok m \<Longrightarrow> distinct (keys m)"
  using keys_sorted strict_sorted_iff by blast

end

section \<open>The sorted association list provides it\<close>

lemma bt_keys_Cons [simp]: "bt_keys ((k, v) # m) = k # bt_keys m"
  by (simp add: bt_keys_def)

lemma bt_keys_Nil [simp]: "bt_keys [] = []"
  by (simp add: bt_keys_def)

lemma bt_ok_Nil [simp]: "bt_ok []"
  by (simp add: bt_ok_def)

lemma bt_ok_Cons [simp]: "bt_ok ((k, v) # m) \<longleftrightarrow> (\<forall>k' \<in> set (bt_keys m). k < k') \<and> bt_ok m"
  by (simp add: bt_ok_def)

lemma bt_get_map_of: "bt_get m k = map_of m k"
  by (induction m) auto

lemma bt_get_keys: "bt_get m k \<noteq> None \<longleftrightarrow> k \<in> set (bt_keys m)"
  by (induction m) auto

lemma set_bt_keys_insert: "set (bt_keys (bt_insert k v m)) = insert k (set (bt_keys m))"
  by (induction m) (auto split: if_splits)

lemma set_bt_keys_remove: "bt_ok m \<Longrightarrow> set (bt_keys (bt_remove k m)) = set (bt_keys m) - {k}"
  by (induction m) (auto split: if_splits)

lemma bt_ok_insert: "bt_ok m \<Longrightarrow> bt_ok (bt_insert k v m)"
  by (induction m)
     (auto simp: set_bt_keys_insert not_less_iff_gr_or_eq split: if_splits, blast intro: less_trans)

lemma bt_ok_remove: "bt_ok m \<Longrightarrow> bt_ok (bt_remove k m)"
  by (induction m) (auto simp: set_bt_keys_remove split: if_splits)

lemma bt_get_insert: "bt_get (bt_insert k v m) k' = (if k' = k then Some v else bt_get m k')"
  by (induction m) auto

lemma bt_get_absent: "\<forall>k' \<in> set (bt_keys m). k < k' \<Longrightarrow> bt_get m k = None"
  using bt_get_keys by blast

lemma bt_get_remove:
  "bt_ok m \<Longrightarrow> bt_get (bt_remove k m) k' = (if k' = k then None else bt_get m k')"
  by (induction m) (auto simp: bt_get_absent)

lemma bt_get_ext:
  "bt_ok m \<Longrightarrow> bt_ok n \<Longrightarrow> (\<And>k. bt_get m k = bt_get n k) \<Longrightarrow> m = n"
proof (induction m arbitrary: n)
  case Nil
  then have "set (bt_keys n) = {}" by (metis all_not_in_conv bt_get.simps(1) bt_get_keys)
  then show ?case by (simp add: bt_keys_def)
next
  case (Cons kv m)
  obtain k v where kv: "kv = (k, v)" by (cases kv)
  have "k \<in> set (bt_keys n)" using Cons.prems(3) [of k] kv by (simp flip: bt_get_keys) (metis)
  then obtain k' v' n' where n: "n = (k', v') # n'" by (cases n) auto
  have "k' \<in> set (bt_keys (kv # m))"
    using Cons.prems(3) [of k'] n by (simp flip: bt_get_keys)
  with Cons.prems(1,2) \<open>k \<in> set (bt_keys n)\<close> kv n have [simp]: "k' = k" by (auto dest: less_asym)
  moreover have "v' = v" using Cons.prems(3) [of k] kv n by simp
  moreover have "m = n'"
  proof (rule Cons.IH)
    fix j
    show "bt_get m j = bt_get n' j"
      using Cons.prems(1,2) Cons.prems(3) [of j] kv n by (cases "j = k") (auto simp: bt_get_absent)
  qed (use Cons.prems kv n in auto)
  ultimately show ?case by (simp add: kv n)
qed

interpretation bt: ordered_map "[]" bt_get bt_insert bt_remove bt_keys bt_ok
proof (unfold_locales, goal_cases)
  case (7 m)
  then show ?case by (auto simp flip: bt_get_keys)
next
  case (8 m)
  then show ?case by (simp add: bt_ok_def)
qed (simp_all add: bt_ok_insert bt_ok_remove bt_get_insert bt_get_remove bt_get_ext)

lemmas bt_simps = bt.ok_ins bt.ok_rem bt.get_ins bt.get_rem

lemma bt_mem_get: "bt_ok m \<Longrightarrow> (k, v) \<in> set m \<longleftrightarrow> bt_get m k = Some v"
  by (induction m) (force simp: bt_keys_def split: if_splits dest: bt_get_absent)+

end
