(* ===== verification/Partition.thy ===== *)
theory Partition
  imports Dn BTree
begin

text \<open>
  The naming-context model (crates/partition/src/partition.rs) and the registry that routes a
  name to its naming context (crates/partition/src/registry.rs). \<open>PartitionId\<close> and \<open>ForestId\<close>
  are the validated newtypes, \<open>partition\<close> is the struct with its builders, and the registry is
  the \<open>BTreeMap\<close> from ids to partitions, iterated in id order.
\<close>

section \<open>Identifiers\<close>

datatype partition_id = PartitionId (pid_str: string)

datatype forest_id = ForestId (fid_str: string)

definition valid_id :: "string \<Rightarrow> bool" where
  "valid_id s \<longleftrightarrow>
     s \<noteq> [] \<and> \<not> starts_with s ''-'' \<and> \<not> ends_with s ''-'' \<and>
     list_all (\<lambda>c. is_ascii_lowercase c \<or> is_ascii_digit c \<or> c = CHR ''-'') s"

definition partition_id_new :: "string \<Rightarrow> partition_error + partition_id" where
  "partition_id_new s = (if valid_id s then Inr (PartitionId s) else Inl (InvalidId s))"

definition forest_id_new :: "string \<Rightarrow> partition_error + forest_id" where
  "forest_id_new s = (if valid_id s then Inr (ForestId s) else Inl (InvalidForestId s))"

text \<open>The derived \<open>Ord\<close> of \<open>PartitionId\<close>, the key order of the registry.\<close>

instantiation partition_id :: linorder
begin

definition less_eq_partition_id :: "partition_id \<Rightarrow> partition_id \<Rightarrow> bool" where
  "less_eq_partition_id a b \<longleftrightarrow> pid_str a \<le> pid_str b"

definition less_partition_id :: "partition_id \<Rightarrow> partition_id \<Rightarrow> bool" where
  "less_partition_id a b \<longleftrightarrow> pid_str a < pid_str b"

instance
  by standard (auto simp: less_eq_partition_id_def less_partition_id_def partition_id.expand)

end

section \<open>Partitions\<close>

datatype partition_kind = Domain | Schema | Configuration | Application

record tls_ref =
  tls_ca :: string
  tls_cert :: string
  tls_key :: string

record cluster_ref =
  endpoints :: "string list"
  tls :: "tls_ref option"

definition plaintext :: "string list \<Rightarrow> cluster_ref" where
  "plaintext eps = \<lparr>endpoints = eps, tls = None\<rparr>"

record partition =
  part_id :: partition_id
  forest :: forest_id
  base_dn :: dn
  kind :: partition_kind
  realm :: "string option"
  cluster :: cluster_ref
  superior :: "partition_id option"
  subordinates :: "partition_id list"
  ldap_url :: "string option"
  kdc_url :: "string option"
  domain_sid :: "string option"
  netbios_name :: "string option"

text \<open>\<open>realm_from_dn\<close>: the values of the single-valued \<open>dc\<close> components, upper-cased.\<close>

definition dc_label :: "rdn \<Rightarrow> string option" where
  "dc_label r =
     (case avas r of
        [a] \<Rightarrow> if attr a = ''dc'' then Some (to_ascii_uppercase (val a)) else None
      | _ \<Rightarrow> None)"

definition realm_from_dn :: "dn \<Rightarrow> string option" where
  "realm_from_dn d =
     (let labels = List.map_filter dc_label (rdns d)
      in if labels = [] then None else Some (join ''.'' labels))"

definition new_partition ::
  "partition_id \<Rightarrow> forest_id \<Rightarrow> dn \<Rightarrow> partition_kind \<Rightarrow> string option \<Rightarrow> cluster_ref \<Rightarrow> partition" where
  "new_partition i f b k r c =
     \<lparr>part_id = i, forest = f, base_dn = b, kind = k, realm = r, cluster = c, superior = None,
      subordinates = [], ldap_url = None, kdc_url = None, domain_sid = None, netbios_name = None\<rparr>"

definition domain :: "string \<Rightarrow> forest_id \<Rightarrow> dn \<Rightarrow> cluster_ref \<Rightarrow> partition_error + partition" where
  "domain i f b c =
     (case partition_id_new i of
        Inl e \<Rightarrow> Inl e
      | Inr pid \<Rightarrow> Inr (new_partition pid f b Domain (realm_from_dn b) c))"

definition configuration :: "string \<Rightarrow> forest_id \<Rightarrow> dn \<Rightarrow> cluster_ref \<Rightarrow> partition_error + partition" where
  "configuration i f b c =
     (case partition_id_new i of
        Inl e \<Rightarrow> Inl e
      | Inr pid \<Rightarrow> Inr (new_partition pid f b Configuration None c))"

definition schema :: "string \<Rightarrow> forest_id \<Rightarrow> dn \<Rightarrow> cluster_ref \<Rightarrow> partition_error + partition" where
  "schema i f b c =
     (case partition_id_new i of
        Inl e \<Rightarrow> Inl e
      | Inr pid \<Rightarrow> Inr (new_partition pid f b Schema None c))"

definition with_superior :: "partition \<Rightarrow> partition_id \<Rightarrow> partition" where
  "with_superior p s = p\<lparr>superior := Some s\<rparr>"

definition with_realm :: "partition \<Rightarrow> string \<Rightarrow> partition" where
  "with_realm p r = p\<lparr>realm := Some (to_ascii_uppercase r)\<rparr>"

definition with_ldap_url :: "partition \<Rightarrow> string \<Rightarrow> partition" where
  "with_ldap_url p u = p\<lparr>ldap_url := Some u\<rparr>"

definition with_kdc_url :: "partition \<Rightarrow> string \<Rightarrow> partition" where
  "with_kdc_url p u = p\<lparr>kdc_url := Some u\<rparr>"

definition with_domain_sid :: "partition \<Rightarrow> string \<Rightarrow> partition" where
  "with_domain_sid p s = p\<lparr>domain_sid := Some s\<rparr>"

definition with_netbios_name :: "partition \<Rightarrow> string \<Rightarrow> partition" where
  "with_netbios_name p n = p\<lparr>netbios_name := Some (to_ascii_uppercase n)\<rparr>"

section \<open>The registry\<close>

type_synonym registry = "(partition_id, partition) btree"

definition registry_new :: registry where
  "registry_new = []"

definition registry_insert :: "registry \<Rightarrow> partition \<Rightarrow> partition_error + registry" where
  "registry_insert reg p =
     (if bt_get reg (part_id p) \<noteq> None then Inl (DuplicateId (pid_str (part_id p)))
      else Inr (bt_insert (part_id p) p reg))"

fun insert_all :: "registry \<Rightarrow> partition list \<Rightarrow> partition_error + registry" where
  "insert_all reg [] = Inr reg"
| "insert_all reg (p # ps) =
     (case registry_insert reg p of Inl e \<Rightarrow> Inl e | Inr reg' \<Rightarrow> insert_all reg' ps)"

definition from_partitions :: "partition list \<Rightarrow> partition_error + registry" where
  "from_partitions ps = insert_all registry_new ps"

definition registry_get :: "registry \<Rightarrow> partition_id \<Rightarrow> partition option" where
  "registry_get reg i = bt_get reg i"

definition registry_iter :: "registry \<Rightarrow> partition list" where
  "registry_iter reg = bt_values reg"

definition resolve :: "registry \<Rightarrow> dn \<Rightarrow> partition option" where
  "resolve reg d =
     max_by_key (\<lambda>p. depth (base_dn p)) (filter (\<lambda>p. is_within d (base_dn p)) (registry_iter reg))"

definition resolve_or_err :: "registry \<Rightarrow> dn \<Rightarrow> partition_error + partition" where
  "resolve_or_err reg d =
     (case resolve reg d of None \<Rightarrow> Inl (NoOwningPartition (dn_string d)) | Some p \<Rightarrow> Inr p)"

definition superior_of :: "registry \<Rightarrow> partition_id \<Rightarrow> partition option" where
  "superior_of reg i =
     Option.bind (Option.bind (registry_get reg i) superior) (registry_get reg)"

definition subordinates_of :: "registry \<Rightarrow> partition_id \<Rightarrow> partition list" where
  "subordinates_of reg i =
     (case registry_get reg i of
        None \<Rightarrow> []
      | Some p \<Rightarrow> List.map_filter (registry_get reg) (subordinates p))"

definition forest_partitions :: "registry \<Rightarrow> forest_id \<Rightarrow> partition list" where
  "forest_partitions reg f = filter (\<lambda>p. forest p = f) (registry_iter reg)"

text \<open>The single element of an iterator; \<open>None\<close> when there is none or a second one.\<close>

definition exactly_one :: "'a list \<Rightarrow> 'a option" where
  "exactly_one xs = (case xs of [] \<Rightarrow> None | first # rest \<Rightarrow> (case rest of [] \<Rightarrow> Some first | _ \<Rightarrow> None))"

definition partition_of_kind :: "registry \<Rightarrow> forest_id \<Rightarrow> partition_kind \<Rightarrow> partition option" where
  "partition_of_kind reg f k =
     exactly_one (filter (\<lambda>p. forest p = f \<and> kind p = k) (registry_iter reg))"

definition config_partition :: "registry \<Rightarrow> forest_id \<Rightarrow> partition option" where
  "config_partition reg f = partition_of_kind reg f Configuration"

definition schema_partition :: "registry \<Rightarrow> forest_id \<Rightarrow> partition option" where
  "schema_partition reg f = partition_of_kind reg f Schema"

definition root_domain_partition :: "registry \<Rightarrow> forest_id \<Rightarrow> partition option" where
  "root_domain_partition reg f =
     exactly_one (filter (\<lambda>p. forest p = f \<and> kind p = Domain \<and> superior p = None) (registry_iter reg))"

definition naming_contexts :: "registry \<Rightarrow> dn list" where
  "naming_contexts reg = map base_dn (registry_iter reg)"

section \<open>Identifiers\<close>

lemma valid_id_chars: "valid_id s \<Longrightarrow> c \<in> set s \<Longrightarrow> c \<noteq> CHR ''/'' \<and> solid c"
  by (auto simp: valid_id_def list_all_iff is_ascii_lowercase_def is_ascii_digit_def solid_def
      is_ascii_space_def less_eq_char_def)

lemma partition_id_new_ok: "partition_id_new s = Inr i \<longleftrightarrow> valid_id s \<and> i = PartitionId s"
  by (auto simp: partition_id_new_def)

section \<open>Registry invariant\<close>

text \<open>Keys ascend, every partition is stored under its own id, and every id is a valid one.\<close>

definition registry_ok :: "registry \<Rightarrow> bool" where
  "registry_ok reg \<longleftrightarrow>
     bt_ok reg \<and> (\<forall>(i, p) \<in> set reg. part_id p = i \<and> valid_id (pid_str i))"

lemma set_bt_insert: "bt_ok m \<Longrightarrow> bt_get m k = None \<Longrightarrow> set (bt_insert k v m) = insert (k, v) (set m)"
  by (induction m) (auto split: if_splits)

lemma registry_ok_insert:
  assumes "registry_ok reg" "valid_id (pid_str (part_id p))" "registry_insert reg p = Inr reg'"
  shows "registry_ok reg'" "set reg' = insert (part_id p, p) (set reg)"
    "bt_get reg (part_id p) = None"
  using assms
  by (auto simp: registry_ok_def registry_insert_def set_bt_insert bt_ok_insert split: if_splits)

lemma registry_get_mem: "registry_ok reg \<Longrightarrow> registry_get reg i = Some p \<longleftrightarrow> (i, p) \<in> set reg"
  by (simp add: registry_ok_def registry_get_def bt_mem_get)

lemma set_registry_iter:
  assumes "registry_ok reg"
  shows "p \<in> set (registry_iter reg) \<longleftrightarrow> registry_get reg (part_id p) = Some p"
proof -
  have "p \<in> set (registry_iter reg) \<longleftrightarrow> (\<exists>i. (i, p) \<in> set reg)"
    by (force simp: registry_iter_def bt_values_def)
  also have "\<dots> \<longleftrightarrow> (part_id p, p) \<in> set reg"
    using assms by (auto simp: registry_ok_def)
  finally show ?thesis using assms by (simp add: registry_get_mem)
qed

lemma registry_insert_dup:
  "registry_insert reg p = Inl e \<longleftrightarrow>
     registry_get reg (part_id p) \<noteq> None \<and> e = DuplicateId (pid_str (part_id p))"
  by (auto simp: registry_insert_def registry_get_def)

lemma registry_ok_new: "registry_ok registry_new"
  by (simp add: registry_ok_def registry_new_def)

lemma insert_all_ok:
  assumes "registry_ok reg" "\<forall>p \<in> set ps. valid_id (pid_str (part_id p))" "insert_all reg ps = Inr reg'"
  shows "registry_ok reg' \<and> set reg' = set reg \<union> (\<lambda>p. (part_id p, p)) ` set ps"
  using assms
proof (induction ps arbitrary: reg)
  case (Cons p ps)
  then obtain r where r: "registry_insert reg p = Inr r" "insert_all r ps = Inr reg'"
    by (auto split: sum.splits)
  with Cons registry_ok_insert [of reg p r] show ?case by auto
qed simp

lemma insert_all_succeeds:
  assumes "registry_ok reg" "\<forall>p \<in> set ps. valid_id (pid_str (part_id p))"
  shows "(\<exists>reg'. insert_all reg ps = Inr reg') \<longleftrightarrow>
     distinct (map part_id ps) \<and> (\<forall>p \<in> set ps. registry_get reg (part_id p) = None)"
  using assms
proof (induction ps arbitrary: reg)
  case (Cons p ps)
  show ?case
  proof (cases "registry_get reg (part_id p)")
    case None
    then obtain r where r: "registry_insert reg p = Inr r"
      by (auto simp: registry_insert_def registry_get_def)
    have "registry_get r i = (if i = part_id p then Some p else registry_get reg i)" for i
      using r by (auto simp: registry_insert_def registry_get_def bt_get_insert split: if_splits)
    with Cons r None registry_ok_insert [of reg p r] show ?thesis
      by (auto split: if_splits) (metis image_eqI)
  next
    case (Some q)
    then show ?thesis by (auto simp: registry_insert_def registry_get_def)
  qed
qed simp

section \<open>Routing\<close>

text \<open>The routing contract the store and the LDAP front end rely on.\<close>

locale router =
  fixes route :: "'r \<Rightarrow> dn \<Rightarrow> 'p option"
    and base :: "'p \<Rightarrow> dn"
    and parts :: "'r \<Rightarrow> 'p list"
  assumes route_Some: "route r d = Some p \<Longrightarrow>
      p \<in> set (parts r) \<and> is_within d (base p) \<and>
      (\<forall>q \<in> set (parts r). is_within d (base q) \<longrightarrow> depth (base q) \<le> depth (base p))"
    and route_None: "route r d = None \<longleftrightarrow> (\<forall>q \<in> set (parts r). \<not> is_within d (base q))"
begin

lemma owner_nested:
  assumes "route r d = Some p" "q \<in> set (parts r)" "is_within d (base q)"
  shows "is_within (base p) (base q)"
  using assms route_Some [OF assms(1)] within_comparable by blast

lemma owner_of_descendant:
  assumes "route r d = Some p" "is_within d' d"
    "\<forall>q \<in> set (parts r). is_within d' (base q) \<longrightarrow> \<not> is_strict_descendant_of (base q) d"
    "route r d' = Some p'"
  shows "dn_eq (base p') (base p)"
proof -
  have p: "is_within d (base p)" "p \<in> set (parts r)" using route_Some [OF assms(1)] by auto
  have p': "is_within d' (base p')" "p' \<in> set (parts r)" using route_Some [OF assms(4)] by auto
  have "\<not> depth d < depth (base p')"
  proof
    assume lt: "depth d < depth (base p')"
    then have "is_within (base p') d"
      using within_comparable [OF assms(2) p'(1)] by simp
    with lt have "is_strict_descendant_of (base p') d"
      by (simp add: is_strict_descendant_of_def depth_def)
    with assms(3) p' show False by blast
  qed
  then have "is_within d (base p')"
    using within_comparable [OF p'(1) assms(2)] by simp
  then have "is_within (base p) (base p')" using owner_nested [OF assms(1) p'(2)] by blast
  moreover have "is_within (base p') (base p)"
    using owner_nested [OF assms(4) p(2)] is_within_trans [OF assms(2) p(1)] by blast
  ultimately show ?thesis by (rule is_within_antisym [rotated])
qed

lemma route_unique:
  assumes "route r d = Some p" "q \<in> set (parts r)" "is_within d (base q)"
    "\<forall>s \<in> set (parts r). is_within d (base s) \<longrightarrow> depth (base s) \<le> depth (base q)"
    "\<And>s t. s \<in> set (parts r) \<Longrightarrow> t \<in> set (parts r) \<Longrightarrow> dn_eq (base s) (base t) \<Longrightarrow> s = t"
  shows "p = q"
proof -
  have p: "p \<in> set (parts r)" "is_within d (base p)" using route_Some [OF assms(1)] by auto
  have "is_within (base p) (base q)" using owner_nested [OF assms(1-3)] .
  moreover have "is_within (base q) (base p)" using assms(3,4) p within_comparable by blast
  ultimately show ?thesis using assms(5) [OF p(1) assms(2)] is_within_antisym by blast
qed

end

interpretation reg: router resolve base_dn registry_iter
  by unfold_locales (auto simp: resolve_def filter_empty_conv dest: max_by_key_Some)

lemma resolve_or_err_Inr: "resolve_or_err reg d = Inr p \<longleftrightarrow> resolve reg d = Some p"
  by (auto simp: resolve_or_err_def split: option.splits)

lemma exactly_one_Some: "exactly_one xs = Some x \<longleftrightarrow> xs = [x]"
  by (auto simp: exactly_one_def split: list.splits)

lemma insert_all_fails:
  assumes "insert_all reg ps = Inl e"
  shows "\<exists>qs p rs. ps = qs @ p # rs \<and> (registry_get reg (part_id p) \<noteq> None \<or> part_id p \<in> part_id ` set qs) \<and>
    distinct (map part_id qs) \<and> (\<forall>q \<in> set qs. registry_get reg (part_id q) = None) \<and>
    e = DuplicateId (pid_str (part_id p))"
  using assms
proof (induction ps arbitrary: reg)
  case (Cons p ps)
  show ?case
  proof (cases "registry_get reg (part_id p)")
    case None
    then obtain r where r: "registry_insert reg p = Inr r"
      by (auto simp: registry_insert_def registry_get_def)
    have get: "registry_get r i = (if i = part_id p then Some p else registry_get reg i)" for i
      using r by (auto simp: registry_insert_def registry_get_def bt_get_insert split: if_splits)
    obtain qs p' rs where ih: "ps = qs @ p' # rs"
      "registry_get r (part_id p') \<noteq> None \<or> part_id p' \<in> part_id ` set qs"
      "distinct (map part_id qs)" "\<forall>q \<in> set qs. registry_get r (part_id q) = None"
      "e = DuplicateId (pid_str (part_id p'))"
      using Cons.IH [of r] Cons.prems r by auto
    then show ?thesis
      using None get by (intro exI [of _ "p # qs"] exI [of _ p'] exI [of _ rs]) (auto split: if_splits)
  next
    case (Some q)
    then show ?thesis
      using Cons.prems
      by (intro exI [of _ "[]"] exI [of _ p] exI [of _ ps]) (auto simp: registry_insert_def registry_get_def)
  qed
qed simp

section \<open>Properties\<close>

text \<open>
  C23: A name is routed to the registered partition with the longest base that contains it: every
  other registered base that contains the name also contains the base of the chosen partition,
  and no partition is chosen only when no registered base contains the name.
\<close>
theorem resolve_longest_suffix:
  "case resolve reg d of
     None \<Rightarrow> \<forall>q \<in> set (registry_iter reg). \<not> is_within d (base_dn q)
   | Some p \<Rightarrow> p \<in> set (registry_iter reg) \<and> is_within d (base_dn p) \<and>
       (\<forall>q \<in> set (registry_iter reg). is_within d (base_dn q) \<longrightarrow> is_within (base_dn p) (base_dn q))"
proof (cases "resolve reg d")
  case None
  then have "\<forall>q \<in> set (registry_iter reg). \<not> is_within d (base_dn q)" using reg.route_None by blast
  with None show ?thesis by (simp only: option.case)
next
  case (Some p)
  then show ?thesis using reg.route_Some [OF Some] reg.owner_nested [OF Some] by simp
qed

definition example_partition :: "string \<Rightarrow> dn \<Rightarrow> partition" where
  "example_partition i b = new_partition (PartitionId i) (ForestId ''f'') b Domain None (plaintext [])"

definition example_dn :: "string list \<Rightarrow> dn" where
  "example_dn vs = Dn (map (\<lambda>v. Rdn [\<lparr>attr = ''dc'', val = v, norm_value = v\<rparr>]) vs)"

theorem resolve_longest_suffix_witness:
  "let reg = [(PartitionId ''a'', example_partition ''a'' (example_dn [''lo''])),
              (PartitionId ''b'', example_partition ''b'' (example_dn [''x'', ''lo'']))];
       d = example_dn [''u'', ''x'', ''lo'']
   in resolve reg d = Some (example_partition ''b'' (example_dn [''x'', ''lo''])) \<and>
      is_within (example_dn [''x'', ''lo'']) (example_dn [''lo''])"
proof -
  let ?a = "example_partition ''a'' (example_dn [''lo''])"
  let ?b = "example_partition ''b'' (example_dn [''x'', ''lo''])"
  let ?reg = "[(PartitionId ''a'', ?a), (PartitionId ''b'', ?b)]"
  let ?d = "example_dn [''u'', ''x'', ''lo'']"
  have r: "resolve ?reg ?d = Some ?b" by code_simp
  have m: "?a \<in> set (registry_iter ?reg)" "is_within ?d (base_dn ?a)"
    "base_dn ?a = example_dn [''lo'']" "base_dn ?b = example_dn [''x'', ''lo'']" by code_simp+
  have "is_within (base_dn ?b) (base_dn ?a)"
    using resolve_longest_suffix [of ?reg ?d] r m(1,2) by (simp only: option.case)
  then show ?thesis using r m(3,4) by (simp only: Let_def)
qed

text \<open>
  Building a registry succeeds exactly when no two partitions share an id, and the registry
  then iterates over exactly the given partitions, in the order of their ids; a failure names the
  first id that was already taken.
\<close>
theorem from_partitions_distinct:
  assumes "\<forall>p \<in> set ps. valid_id (pid_str (part_id p))"
  shows "case from_partitions ps of
      Inr reg \<Rightarrow> distinct (map part_id ps) \<and> registry_ok reg \<and> set (registry_iter reg) = set ps \<and>
        sorted_wrt (<) (map part_id (registry_iter reg))
    | Inl e \<Rightarrow> (\<exists>qs p rs. ps = qs @ p # rs \<and> part_id p \<in> part_id ` set qs \<and>
        distinct (map part_id qs) \<and> e = DuplicateId (pid_str (part_id p)))"
proof (cases "from_partitions ps")
  case (Inr reg)
  then have ins: "insert_all registry_new ps = Inr reg" by (simp add: from_partitions_def)
  have ok: "registry_ok reg" "set reg = (\<lambda>p. (part_id p, p)) ` set ps"
    using insert_all_ok [OF registry_ok_new assms ins] by (simp_all add: registry_new_def)
  moreover have "distinct (map part_id ps)"
    using insert_all_succeeds [OF registry_ok_new assms] ins by auto
  moreover have "map part_id (registry_iter reg) = bt_keys reg"
    using ok(1) by (auto simp: registry_iter_def bt_values_def bt_keys_def registry_ok_def)
  ultimately show ?thesis
    using Inr by (auto simp: registry_iter_def bt_values_def registry_ok_def bt_ok_def image_iff)
next
  case (Inl e)
  then show ?thesis using insert_all_fails [of registry_new ps e] by (fastforce simp add: from_partitions_def registry_new_def registry_get_def)
qed

theorem from_partitions_distinct_witness:
  "let p = example_partition ''a'' (example_dn [''lo'']); q = example_partition ''a'' (example_dn [''x''])
   in valid_id (pid_str (part_id p)) \<and> from_partitions [p, q] = Inl (DuplicateId ''a'')"
proof -
  let ?p = "example_partition ''a'' (example_dn [''lo''])" and ?q = "example_partition ''a'' (example_dn [''x''])"
  have v: "\<forall>p \<in> set [?p, ?q]. valid_id (pid_str (part_id p))" by code_simp
  have i: "part_id ?p = PartitionId ''a''" "part_id ?q = PartitionId ''a''" by code_simp+
  have "from_partitions [?p, ?q] = Inl (DuplicateId ''a'')"
    using from_partitions_distinct [OF v] i
    by (cases "from_partitions [?p, ?q]") (auto simp: Cons_eq_append_conv)
  then show ?thesis using v by (simp only: Let_def) simp
qed

end
