(* ===== verification/Key.thy ===== *)
theory Key
  imports Partition
begin

text \<open>
  The key encoding of the directory tree and its indexes (crates/partition/src/key.rs): every key
  of a partition lies under \<open>/iron/<pid>/\<close>, an entry's key is its root-first path of normalized
  components, so that a subtree is a key prefix, and an index key is the attribute, the value and
  the name, each percent-escaped.
\<close>

definition partition_root :: "partition_id \<Rightarrow> string" where
  "partition_root pid = ''/iron/'' @ pid_str pid @ ''/''"

definition tree_root :: "partition_id \<Rightarrow> string" where
  "tree_root pid = ''/iron/'' @ pid_str pid @ ''/tree/''"

definition entry_key :: "partition_id \<Rightarrow> dn \<Rightarrow> string" where
  "entry_key pid d = tree_root pid @ join ''/'' (reversed_components d)"

definition subtree_prefix :: "partition_id \<Rightarrow> dn \<Rightarrow> string" where
  "subtree_prefix pid d = entry_key pid d @ ''/''"

fun escape_segment :: "string \<Rightarrow> string" where
  "escape_segment [] = []"
| "escape_segment (c # s) =
     (if c = CHR ''%'' then ''%25'' else if c = CHR ''/'' then ''%2F'' else [c]) @ escape_segment s"

definition index_key :: "partition_id \<Rightarrow> string \<Rightarrow> string \<Rightarrow> dn \<Rightarrow> string" where
  "index_key pid a v d =
     ''/iron/'' @ pid_str pid @ ''/idx/'' @ escape_segment (to_ascii_lowercase a) @ ''/'' @
     escape_segment v @ ''/'' @ escape_segment (dn_string d)"

definition index_prefix :: "partition_id \<Rightarrow> string \<Rightarrow> string \<Rightarrow> string" where
  "index_prefix pid a v =
     ''/iron/'' @ pid_str pid @ ''/idx/'' @ escape_segment (to_ascii_lowercase a) @ ''/'' @
     escape_segment v @ ''/''"

section \<open>Segments\<close>

lemma escape_segment_no_slash [simp]: "CHR ''/'' \<notin> set (escape_segment s)"
  by (induction s) auto

lemma escape_segment_inj: "escape_segment s = escape_segment t \<Longrightarrow> s = t"
proof (induction s arbitrary: t)
  case Nil
  then show ?case by (cases t) (auto split: if_splits)
next
  case (Cons c s)
  then show ?case by (cases t) (auto split: if_splits)
qed

lemma slash_split:
  "d \<notin> set x \<Longrightarrow> d \<notin> set y \<Longrightarrow> x @ d # s = y @ d # t \<longleftrightarrow> x = y \<and> s = t"
proof (induction x arbitrary: y)
  case Nil
  then show ?case by (cases y) auto
next
  case (Cons c x)
  then show ?case by (cases y) auto
qed

lemma slash_split_prefix:
  "d \<notin> set x \<Longrightarrow> d \<notin> set y \<Longrightarrow> prefix (x @ d # s) (y @ d # t) \<longleftrightarrow> x = y \<and> prefix s t"
  by (auto simp: prefix_def slash_split)

section \<open>Paths\<close>

lemma split_char_join_append:
  "ps \<noteq> [] \<Longrightarrow> \<forall>p \<in> set ps. d \<notin> set p \<Longrightarrow> split_char d (join [d] ps @ d # t) = ps @ split_char d t"
proof (induction ps)
  case (Cons p ps)
  then show ?case by (cases "ps = []") (auto simp: join_Cons split_char_append)
qed simp

lemma join_prefix_iff:
  assumes "ps \<noteq> []" "\<forall>p \<in> set ps. d \<notin> set p" "\<forall>q \<in> set qs. d \<notin> set q"
  shows "prefix (join [d] ps @ [d]) (join [d] qs) \<longleftrightarrow> (\<exists>r. r \<noteq> [] \<and> qs = ps @ r)"
proof
  assume "prefix (join [d] ps @ [d]) (join [d] qs)"
  then obtain t where t: "join [d] qs = join [d] ps @ d # t" by (auto simp: prefix_def)
  then have "qs \<noteq> []" by auto
  then have "qs = split_char d (join [d] qs)" using split_char_join assms(3) by metis
  also have "\<dots> = ps @ split_char d t" using t split_char_join_append assms(1,2) by metis
  finally show "\<exists>r. r \<noteq> [] \<and> qs = ps @ r" by (intro exI [of _ "split_char d t"]) simp
next
  assume "\<exists>r. r \<noteq> [] \<and> qs = ps @ r"
  then show "prefix (join [d] ps @ [d]) (join [d] qs)"
    using assms(1) by (auto simp: join_append)
qed

text \<open>
  Names whose components can be read back from a key: no \<open>/\<close> or \<open>+\<close> in attribute types and
  folded values, no \<open>=\<close> in attribute types.
\<close>

definition ava_key_clean :: "ava \<Rightarrow> bool" where
  "ava_key_clean a \<longleftrightarrow>
     CHR ''/'' \<notin> set (attr a) \<union> set (norm_value a) \<and> CHR ''+'' \<notin> set (attr a) \<union> set (norm_value a) \<and>
     CHR ''='' \<notin> set (attr a)"

definition key_clean :: "dn \<Rightarrow> bool" where
  "key_clean d \<longleftrightarrow> (\<forall>r \<in> set (rdns d). avas r \<noteq> [] \<and> (\<forall>a \<in> set (avas r). ava_key_clean a))"

definition ava_component :: "string \<times> string \<Rightarrow> string" where
  "ava_component kv = fst kv @ ''='' @ snd kv"

definition rdn_component :: "(string \<times> string) list \<Rightarrow> string" where
  "rdn_component n = join ''+'' (map ava_component n)"

lemma normalized_string_component: "normalized_string r = rdn_component (rdn_norm r)"
  by (simp add: normalized_string_def rdn_component_def rdn_norm_def comp_def ava_component_def ava_key_def)

lemma reversed_components_norm: "reversed_components d = map rdn_component (rev (dn_norm d))"
  by (simp add: reversed_components_def dn_norm_def normalized_string_component rev_map)

definition norm_clean :: "(string \<times> string) list \<Rightarrow> bool" where
  "norm_clean n \<longleftrightarrow> n \<noteq> [] \<and>
     (\<forall>x \<in> set n. CHR ''/'' \<notin> set (fst x) \<union> set (snd x) \<and> CHR ''+'' \<notin> set (fst x) \<union> set (snd x) \<and>
        CHR ''='' \<notin> set (fst x))"

lemma key_clean_norm: "key_clean d \<longleftrightarrow> (\<forall>n \<in> set (dn_norm d). norm_clean n)"
  by (auto simp: key_clean_def dn_norm_def norm_clean_def rdn_norm_def ava_key_clean_def ava_key_def)

lemma rdn_component_inj:
  assumes "norm_clean m" "norm_clean n" "rdn_component m = rdn_component n"
  shows "m = n"
proof -
  have s: "split_char (CHR ''+'') (rdn_component x) = map ava_component x" if "norm_clean x" for x
    using that unfolding rdn_component_def
    by (intro split_char_join) (auto simp: norm_clean_def ava_component_def)
  have "map ava_component m = map ava_component n"
    using s [OF assms(1)] s [OF assms(2)] assms(3) by simp
  moreover have "inj_on ava_component (set m \<union> set n)"
  proof (rule inj_onI)
    fix x y
    assume "x \<in> set m \<union> set n" "y \<in> set m \<union> set n" "ava_component x = ava_component y"
    then show "x = y"
      using assms(1,2) slash_split [of "CHR ''=''" "fst x" "fst y" "snd x" "snd y"]
      by (auto simp: ava_component_def norm_clean_def prod_eq_iff)
  qed
  ultimately show ?thesis by (metis inj_on_map_eq_map)
qed

lemma rdn_component_no_slash: "norm_clean n \<Longrightarrow> CHR ''/'' \<notin> set (rdn_component n)"
proof -
  have "c \<in> set (join sep xs) \<Longrightarrow> c \<in> set sep \<or> (\<exists>x \<in> set xs. c \<in> set x)" for c sep and xs :: "string list"
    by (induction xs) (auto simp: join_Cons split: if_splits)
  then show "norm_clean n \<Longrightarrow> CHR ''/'' \<notin> set (rdn_component n)"
    by (fastforce simp: rdn_component_def norm_clean_def ava_component_def)
qed

lemma rdn_component_not_Nil: "norm_clean n \<Longrightarrow> rdn_component n \<noteq> []"
  by (cases n) (auto simp: rdn_component_def norm_clean_def ava_component_def join_Cons)

lemma components_inj:
  assumes "\<forall>n \<in> set ms. norm_clean n" "\<forall>n \<in> set ns. norm_clean n"
  shows "map rdn_component ms = map rdn_component ns \<longleftrightarrow> ms = ns"
proof
  have "inj_on rdn_component (set ms \<union> set ns)"
    using assms rdn_component_inj by (auto intro!: inj_onI)
  then show "map rdn_component ms = map rdn_component ns \<Longrightarrow> ms = ns"
    by (metis inj_on_map_eq_map)
qed simp

lemma reversed_components_split:
  assumes "key_clean d" "rdns d \<noteq> []"
  shows "split_char (CHR ''/'') (join ''/'' (reversed_components d)) = reversed_components d"
  using assms unfolding reversed_components_norm key_clean_norm
  by (intro split_char_join) (auto simp: dn_norm_def rdn_component_no_slash)

lemma entry_key_eq_iff:
  assumes "key_clean d" "key_clean e"
  shows "entry_key p d = entry_key p e \<longleftrightarrow> dn_eq d e"
proof
  assume "entry_key p d = entry_key p e"
  then have j: "join ''/'' (reversed_components d) = join ''/'' (reversed_components e)"
    by (simp add: entry_key_def)
  have ne: "join ''/'' (reversed_components x) \<noteq> []" if "key_clean x" "rdns x \<noteq> []" for x
  proof
    assume "join ''/'' (reversed_components x) = []"
    then have "reversed_components x = [[]]" using reversed_components_split [OF that] by simp
    then have "[] \<in> set (reversed_components x)" by simp
    then show False
      using that(1) unfolding reversed_components_norm key_clean_norm by (auto dest: rdn_component_not_Nil [THEN not_sym])
  qed
  have "reversed_components d = reversed_components e"
  proof (cases "rdns d = [] \<or> rdns e = []")
    case True
    have "join ''/'' (reversed_components x) = []" if "rdns x = []" for x
      using that by (simp add: reversed_components_def)
    with True have "rdns d = []" "rdns e = []" using j ne assms by metis+
    then show ?thesis by (simp add: reversed_components_def)
  next
    case False
    then show ?thesis using j assms reversed_components_split by metis
  qed
  then have "rev (dn_norm d) = rev (dn_norm e)"
    using assms unfolding reversed_components_norm key_clean_norm by (subst (asm) components_inj) auto
  then show "dn_eq d e" by (simp add: dn_eq_norm)
next
  assume "dn_eq d e"
  then show "entry_key p d = entry_key p e"
    by (simp add: entry_key_def reversed_components_norm dn_eq_norm)
qed

lemma subtree_prefix_iff:
  assumes "key_clean d" "key_clean b" "rdns b \<noteq> []"
  shows "prefix (subtree_prefix p b) (entry_key p d) \<longleftrightarrow> is_strict_descendant_of d b"
proof -
  have "prefix (subtree_prefix p b) (entry_key p d) \<longleftrightarrow>
      (\<exists>r. r \<noteq> [] \<and> reversed_components d = reversed_components b @ r)"
    unfolding subtree_prefix_def entry_key_def append_assoc same_prefix_prefix
    using assms
    by (intro join_prefix_iff)
       (auto simp: reversed_components_norm key_clean_norm dn_norm_def rdn_component_no_slash)
  also have "\<dots> \<longleftrightarrow> (\<exists>r. r \<noteq> [] \<and> rev (dn_norm d) = rev (dn_norm b) @ r)"
  proof
    assume "\<exists>r. r \<noteq> [] \<and> reversed_components d = reversed_components b @ r"
    then obtain r where r: "r \<noteq> []" "map rdn_component (rev (dn_norm d)) = map rdn_component (rev (dn_norm b)) @ r"
      by (auto simp: reversed_components_norm)
    then obtain xs ys where xy: "rev (dn_norm d) = xs @ ys" "map rdn_component xs = map rdn_component (rev (dn_norm b))"
      "map rdn_component ys = r" unfolding map_eq_append_conv by metis
    have "set xs \<subseteq> set (dn_norm d)" using xy(1) by (metis Un_upper1 set_append set_rev)
    then have "xs = rev (dn_norm b)"
      using xy(2) assms components_inj [of xs "rev (dn_norm b)"] unfolding key_clean_norm by auto
    with xy r show "\<exists>r. r \<noteq> [] \<and> rev (dn_norm d) = rev (dn_norm b) @ r" by auto
  qed (auto simp: reversed_components_norm)
  also have "\<dots> \<longleftrightarrow> is_strict_descendant_of d b"
    unfolding strict_descendant_norm strict_suffix_def suffix_def
    by (metis append_Nil rev_append rev_is_Nil_conv rev_rev_ident self_append_conv2)
  finally show ?thesis .
qed

section \<open>Index keys\<close>

lemma index_prefix_iff:
  "prefix (index_prefix p a v) (index_key p a' v' d) \<longleftrightarrow>
     to_ascii_lowercase a = to_ascii_lowercase a' \<and> v = v'"
  unfolding index_prefix_def index_key_def append_assoc same_prefix_prefix
  by (auto simp: slash_split_prefix dest: escape_segment_inj)

lemma index_key_eq_iff:
  "index_key p a v d = index_key p a' v' d' \<longleftrightarrow>
     to_ascii_lowercase a = to_ascii_lowercase a' \<and> v = v' \<and> dn_string d = dn_string d'"
  unfolding index_key_def append_assoc same_append_eq
  by (auto simp: slash_split dest: escape_segment_inj)

section \<open>Name spaces\<close>

lemma keys_in_partition:
  "prefix (partition_root p) (entry_key p d)" "prefix (partition_root p) (subtree_prefix p d)"
  "prefix (partition_root p) (index_key p a v d)" "prefix (partition_root p) (index_prefix p a v)"
  by (simp_all add: partition_root_def entry_key_def tree_root_def subtree_prefix_def index_key_def
      index_prefix_def)

lemma partition_root_disjoint:
  assumes "valid_id (pid_str p)" "valid_id (pid_str q)" "prefix (partition_root p) k" "prefix (partition_root q) k"
  shows "p = q"
proof -
  from assms(3,4) obtain s t where "pid_str p @ CHR ''/'' # s = pid_str q @ CHR ''/'' # t"
    by (auto simp: prefix_def partition_root_def)
  then show ?thesis
    using assms(1,2) valid_id_chars by (subst (asm) slash_split) (auto simp: partition_id.expand)
qed

lemma entry_index_disjoint: "entry_key p d \<noteq> index_key p a v e"
  by (simp add: entry_key_def tree_root_def index_key_def)

section \<open>Properties\<close>

text \<open>
  C17: Within a partition, two names share an entry key exactly when the directory treats them as
  the same name, and the key of a name lies under the subtree prefix of another exactly when the
  name is a strict descendant. The names are those whose components carry no key delimiter.
\<close>
theorem entry_keys_follow_names:
  assumes "key_clean d" "key_clean b" "rdns b \<noteq> []"
  shows "(entry_key p d = entry_key p b \<longleftrightarrow> dn_eq d b) \<and>
    (prefix (subtree_prefix p b) (entry_key p d) \<longleftrightarrow> is_strict_descendant_of d b)"
  using entry_key_eq_iff [OF assms(1,2)] subtree_prefix_iff [OF assms] by blast

theorem entry_keys_follow_names_witness:
  "let p = PartitionId ''p''; b = example_dn [''lo'']; d = example_dn [''x'', ''lo''] in
   key_clean d \<and> key_clean b \<and> rdns b \<noteq> [] \<and> entry_key p d \<noteq> entry_key p b \<and>
   prefix (subtree_prefix p b) (entry_key p d)"
proof -
  let ?b = "example_dn [''lo'']" and ?d = "example_dn [''x'', ''lo'']"
  have h: "key_clean ?d" "key_clean ?b" "rdns ?b \<noteq> []" by code_simp+
  have "\<not> dn_eq ?d ?b" "is_strict_descendant_of ?d ?b" by code_simp+
  with entry_keys_follow_names [OF h, of "PartitionId ''p''"] h show ?thesis by (simp only: Let_def) simp
qed

text \<open>
  A slash in a value is not escaped in the entry key: two different names, both accepted by
  the parser, are stored under the same key.
\<close>
theorem slash_makes_keys_collide:
  "case (dn_parse ''cn=a/ou=b,dc=lo'', dn_parse ''ou=b,cn=a,dc=lo'') of
     (Inr d, Inr e) \<Rightarrow> \<not> dn_eq d e \<and> entry_key p d = entry_key p e
   | _ \<Rightarrow> False"
proof -
  let ?ava = "\<lambda>a v. \<lparr>attr = a, val = v, norm_value = v\<rparr>"
  let ?d = "Dn [Rdn [?ava ''cn'' ''a/ou=b''], Rdn [?ava ''dc'' ''lo'']]"
  let ?e = "Dn [Rdn [?ava ''ou'' ''b''], Rdn [?ava ''cn'' ''a''], Rdn [?ava ''dc'' ''lo'']]"
  have h: "dn_parse ''cn=a/ou=b,dc=lo'' = Inr ?d" "dn_parse ''ou=b,cn=a,dc=lo'' = Inr ?e" "\<not> dn_eq ?d ?e"
    and k: "join ''/'' (reversed_components ?d) = join ''/'' (reversed_components ?e)"
    by code_simp+
  have "entry_key p ?d = entry_key p ?e"
    unfolding entry_key_def by (rule arg_cong [where f = "\<lambda>x. tree_root p @ x", OF k])
  with h(3) have "\<not> dn_eq ?d ?e \<and> entry_key p ?d = entry_key p ?e" by (rule conjI)
  then show ?thesis unfolding h(1,2) prod.case sum.case .
qed

text \<open>
  An index row lies under the prefix of an attribute and a value exactly when it was written
  for that attribute, up to case, and that very value; rows of one partition differ as soon as
  the attribute, the value or the printed name differs.
\<close>
theorem index_keys_exact:
  "(prefix (index_prefix p a v) (index_key p a' v' d) \<longleftrightarrow> eq_ignore_ascii_case a a' \<and> v = v') \<and>
   (index_key p a v d = index_key p a' v' d' \<longleftrightarrow>
      eq_ignore_ascii_case a a' \<and> v = v' \<and> dn_string d = dn_string d')"
  by (simp add: eq_ignore_ascii_case_def index_prefix_iff index_key_eq_iff)

text \<open>
  C25: The keys of different partitions are disjoint: no key, and no prefix a range read uses,
  starts with the roots of two partitions, and all keys of a partition start with its root.
\<close>
theorem partitions_have_disjoint_keys:
  assumes "valid_id (pid_str p)" "valid_id (pid_str q)" "p \<noteq> q"
    "k \<in> {entry_key p d, subtree_prefix p d, index_key p a v d, index_prefix p a v}"
  shows "prefix (partition_root p) k \<and> \<not> prefix (partition_root q) k"
proof -
  have "prefix (partition_root p) k" using assms(4) keys_in_partition by auto
  then show ?thesis using partition_root_disjoint assms(1-3) by blast
qed

theorem partitions_have_disjoint_keys_witness:
  "valid_id ''a'' \<and> valid_id ''ab'' \<and>
   \<not> prefix (partition_root (PartitionId ''ab'')) (subtree_prefix (PartitionId ''a'') (example_dn [''lo'']))"
proof -
  have "valid_id ''a''" "valid_id ''ab''" by code_simp+
  with partitions_have_disjoint_keys [of "PartitionId ''a''" "PartitionId ''ab''" "subtree_prefix (PartitionId ''a'') (example_dn [''lo''])"
      "example_dn [''lo'']"]
  show ?thesis by simp
qed

end
