(* ===== verification/Entry_Model.thy ===== *)
theory Entry_Model
  imports BTree
begin

text \<open>
  The stored entry (crates/store/src/model.rs), a map from lower-case attribute names to value
  lists, and the base64 convention for binary values (binary_attrs.rs). The base64 codec is a
  library and an argument of the two functions that call it. The interface the protocol code
  relies on is the locale \<open>attribute_values\<close>.
\<close>

datatype entry = Entry (attrs: "(string, string list) btree")

definition entry_new :: entry where
  "entry_new = Entry []"

definition entry_set :: "entry \<Rightarrow> string \<Rightarrow> string list \<Rightarrow> entry" where
  "entry_set e a vs = Entry (bt_insert (to_ascii_lowercase a) vs (attrs e))"

definition entry_get :: "entry \<Rightarrow> string \<Rightarrow> string list option" where
  "entry_get e a = bt_get (attrs e) (to_ascii_lowercase a)"

text \<open>The loop of \<open>add_values\<close>: push every value not already there.\<close>

fun push_new :: "string list \<Rightarrow> string list \<Rightarrow> string list" where
  "push_new cur [] = cur"
| "push_new cur (v # vs) = push_new (if v \<in> set cur then cur else cur @ [v]) vs"

definition entry_add_values :: "entry \<Rightarrow> string \<Rightarrow> string list \<Rightarrow> entry" where
  "entry_add_values e a vs =
     (let key = to_ascii_lowercase a;
          cur = (case bt_get (attrs e) key of None \<Rightarrow> [] | Some xs \<Rightarrow> xs) in
      Entry (bt_insert key (push_new cur vs) (attrs e)))"

definition entry_delete_values :: "entry \<Rightarrow> string \<Rightarrow> string list \<Rightarrow> entry" where
  "entry_delete_values e a vs =
     (let key = to_ascii_lowercase a in
      if vs = [] then Entry (bt_remove key (attrs e))
      else
        (case bt_get (attrs e) key of
           None \<Rightarrow> e
         | Some xs \<Rightarrow>
             (let kept = filter (\<lambda>v. v \<notin> set vs) xs in
              if kept = [] then Entry (bt_remove key (attrs e))
              else Entry (bt_insert key kept (attrs e)))))"

definition attr_names :: "entry \<Rightarrow> string list" where
  "attr_names e = bt_keys (attrs e)"

section \<open>Binary attributes\<close>

definition OBJECT_SID_ATTR :: string where
  "OBJECT_SID_ATTR = ''objectsid''"

definition NT_SECURITY_DESCRIPTOR_ATTR :: string where
  "NT_SECURITY_DESCRIPTOR_ATTR = ''ntsecuritydescriptor''"

definition is_binary_attr :: "string \<Rightarrow> bool" where
  "is_binary_attr name \<longleftrightarrow>
     eq_ignore_ascii_case name OBJECT_SID_ATTR \<or> eq_ignore_ascii_case name NT_SECURITY_DESCRIPTOR_ATTR"

text \<open>\<open>base64::engine::general_purpose::STANDARD\<close>.\<close>

record base64 =
  b64_encode :: "bytes \<Rightarrow> string"
  b64_decode :: "string \<Rightarrow> bytes option"

definition decode_binary_attr :: "base64 \<Rightarrow> string \<Rightarrow> bytes" where
  "decode_binary_attr B v = (case b64_decode B v of Some bs \<Rightarrow> bs | None \<Rightarrow> as_bytes v)"

definition encode_binary_attr :: "base64 \<Rightarrow> bytes \<Rightarrow> string" where
  "encode_binary_attr B bs = b64_encode B bs"

section \<open>The interface\<close>

definition entry_ok :: "entry \<Rightarrow> bool" where
  "entry_ok e \<longleftrightarrow> bt_ok (attrs e) \<and> (\<forall>k \<in> set (attr_names e). to_ascii_lowercase k = k)"

locale attribute_values =
  fixes emp :: 'e
    and get :: "'e \<Rightarrow> string \<Rightarrow> string list option"
    and put :: "'e \<Rightarrow> string \<Rightarrow> string list \<Rightarrow> 'e"
    and add :: "'e \<Rightarrow> string \<Rightarrow> string list \<Rightarrow> 'e"
    and del :: "'e \<Rightarrow> string \<Rightarrow> string list \<Rightarrow> 'e"
    and names :: "'e \<Rightarrow> string list"
    and ok :: "'e \<Rightarrow> bool"
  assumes ok_emp: "ok emp"
    and ok_put: "ok e \<Longrightarrow> ok (put e a vs)"
    and ok_add: "ok e \<Longrightarrow> ok (add e a vs)"
    and ok_del: "ok e \<Longrightarrow> ok (del e a vs)"
    and get_emp: "get emp a = None"
    and get_case: "eq_ignore_ascii_case a b \<Longrightarrow> get e a = get e b"
    and get_put: "get (put e a vs) b = (if eq_ignore_ascii_case b a then Some vs else get e b)"
    and get_add: "get (add e a vs) b =
          (if eq_ignore_ascii_case b a then Some (push_new (case get e a of None \<Rightarrow> [] | Some xs \<Rightarrow> xs) vs)
           else get e b)"
    and get_del: "ok e \<Longrightarrow> get (del e a vs) b =
          (if eq_ignore_ascii_case b a then
             (case get e a of
                None \<Rightarrow> None
              | Some xs \<Rightarrow> if vs = [] \<or> set xs \<subseteq> set vs then None else Some (filter (\<lambda>v. v \<notin> set vs) xs))
           else get e b)"
    and names_dom: "ok e \<Longrightarrow> set (names e) = {to_ascii_lowercase a | a. get e a \<noteq> None}"
    and ext: "ok e \<Longrightarrow> ok f \<Longrightarrow> (\<And>a. get e a = get f a) \<Longrightarrow> e = f"
begin

lemma put_put: "ok e \<Longrightarrow> eq_ignore_ascii_case a b \<Longrightarrow> put (put e a vs) b ws = put e b ws"
  by (rule ext) (auto simp: ok_put get_put eq_ignore_ascii_case_def)

lemma put_same: "ok e \<Longrightarrow> get e a = Some vs \<Longrightarrow> put e a vs = e"
  by (rule ext) (auto simp: ok_put get_put dest: get_case [of _ _ e])

lemma del_all_absent: "ok e \<Longrightarrow> get (del e a []) a = None"
  by (auto simp: get_del split: option.splits)

lemma del_put: "ok e \<Longrightarrow> get e a = None \<Longrightarrow> del (put e a vs) a [] = e"
  by (rule ext) (auto simp: ok_put ok_del get_put get_del split: option.splits dest: get_case [of _ _ e])

end

section \<open>The entry provides it\<close>

lemma set_push_new [simp]: "set (push_new cur vs) = set cur \<union> set vs"
  by (induction vs arbitrary: cur) auto

lemma distinct_push_new: "distinct cur \<Longrightarrow> distinct (push_new cur vs)"
  by (induction vs arbitrary: cur) auto

lemma push_new_prefix: "prefix cur (push_new cur vs)"
proof (induction vs arbitrary: cur)
  case (Cons v vs)
  then show ?case by (auto intro: append_prefixD)
qed simp

lemma push_new_subset: "set vs \<subseteq> set cur \<Longrightarrow> push_new cur vs = cur"
  by (induction vs arbitrary: cur) auto

lemma push_new_distinct: "distinct (cur @ vs) \<Longrightarrow> push_new cur vs = cur @ vs"
  by (induction vs arbitrary: cur) auto

lemma entry_ok_new [simp]: "entry_ok entry_new"
  by (simp add: entry_ok_def entry_new_def attr_names_def)

lemma entry_ok_insert: "entry_ok e \<Longrightarrow> entry_ok (Entry (bt_insert (to_ascii_lowercase a) vs (attrs e)))"
  by (auto simp: entry_ok_def attr_names_def bt_ok_insert set_bt_keys_insert)

lemma entry_ok_remove: "entry_ok e \<Longrightarrow> entry_ok (Entry (bt_remove k (attrs e)))"
  by (auto simp: entry_ok_def attr_names_def bt_ok_remove set_bt_keys_remove)

lemma entry_ok_ops:
  assumes "entry_ok e"
  shows "entry_ok (entry_set e a vs)" "entry_ok (entry_add_values e a vs)" "entry_ok (entry_delete_values e a vs)"
  using assms
  by (auto simp: entry_set_def entry_add_values_def entry_delete_values_def Let_def entry_ok_insert
      entry_ok_remove split: option.splits)

lemma entry_get_set:
  "entry_get (entry_set e a vs) b = (if eq_ignore_ascii_case b a then Some vs else entry_get e b)"
  by (simp add: entry_get_def entry_set_def bt_get_insert eq_ignore_ascii_case_def)

lemma entry_get_add_values:
  "entry_get (entry_add_values e a vs) b =
     (if eq_ignore_ascii_case b a then Some (push_new (case entry_get e a of None \<Rightarrow> [] | Some xs \<Rightarrow> xs) vs)
      else entry_get e b)"
  by (simp add: entry_get_def entry_add_values_def Let_def bt_get_insert eq_ignore_ascii_case_def)

lemma entry_get_delete_values:
  assumes "entry_ok e"
  shows "entry_get (entry_delete_values e a vs) b =
     (if eq_ignore_ascii_case b a then
        (case entry_get e a of
           None \<Rightarrow> None
         | Some xs \<Rightarrow> if vs = [] \<or> set xs \<subseteq> set vs then None else Some (filter (\<lambda>v. v \<notin> set vs) xs))
      else entry_get e b)"
proof -
  have "bt_ok (attrs e)" using assms by (simp add: entry_ok_def)
  then show ?thesis
    by (auto simp: entry_get_def entry_delete_values_def Let_def bt_get_insert bt_get_remove
        eq_ignore_ascii_case_def filter_empty_conv split: option.splits)
qed

lemma attr_names_dom: "entry_ok e \<Longrightarrow> k \<in> set (attr_names e) \<longleftrightarrow> to_ascii_lowercase k = k \<and> entry_get e k \<noteq> None"
  using bt_get_keys [of "attrs e" k] by (auto simp: entry_ok_def entry_get_def attr_names_def)

lemma entry_ext:
  assumes "entry_ok e" "entry_ok f" "\<And>a. entry_get e a = entry_get f a"
  shows "e = f"
proof -
  have "bt_get (attrs e) k = bt_get (attrs f) k" for k
  proof (cases "to_ascii_lowercase k = k")
    case True
    then show ?thesis using assms(3) [of k] by (simp add: entry_get_def)
  next
    case False
    then have "k \<notin> set (bt_keys (attrs e))" "k \<notin> set (bt_keys (attrs f))"
      using assms(1,2) by (auto simp: entry_ok_def attr_names_def)
    then show ?thesis by (metis bt_get_keys)
  qed
  then have "attrs e = attrs f" using assms(1,2) by (intro bt_get_ext) (auto simp: entry_ok_def)
  then show ?thesis by (rule entry.expand)
qed

lemma entry_get_case: "eq_ignore_ascii_case a b \<Longrightarrow> entry_get e a = entry_get e b"
  by (simp add: entry_get_def eq_ignore_ascii_case_def)

lemma attr_names_image:
  assumes "entry_ok e"
  shows "set (attr_names e) = {to_ascii_lowercase a | a. entry_get e a \<noteq> None}"
proof -
  have "k \<in> set (attr_names e) \<longleftrightarrow> (\<exists>a. k = to_ascii_lowercase a \<and> entry_get e a \<noteq> None)" for k
    unfolding attr_names_dom [OF assms] entry_get_def by (metis to_ascii_lowercase_idem)
  then show ?thesis by blast
qed

interpretation ent: attribute_values entry_new entry_get entry_set entry_add_values entry_delete_values
    attr_names entry_ok
proof unfold_locales
  show "entry_get entry_new a = None" for a by (simp add: entry_get_def entry_new_def)
  show "entry_ok e \<Longrightarrow> entry_ok f \<Longrightarrow> (\<And>a. entry_get e a = entry_get f a) \<Longrightarrow> e = f" for e f
    by (rule entry_ext)
qed (rule entry_ok_new entry_ok_ops entry_get_set entry_get_add_values entry_get_delete_values
  attr_names_image entry_get_case; assumption)+

section \<open>Binary values\<close>

lemma decode_encode_binary_attr:
  "b64_decode B (b64_encode B bs) = Some bs \<Longrightarrow> decode_binary_attr B (encode_binary_attr B bs) = bs"
  by (simp add: decode_binary_attr_def encode_binary_attr_def)

end
