(* ===== verification/Etcd.thy ===== *)
theory Etcd
  imports Prelude
begin

text \<open>
  The key-value service behind the directory. The etcd client is a library, so its calls are an
  argument of every definition that uses them: a record of functions that take the client handle,
  the request and the state of the outside world, and return the answer and the new state. What
  the code relies on is the predicate \<open>etcd_ok\<close>: reads answer from the current contents and change
  nothing, a transaction is applied as a whole exactly when its comparisons hold, and a failed
  transaction may or may not have been applied. An in-memory service shows that it can hold.

  The section on calls is the plumbing of fallible stateful code: a call takes the world and
  returns a result, an error on the left, and the world.
\<close>

type_synonym ('w, 'e, 'a) call = "'w \<Rightarrow> ('e + 'a) \<times> 'w"

section \<open>Calls\<close>

definition ok_call :: "'a \<Rightarrow> ('w, 'e, 'a) call" where
  "ok_call x w = (Inr x, w)"

definition fail_call :: "'e \<Rightarrow> ('w, 'e, 'a) call" where
  "fail_call e w = (Inl e, w)"

definition lift_call :: "'e + 'a \<Rightarrow> ('w, 'e, 'a) call" where
  "lift_call r w = (r, w)"

text \<open>The \<open>?\<close> operator: an error returns at once.\<close>

definition and_then :: "('w, 'e, 'a) call \<Rightarrow> ('a \<Rightarrow> ('w, 'e, 'b) call) \<Rightarrow> ('w, 'e, 'b) call" where
  "and_then m f w = (case m w of (Inl e, w') \<Rightarrow> (Inl e, w') | (Inr x, w') \<Rightarrow> f x w')"

definition map_err :: "('e \<Rightarrow> 'f) \<Rightarrow> ('w, 'e, 'a) call \<Rightarrow> ('w, 'f, 'a) call" where
  "map_err f m w = (case m w of (Inl e, w') \<Rightarrow> (Inl (f e), w') | (Inr x, w') \<Rightarrow> (Inr x, w'))"

lemma call_simps [simp]:
  "ok_call x w = (Inr x, w)" "fail_call e w = (Inl e, w)" "lift_call r w = (r, w)"
  by (simp_all add: ok_call_def fail_call_def lift_call_def)

lemma and_then_eq_Inr:
  "and_then m f w = (Inr y, w'') \<longleftrightarrow> (\<exists>x w'. m w = (Inr x, w') \<and> f x w' = (Inr y, w''))"
  by (auto simp: and_then_def split: prod.splits sum.splits)

lemma and_then_eq_Inl:
  "and_then m f w = (Inl e, w'') \<longleftrightarrow>
     m w = (Inl e, w'') \<or> (\<exists>x w'. m w = (Inr x, w') \<and> f x w' = (Inl e, w''))"
  by (auto simp: and_then_def split: prod.splits sum.splits)

lemma and_then_Inr: "m w = (Inr x, w') \<Longrightarrow> and_then m f w = f x w'"
  by (simp add: and_then_def)

lemma and_then_Inl: "m w = (Inl e, w') \<Longrightarrow> and_then m f w = (Inl e, w')"
  by (simp add: and_then_def)

lemma map_err_eq_Inr [simp]: "map_err f m w = (Inr x, w') \<longleftrightarrow> m w = (Inr x, w')"
  by (auto simp: map_err_def split: prod.splits sum.splits)

lemma map_err_eq_Inl: "map_err f m w = (Inl e, w') \<longleftrightarrow> (\<exists>e'. m w = (Inl e', w') \<and> e = f e')"
  by (auto simp: map_err_def split: prod.splits sum.splits)

section \<open>The client library\<close>

text \<open>
  A gRPC status carries its code; \<open>Utf8_error\<close> is what \<open>value_str\<close> returns on a value that is
  not UTF-8. A transaction compares the existence (version or create revision 0) or the value of
  a key.
\<close>

datatype etcd_error = GRpcStatus nat | Utf8_error | Other_error string

datatype compare = Absent string | Value_equal string string

datatype txn_op = Txn_put string string | Txn_delete string

type_synonym kv = "string \<times> string"

record ('w, 'h) etcd =
  etcd_get :: "'h \<Rightarrow> string \<Rightarrow> bool \<Rightarrow> ('w, etcd_error, kv list) call"
  etcd_put :: "'h \<Rightarrow> string \<Rightarrow> string \<Rightarrow> ('w, etcd_error, unit) call"
  etcd_txn :: "'h \<Rightarrow> compare list \<Rightarrow> txn_op list \<Rightarrow> ('w, etcd_error, bool) call"
  etcd_status :: "'h \<Rightarrow> ('w, etcd_error, unit) call"

definition value_str :: "string \<Rightarrow> etcd_error + string" where
  "value_str v = (if valid_utf8 v then Inr v else Inl Utf8_error)"

definition key_str_or_default :: "string \<Rightarrow> string" where
  "key_str_or_default k = (if valid_utf8 k then k else [])"

section \<open>Retried reads\<close>

definition GRPC_UNAVAILABLE :: nat where
  "GRPC_UNAVAILABLE = 14"

text \<open>\<open>n\<close> attempts that retry on \<open>UNAVAILABLE\<close>, then a last one whose answer stands.\<close>

fun get_retry :: "nat \<Rightarrow> ('w, 'h) etcd \<Rightarrow> 'h \<Rightarrow> string \<Rightarrow> bool \<Rightarrow> ('w, etcd_error, kv list) call" where
  "get_retry 0 E h k p w = etcd_get E h k p w"
| "get_retry (Suc n) E h k p w =
     (case etcd_get E h k p w of
        (Inl (GRpcStatus c), w') \<Rightarrow>
          if c = GRPC_UNAVAILABLE then get_retry n E h k p w' else (Inl (GRpcStatus c), w')
      | other \<Rightarrow> other)"

definition store_get :: "('w, 'h) etcd \<Rightarrow> 'h \<Rightarrow> string \<Rightarrow> bool \<Rightarrow> ('w, etcd_error, kv list) call" where
  "store_get E h k p = get_retry 5 E h k p"

section \<open>What the code relies on\<close>

type_synonym kvs = "string \<rightharpoonup> string"

fun compare_holds :: "kvs \<Rightarrow> compare \<Rightarrow> bool" where
  "compare_holds m (Absent k) \<longleftrightarrow> m k = None"
| "compare_holds m (Value_equal k v) \<longleftrightarrow> m k = Some v"

fun apply_op :: "txn_op \<Rightarrow> kvs \<Rightarrow> kvs" where
  "apply_op (Txn_put k v) m = m(k \<mapsto> v)"
| "apply_op (Txn_delete k) m = m(k := None)"

definition apply_ops :: "txn_op list \<Rightarrow> kvs \<Rightarrow> kvs" where
  "apply_ops ops m = fold apply_op ops m"

text \<open>
  \<open>cont w h\<close> is the contents of the cluster the handle is connected to. A change through one
  handle is seen by the handles of the same cluster and by no other.
\<close>

definition changed :: "('w \<Rightarrow> 'h \<Rightarrow> kvs) \<Rightarrow> 'h \<Rightarrow> (kvs \<Rightarrow> kvs) \<Rightarrow> 'w \<Rightarrow> 'w \<Rightarrow> bool" where
  "changed cont h f w w' \<longleftrightarrow>
     cont w' h = f (cont w h) \<and>
     (\<forall>h'. cont w' h' = cont w h' \<or> cont w h' = cont w h \<and> cont w' h' = cont w' h)"

definition get_answer :: "kvs \<Rightarrow> string \<Rightarrow> bool \<Rightarrow> kv list \<Rightarrow> bool" where
  "get_answer m k p rows \<longleftrightarrow>
     sorted_wrt (<) (map fst rows) \<and>
     set rows = {(k', v). m k' = Some v \<and> (if p then prefix k k' else k' = k)}"

definition etcd_ok :: "('w, 'h) etcd \<Rightarrow> ('w \<Rightarrow> 'h \<Rightarrow> kvs) \<Rightarrow> bool" where
  "etcd_ok E cont \<longleftrightarrow>
     (\<forall>h k p w r w'. etcd_get E h k p w = (r, w') \<longrightarrow>
        cont w' = cont w \<and> (\<forall>rows. r = Inr rows \<longrightarrow> get_answer (cont w h) k p rows)) \<and>
     (\<forall>h k v w r w'. etcd_put E h k v w = (r, w') \<longrightarrow>
        changed cont h (\<lambda>m. m(k \<mapsto> v)) w w' \<or> (\<exists>e. r = Inl e) \<and> cont w' = cont w) \<and>
     (\<forall>h cs ops w r w'. etcd_txn E h cs ops w = (r, w') \<longrightarrow>
        (case r of
           Inr True \<Rightarrow> list_all (compare_holds (cont w h)) cs \<and> changed cont h (apply_ops ops) w w'
         | Inr False \<Rightarrow> \<not> list_all (compare_holds (cont w h)) cs \<and> cont w' = cont w
         | Inl _ \<Rightarrow> cont w' = cont w \<or>
             list_all (compare_holds (cont w h)) cs \<and> changed cont h (apply_ops ops) w w'))"

lemma etcd_ok_get:
  assumes "etcd_ok E cont" "etcd_get E h k p w = (r, w')"
  shows "cont w' = cont w" "r = Inr rows \<Longrightarrow> get_answer (cont w h) k p rows"
  using assms unfolding etcd_ok_def by blast+

lemma etcd_ok_txn_True:
  assumes "etcd_ok E cont" "etcd_txn E h cs ops w = (Inr True, w')"
  shows "list_all (compare_holds (cont w h)) cs" "changed cont h (apply_ops ops) w w'"
proof -
  have "case Inr True :: etcd_error + bool of
           Inr True \<Rightarrow> list_all (compare_holds (cont w h)) cs \<and> changed cont h (apply_ops ops) w w'
         | Inr False \<Rightarrow> \<not> list_all (compare_holds (cont w h)) cs \<and> cont w' = cont w
         | Inl _ \<Rightarrow> cont w' = cont w \<or>
             list_all (compare_holds (cont w h)) cs \<and> changed cont h (apply_ops ops) w w'"
    using assms unfolding etcd_ok_def by blast
  then show "list_all (compare_holds (cont w h)) cs" "changed cont h (apply_ops ops) w w'" by simp_all
qed

lemma etcd_ok_txn_False:
  assumes "etcd_ok E cont" "etcd_txn E h cs ops w = (Inr False, w')"
  shows "\<not> list_all (compare_holds (cont w h)) cs" "cont w' = cont w"
proof -
  have "case Inr False :: etcd_error + bool of
           Inr True \<Rightarrow> list_all (compare_holds (cont w h)) cs \<and> changed cont h (apply_ops ops) w w'
         | Inr False \<Rightarrow> \<not> list_all (compare_holds (cont w h)) cs \<and> cont w' = cont w
         | Inl _ \<Rightarrow> cont w' = cont w \<or>
             list_all (compare_holds (cont w h)) cs \<and> changed cont h (apply_ops ops) w w'"
    using assms unfolding etcd_ok_def by blast
  then show "\<not> list_all (compare_holds (cont w h)) cs" "cont w' = cont w" by simp_all
qed

lemma etcd_ok_txn_Inl:
  assumes "etcd_ok E cont" "etcd_txn E h cs ops w = (Inl e, w')"
  shows "cont w' = cont w \<or> list_all (compare_holds (cont w h)) cs \<and> changed cont h (apply_ops ops) w w'"
proof -
  have "case Inl e :: etcd_error + bool of
           Inr True \<Rightarrow> list_all (compare_holds (cont w h)) cs \<and> changed cont h (apply_ops ops) w w'
         | Inr False \<Rightarrow> \<not> list_all (compare_holds (cont w h)) cs \<and> cont w' = cont w
         | Inl _ \<Rightarrow> cont w' = cont w \<or>
             list_all (compare_holds (cont w h)) cs \<and> changed cont h (apply_ops ops) w w'"
    using assms unfolding etcd_ok_def by blast
  then show ?thesis by simp
qed

lemma etcd_ok_txn_unconditional:
  assumes "etcd_ok E cont" "etcd_txn E h [] ops w = (Inr b, w')"
  shows "changed cont h (apply_ops ops) w w'"
  using assms etcd_ok_txn_True etcd_ok_txn_False by (cases b) fastforce+

lemma get_retry_ok:
  assumes "etcd_ok E cont" "get_retry n E h k p w = (r, w')"
  shows "cont w' = cont w \<and> (\<forall>rows. r = Inr rows \<longrightarrow> get_answer (cont w h) k p rows)"
  using assms(2)
proof (induction n arbitrary: w)
  case 0
  then show ?case using assms(1) etcd_ok_get by fastforce
next
  case (Suc n)
  obtain r0 w0 where g: "etcd_get E h k p w = (r0, w0)" by fastforce
  have c: "cont w0 = cont w" using etcd_ok_get(1) [OF assms(1) g] .
  from Suc.prems g consider "get_retry n E h k p w0 = (r, w')" | "r0 = r" "w0 = w'"
    by (auto split: sum.splits etcd_error.splits if_splits)
  then show ?case
  proof cases
    case 1
    then show ?thesis using Suc.IH [of w0] c by simp
  next
    case 2
    then show ?thesis using etcd_ok_get [OF assms(1) g] c by blast
  qed
qed

lemma store_get_ok:
  assumes "etcd_ok E cont" "store_get E h k p w = (r, w')"
  shows "cont w' = cont w" "r = Inr rows \<Longrightarrow> get_answer (cont w h) k p rows"
  using get_retry_ok [OF assms [unfolded store_get_def]] by blast+

text \<open>A point read gives the value of the key, as a list of at most one row.\<close>

lemma get_answer_point:
  assumes "get_answer m k False rows"
  shows "rows = (case m k of None \<Rightarrow> [] | Some v \<Rightarrow> [(k, v)])"
proof -
  have s: "set rows = {(k', v). m k' = Some v \<and> k' = k}" and
    "distinct rows"
    using assms by (auto simp: get_answer_def strict_sorted_iff distinct_map)
  show ?thesis
  proof (cases "m k")
    case None
    then have "set rows = {}" using s by auto
    then show ?thesis using None by simp
  next
    case (Some v)
    then have "set rows = {(k, v)}" using s by auto
    then have "rows = [(k, v)]"
      using \<open>distinct rows\<close> by (cases rows; cases "tl rows") auto
    then show ?thesis using Some by simp
  qed
qed

section \<open>Applying operations\<close>

lemma apply_ops_Nil [simp]: "apply_ops [] m = m"
  by (simp add: apply_ops_def)

lemma apply_ops_Cons [simp]: "apply_ops (x # ops) m = apply_ops ops (apply_op x m)"
  by (simp add: apply_ops_def)

lemma apply_ops_append: "apply_ops (xs @ ys) m = apply_ops ys (apply_ops xs m)"
  by (simp add: apply_ops_def)

lemma apply_puts: "apply_ops (map (\<lambda>k. Txn_put k v) ks) m j = (if j \<in> set ks then Some v else m j)"
  by (induction ks arbitrary: m) auto

lemma apply_deletes: "apply_ops (map Txn_delete ks) m j = (if j \<in> set ks then None else m j)"
  by (induction ks arbitrary: m) auto

end
