(* ===== verification/Index.thy ===== *)
theory Index
  imports Key Entry_Model Etcd
begin

text \<open>
  Entries and their secondary indexes in the key-value service (crates/store/src/entry.rs and
  index.rs, and the error type of lib.rs). The JSON codec of an entry is a library and an
  argument. The abstract directory is a partial function from names to entries; the relation
  \<open>represents\<close> says which contents of a cluster stand for it, tree and index keys alike, and the
  lemmas show that every operation implements its abstract counterpart, also when the service
  reports an error.
\<close>

datatype store_error =
    Etcd_err etcd_error
  | TlsFile string string
  | EntryDecode string
  | Partition_err partition_error
  | NoPartitionFor string
  | NotConnected string
  | RidPoolCorrupt string string

record json =
  json_encode :: "entry \<Rightarrow> string"
  json_decode :: "string \<Rightarrow> string + entry"

definition entry_encode :: "json \<Rightarrow> entry \<Rightarrow> string" where
  "entry_encode J e = json_encode J e"

definition entry_decode :: "json \<Rightarrow> string \<Rightarrow> store_error + entry" where
  "entry_decode J s = (case json_decode J s of Inl m \<Rightarrow> Inl (EntryDecode m) | Inr e \<Rightarrow> Inr e)"

section \<open>Raw entries\<close>

definition dn_from_tree_key :: "partition_id \<Rightarrow> string \<Rightarrow> store_error + dn" where
  "dn_from_tree_key pid raw_key =
     (case strip_prefix raw_key (tree_root pid) of
        None \<Rightarrow> Inl (Partition_err (InvalidDn raw_key Not_under_tree_root))
      | Some suff \<Rightarrow>
          (case dn_parse (join '','' (rev (split_char (CHR ''/'') suff))) of
             Inl e \<Rightarrow> Inl (Partition_err e)
           | Inr d \<Rightarrow> Inr d))"

definition put_entry :: "('w, 'h) etcd \<Rightarrow> 'h \<Rightarrow> partition_id \<Rightarrow> dn \<Rightarrow> string \<Rightarrow> ('w, store_error, unit) call" where
  "put_entry E h pid d v = map_err Etcd_err (etcd_put E h (entry_key pid d) v)"

definition get_entry :: "('w, 'h) etcd \<Rightarrow> 'h \<Rightarrow> partition_id \<Rightarrow> dn \<Rightarrow> ('w, store_error, string option) call" where
  "get_entry E h pid d =
     and_then (map_err Etcd_err (store_get E h (entry_key pid d) False)) (\<lambda>rows.
       ok_call (case rows of [] \<Rightarrow> None | (k, v) # _ \<Rightarrow> Some v))"

definition scan_subtree :: "('w, 'h) etcd \<Rightarrow> 'h \<Rightarrow> partition_id \<Rightarrow> dn \<Rightarrow> ('w, store_error, kv list) call" where
  "scan_subtree E h pid d =
     and_then (map_err Etcd_err (store_get E h (subtree_prefix pid d) True)) (\<lambda>rows.
       let out = map (\<lambda>(k, v). (key_str_or_default k, v)) rows in
       and_then (get_entry E h pid d) (\<lambda>base.
         ok_call (case base of Some v \<Rightarrow> (entry_key pid d, v) # out | None \<Rightarrow> out)))"

section \<open>Watching\<close>

text \<open>
  A watch stream is the list of its remaining messages, each an error or the events of one
  response; an event may carry no key-value pair. The stream after the call is returned.
\<close>

datatype event_type = Put | Delete

record subtree_event =
  ev_key :: string
  ev_kind :: event_type
  ev_value :: string

type_synonym watch_event = "event_type \<times> kv option"
type_synonym watch_stream = "(etcd_error + watch_event list) list"

fun next_subtree_event :: "watch_stream \<Rightarrow> (store_error + subtree_event option) \<times> watch_stream" where
  "next_subtree_event [] = (Inr None, [])"
| "next_subtree_event (Inl e # ms) = (Inl (Etcd_err e), ms)"
| "next_subtree_event (Inr evs # ms) =
     (case evs of
        (knd, Some (k, v)) # _ \<Rightarrow>
          (Inr (Some \<lparr>ev_key = key_str_or_default k, ev_kind = knd, ev_value = v\<rparr>), ms)
      | _ \<Rightarrow> next_subtree_event ms)"

datatype entry_change = Change_put string entry | Change_delete string

definition next_entry_change :: "json \<Rightarrow> watch_stream \<Rightarrow> (store_error + entry_change option) \<times> watch_stream" where
  "next_entry_change J ms =
     (case next_subtree_event ms of
        (Inl e, ms') \<Rightarrow> (Inl e, ms')
      | (Inr None, ms') \<Rightarrow> (Inr None, ms')
      | (Inr (Some ev), ms') \<Rightarrow>
          (case ev_kind ev of
             Delete \<Rightarrow> (Inr (Some (Change_delete (ev_key ev))), ms')
           | Put \<Rightarrow>
               (case entry_decode J (ev_value ev) of
                  Inl e \<Rightarrow> (Inl e, ms')
                | Inr x \<Rightarrow> (Inr (Some (Change_put (ev_key ev) x)), ms'))))"

section \<open>Indexed entries\<close>

datatype index_spec = IndexSpec (spec_attrs: "string list")

definition index_spec_new :: "string list \<Rightarrow> index_spec" where
  "index_spec_new names = IndexSpec (map to_ascii_lowercase names)"

definition index_keys_for :: "partition_id \<Rightarrow> dn \<Rightarrow> entry \<Rightarrow> index_spec \<Rightarrow> string list" where
  "index_keys_for pid d e spec =
     concat (map (\<lambda>a. case entry_get e a of
                        Some vs \<Rightarrow> map (\<lambda>v. index_key pid a v d) vs
                      | None \<Rightarrow> []) (spec_attrs spec))"

definition read_entry ::
  "('w, 'h) etcd \<Rightarrow> json \<Rightarrow> 'h \<Rightarrow> partition_id \<Rightarrow> dn \<Rightarrow> ('w, store_error, entry option) call" where
  "read_entry E J h pid d =
     and_then (map_err Etcd_err (store_get E h (entry_key pid d) False)) (\<lambda>rows.
       case rows of
         [] \<Rightarrow> ok_call None
       | (k, v) # _ \<Rightarrow> lift_call (map_sum id Some (entry_decode J v)))"

definition put_ops :: "json \<Rightarrow> partition_id \<Rightarrow> dn \<Rightarrow> entry \<Rightarrow> index_spec \<Rightarrow> entry option \<Rightarrow> txn_op list" where
  "put_ops J pid d e spec old =
     (let new_keys = index_keys_for pid d e spec;
          old_keys = (case old of None \<Rightarrow> [] | Some o' \<Rightarrow> index_keys_for pid d o' spec) in
      map Txn_delete (filter (\<lambda>k. k \<notin> set new_keys) old_keys) @
      [Txn_put (entry_key pid d) (entry_encode J e)] @
      map (\<lambda>k. Txn_put k (dn_string d)) new_keys)"

definition put_entry_indexed ::
  "('w, 'h) etcd \<Rightarrow> json \<Rightarrow> 'h \<Rightarrow> partition_id \<Rightarrow> dn \<Rightarrow> entry \<Rightarrow> index_spec \<Rightarrow> ('w, store_error, unit) call" where
  "put_entry_indexed E J h pid d e spec =
     and_then (read_entry E J h pid d) (\<lambda>old.
     and_then (map_err Etcd_err (etcd_txn E h [] (put_ops J pid d e spec old))) (\<lambda>_.
     ok_call ()))"

definition create_entry_indexed ::
  "('w, 'h) etcd \<Rightarrow> json \<Rightarrow> 'h \<Rightarrow> partition_id \<Rightarrow> dn \<Rightarrow> entry \<Rightarrow> index_spec \<Rightarrow> ('w, store_error, bool) call" where
  "create_entry_indexed E J h pid d e spec =
     map_err Etcd_err
       (etcd_txn E h [Absent (entry_key pid d)]
          (Txn_put (entry_key pid d) (entry_encode J e) #
           map (\<lambda>k. Txn_put k (dn_string d)) (index_keys_for pid d e spec)))"

definition delete_entry_indexed ::
  "('w, 'h) etcd \<Rightarrow> json \<Rightarrow> 'h \<Rightarrow> partition_id \<Rightarrow> dn \<Rightarrow> index_spec \<Rightarrow> ('w, store_error, unit) call" where
  "delete_entry_indexed E J h pid d spec =
     and_then (read_entry E J h pid d) (\<lambda>old.
       case old of
         None \<Rightarrow> ok_call ()
       | Some o' \<Rightarrow>
           and_then (map_err Etcd_err (etcd_txn E h []
               (Txn_delete (entry_key pid d) # map Txn_delete (index_keys_for pid d o' spec)))) (\<lambda>_.
           ok_call ()))"

definition parse_index_row :: "kv \<Rightarrow> store_error + dn" where
  "parse_index_row row =
     (case value_str (snd row) of
        Inl e \<Rightarrow> Inl (Etcd_err e)
      | Inr s \<Rightarrow> (case dn_parse s of Inl e \<Rightarrow> Inl (Partition_err e) | Inr d \<Rightarrow> Inr d))"

definition lookup_by_index ::
  "('w, 'h) etcd \<Rightarrow> 'h \<Rightarrow> partition_id \<Rightarrow> string \<Rightarrow> string \<Rightarrow> ('w, store_error, dn list) call" where
  "lookup_by_index E h pid a v =
     and_then (map_err Etcd_err (store_get E h (index_prefix pid a v) True)) (\<lambda>rows.
       lift_call (collect_result (map parse_index_row rows)))"

section \<open>The abstract directory\<close>

type_synonym directory = "dn \<rightharpoonup> entry"

text \<open>The JSON codec gives back what it wrote.\<close>

definition json_ok :: "json \<Rightarrow> bool" where
  "json_ok J \<longleftrightarrow> (\<forall>e. entry_ok e \<longrightarrow> json_decode J (json_encode J e) = Inr e)"

definition entry_vals :: "entry \<Rightarrow> string \<Rightarrow> string list" where
  "entry_vals e a = (case entry_get e a of None \<Rightarrow> [] | Some vs \<Rightarrow> vs)"

text \<open>
  Names that survive the way through keys and index values: printable names whose folded values
  have no character that is special in a name or a key. Strings of the code are UTF-8.
\<close>

definition tree_clean :: "dn \<Rightarrow> bool" where
  "tree_clean d \<longleftrightarrow> dn_ok d \<and>
     (\<forall>r \<in> set (rdns d). \<forall>a \<in> set (avas r).
        CHR ''/'' \<notin> set (attr a) \<and> CHR ''/'' \<notin> set (norm_value a) \<and> (\<forall>c \<in> set (norm_value a). \<not> is_special c))"

definition dn_utf8 :: "partition_id \<Rightarrow> dn \<Rightarrow> bool" where
  "dn_utf8 pid d \<longleftrightarrow> valid_utf8 (dn_string d) \<and> valid_utf8 (entry_key pid d)"

definition idx_root :: "partition_id \<Rightarrow> string" where
  "idx_root pid = ''/iron/'' @ pid_str pid @ ''/idx/''"

definition tree_rows :: "json \<Rightarrow> partition_id \<Rightarrow> directory \<Rightarrow> kv set" where
  "tree_rows J pid S = {(entry_key pid d, entry_encode J x) | d x. S d = Some x}"

definition index_rows :: "partition_id \<Rightarrow> index_spec \<Rightarrow> directory \<Rightarrow> kv set" where
  "index_rows pid spec S =
     {(index_key pid a v d, dn_string d) | a v d x.
        S d = Some x \<and> a \<in> set (spec_attrs spec) \<and> v \<in> set (entry_vals x a)}"

definition directory_ok :: "partition_id \<Rightarrow> directory \<Rightarrow> bool" where
  "directory_ok pid S \<longleftrightarrow>
     (\<forall>d \<in> dom S. tree_clean d \<and> dn_utf8 pid d \<and> entry_ok (the (S d))) \<and>
     (\<forall>d \<in> dom S. \<forall>e \<in> dom S. dn_eq d e \<longrightarrow> d = e)"

definition represents :: "json \<Rightarrow> partition_id \<Rightarrow> index_spec \<Rightarrow> kvs \<Rightarrow> directory \<Rightarrow> bool" where
  "represents J pid spec m S \<longleftrightarrow>
     directory_ok pid S \<and>
     (\<forall>k v. prefix (tree_root pid) k \<longrightarrow> (m k = Some v \<longleftrightarrow> (k, v) \<in> tree_rows J pid S)) \<and>
     (\<forall>k v. prefix (idx_root pid) k \<longrightarrow> (m k = Some v \<longleftrightarrow> (k, v) \<in> index_rows pid spec S))"


section \<open>Names through keys\<close>

lemma tree_clean_key_clean: "tree_clean d \<Longrightarrow> key_clean d"
  unfolding tree_clean_def key_clean_def ava_key_clean_def dn_ok_def rdn_ok_def
  by (fastforce simp: ava_ok_def attr_ok_def is_special_def)

lemma tree_clean_dn_ok: "tree_clean d \<Longrightarrow> dn_ok d"
  by (simp add: tree_clean_def)

lemma dn_string_inj: "dn_ok d \<Longrightarrow> dn_ok e \<Longrightarrow> dn_string d = dn_string e \<longleftrightarrow> d = e"
  using dn_parse_string by (metis sum.inject(2))

text \<open>The name a tree key is read back as: the folded values in place of the displayed ones.\<close>

definition dn_folded :: "dn \<Rightarrow> dn" where
  "dn_folded d = Dn (map (\<lambda>r. Rdn (map (\<lambda>a. a\<lparr>val := norm_value a\<rparr>) (avas r))) (rdns d))"

lemma dn_folded_eq: "dn_eq (dn_folded d) d"
  by (simp add: dn_eq_norm dn_norm_def dn_folded_def rdn_norm_def comp_def ava_key_def)

lemma escape_chars_plain:
  "\<forall>c \<in> set v. \<not> is_special c \<Longrightarrow> (i = 0 \<longrightarrow> v = [] \<or> hd v \<noteq> CHR '' '') \<Longrightarrow> v = [] \<or> last v \<noteq> CHR '' '' \<Longrightarrow>
     n = i + length v \<Longrightarrow> escape_chars n i v = v"
proof (induction v arbitrary: i)
  case (Cons c v)
  then show ?case by (cases v) auto
qed simp

lemma ws_len_three: "NO_MATCH [] r \<Longrightarrow> ws_len (a # b # c # r) = ws_len [a, b, c]"
  by (simp add: ws_len.simps(2))

lemma ws_len_prefix:
  assumes "ws_len (t @ u) = 0"
  shows "ws_len t = 0"
proof -
  have "\<not> is_ascii_space a" if "t = a # t'" for a t'
    using that assms by (auto simp: ws_len.simps(2))
  then consider "t = []" | a where "t = [a]" "\<not> is_ascii_space a" | a b where "t = [a, b]" "\<not> is_ascii_space a" |
    a b c r where "t = a # b # c # r"
    by (metis list.exhaust)
  then show ?thesis
  proof cases
    case (3 a b)
    then show ?thesis using assms by (cases "a = CHR 0xC2") (simp_all add: ws_len.simps(2))
  next
    case (4 a b c r)
    then show ?thesis using assms by (simp add: ws_len_three)
  qed (simp_all add: ws_len.simps(2))
qed

lemma ws_len_trim_start: "ws_len (trim_start s) = 0"
  by (induction s rule: trim_start.induct) (subst trim_start.simps, simp)

lemma trim_end_prefix: "prefix (trim_end s) s"
proof (induction s rule: trim_end.induct)
  case (1 s)
  show ?case
    using prefix_order.trans [OF "1.IH" take_is_prefix] by (subst trim_end.simps) simp
qed

lemma ws_len_trim: "ws_len (trim s) = 0"
  using trim_end_prefix ws_len_trim_start ws_len_prefix unfolding trim_def prefix_def by metis

lemma ws_len_end_trim: "ws_len_end (trim s) = 0"
proof -
  have "ws_len_end (trim_end s) = 0" for s
    by (induction s rule: trim_end.induct) (subst trim_end.simps, simp)
  then show ?thesis by (simp add: trim_def)
qed

lemma folded_value:
  assumes "ava_ok a" "\<forall>c \<in> set (norm_value a). \<not> is_special c"
  shows "ws_len (norm_value a) = 0" "ws_len_end (norm_value a) = 0"
    "escape_value (norm_value a) = norm_value a" "to_ascii_lowercase (trim (norm_value a)) = norm_value a"
proof -
  have n: "norm_value a = to_ascii_lowercase (trim (val a))" using assms(1) by (simp add: ava_ok_def)
  show w: "ws_len (norm_value a) = 0" "ws_len_end (norm_value a) = 0"
    unfolding n by (simp_all add: ws_len_trim ws_len_end_trim)
  then show "to_ascii_lowercase (trim (norm_value a)) = norm_value a"
    by (simp add: trim_id) (simp add: n)
  have "norm_value a = [] \<or> hd (norm_value a) \<noteq> CHR '' ''"
    using w(1) by (cases "norm_value a") (auto simp: ws_len.simps(2) is_ascii_space_def)
  moreover have "norm_value a = [] \<or> last (norm_value a) \<noteq> CHR '' ''"
    using w(2) by (auto simp: ws_len_end_def ws_len.simps(2) is_ascii_space_def split: if_splits)
  ultimately show "escape_value (norm_value a) = norm_value a"
    unfolding escape_value_def using assms(2) by (intro escape_chars_plain) auto
qed

lemma tree_clean_avas:
  "tree_clean d \<Longrightarrow> r \<in> set (rdns d) \<Longrightarrow> a \<in> set (avas r) \<Longrightarrow> ava_ok a \<and> (\<forall>c \<in> set (norm_value a). \<not> is_special c)"
  by (auto simp: tree_clean_def dn_ok_def rdn_ok_def)

lemma dn_string_folded:
  assumes "tree_clean d"
  shows "dn_string (dn_folded d) = join '','' (map normalized_string (rdns d))"
proof -
  have "rdn_string (Rdn (map (\<lambda>a. a\<lparr>val := norm_value a\<rparr>) (avas r))) = normalized_string r"
    if "r \<in> set (rdns d)" for r
    using tree_clean_avas [OF assms that] folded_value(3)
    unfolding rdn_string_def normalized_string_def rdn.sel map_map
    by (intro arg_cong [where f = "join ''+''"] map_cong) (auto simp: ava_string_def)
  then show ?thesis by (simp add: dn_string_def dn_folded_def comp_def cong: map_cong)
qed

lemma dn_ok_folded:
  assumes "tree_clean d"
  shows "dn_ok (dn_folded d)"
proof -
  have "ava_ok (a\<lparr>val := norm_value a\<rparr>)" if "r \<in> set (rdns d)" "a \<in> set (avas r)" for r a
    using tree_clean_avas [OF assms that] folded_value [of a] by (auto simp: ava_ok_def value_ok_def)
  moreover have "avas r \<noteq> [] \<and> sorted (map ava_key (avas r))" if "r \<in> set (rdns d)" for r
    using assms that by (auto simp: tree_clean_def dn_ok_def rdn_ok_def)
  ultimately show ?thesis
    by (auto simp: dn_ok_def dn_folded_def rdn_ok_def comp_def ava_key_def [abs_def])
qed

lemma dn_from_entry_key:
  assumes "tree_clean d"
  shows "dn_from_tree_key pid (entry_key pid d) = Inr (dn_folded d)"
proof -
  have "join '','' (rev (split_char (CHR ''/'') (join ''/'' (reversed_components d)))) = dn_string (dn_folded d)"
  proof (cases "rdns d = []")
    case True
    then show ?thesis by (simp add: reversed_components_def dn_folded_def dn_string_def join_Cons)
  next
    case False
    then show ?thesis
      using reversed_components_split [OF tree_clean_key_clean [OF assms]] dn_string_folded [OF assms]
      by (simp add: reversed_components_def rev_map)
  qed
  moreover have "strip_prefix (entry_key pid d) (tree_root pid) = Some (join ''/'' (reversed_components d))"
    by (simp add: entry_key_def strip_prefix_eq_Some)
  ultimately show ?thesis
    using dn_parse_string [OF dn_ok_folded [OF assms]] by (simp add: dn_from_tree_key_def)
qed

section \<open>The relation\<close>

text \<open>No entry is stored under the same name in another spelling.\<close>

definition same_spelling :: "directory \<Rightarrow> dn \<Rightarrow> bool" where
  "same_spelling S d \<longleftrightarrow> (\<forall>d' \<in> dom S. dn_eq d' d \<longrightarrow> d' = d)"

lemma tree_root_not_idx:
  "\<not> prefix (tree_root pid) (index_key pid a v d)" "\<not> prefix (idx_root pid) (entry_key pid d)"
  "prefix (tree_root pid) (entry_key pid d)" "prefix (idx_root pid) (index_key pid a v d)"
  by (simp_all add: tree_root_def idx_root_def index_key_def entry_key_def)

lemma tree_not_idx: "prefix (tree_root pid) k \<Longrightarrow> \<not> prefix (idx_root pid) k"
  by (auto simp: tree_root_def idx_root_def prefix_def)

lemma index_keys_for_iff:
  "k \<in> set (index_keys_for pid d x spec) \<longleftrightarrow>
     (\<exists>a v. a \<in> set (spec_attrs spec) \<and> v \<in> set (entry_vals x a) \<and> k = index_key pid a v d)"
  by (auto simp: index_keys_for_def entry_vals_def split: option.splits)

lemma represents_cleanD:
  assumes "represents J pid spec m S" "S d = Some x"
  shows "tree_clean d" "dn_utf8 pid d" "entry_ok x"
proof -
  have "d \<in> dom S" using assms(2) by blast
  then have "tree_clean d \<and> dn_utf8 pid d \<and> entry_ok (the (S d))"
    using assms(1) unfolding represents_def directory_ok_def by blast
  then show "tree_clean d" "dn_utf8 pid d" "entry_ok x" using assms(2) by simp_all
qed

lemma represents_value:
  assumes "represents J pid spec m S" "tree_clean d"
  shows "m (entry_key pid d) = Some v \<longleftrightarrow> (\<exists>d' x. S d' = Some x \<and> dn_eq d' d \<and> v = entry_encode J x)"
proof -
  have "m (entry_key pid d) = Some v \<longleftrightarrow>
      (\<exists>d' x. S d' = Some x \<and> entry_key pid d = entry_key pid d' \<and> v = entry_encode J x)"
    using assms(1) tree_root_not_idx(3) by (auto simp: represents_def tree_rows_def)
  also have "\<dots> \<longleftrightarrow> (\<exists>d' x. S d' = Some x \<and> dn_eq d' d \<and> v = entry_encode J x)"
    using assms represents_cleanD(1) [OF assms(1)] tree_clean_key_clean
    by (metis entry_key_eq_iff)
  finally show ?thesis .
qed

lemma represents_at:
  assumes "represents J pid spec m S" "tree_clean d" "same_spelling S d"
  shows "m (entry_key pid d) = map_option (entry_encode J) (S d)"
proof -
  have "m (entry_key pid d) = Some v \<longleftrightarrow> map_option (entry_encode J) (S d) = Some v" for v
    unfolding represents_value [OF assms(1,2)]
    using assms(3) by (auto simp: same_spelling_def) (metis dn_eq_refl domI)+
  then show ?thesis by (metis option.exhaust)
qed

lemma represents_update:
  assumes rep: "represents J pid spec m S"
    and d: "tree_clean d" "dn_utf8 pid d" "same_spelling S d"
    and new: "\<forall>x. new = Some x \<longrightarrow> entry_ok x"
    and nk: "nk = (case new of None \<Rightarrow> [] | Some x \<Rightarrow> index_keys_for pid d x spec)"
    and ok: "ok' = (case S d of None \<Rightarrow> [] | Some x \<Rightarrow> index_keys_for pid d x spec)"
    and m': "\<And>k. m' k = (if k \<in> set nk then Some (dn_string d)
                           else if k = entry_key pid d then map_option (entry_encode J) new
                           else if k \<in> set ok' then None else m k)"
  shows "represents J pid spec m' (S(d := new))"
proof -
  have nk_iff: "k \<in> set nk \<longleftrightarrow> (\<exists>x a v. new = Some x \<and> a \<in> set (spec_attrs spec) \<and> v \<in> set (entry_vals x a) \<and>
      k = index_key pid a v d)" for k
    using nk by (auto simp: index_keys_for_iff split: option.splits)
  have ok_iff: "k \<in> set ok' \<longleftrightarrow> (\<exists>x a v. S d = Some x \<and> a \<in> set (spec_attrs spec) \<and> v \<in> set (entry_vals x a) \<and>
      k = index_key pid a v d)" for k
    using ok by (auto simp: index_keys_for_iff split: option.splits)
  have other: "entry_key pid d' \<noteq> entry_key pid d \<and> index_key pid a v d' \<noteq> index_key pid a' v' d"
    if "S d' = Some x" "d' \<noteq> d" for d' x a v a' v'
    using that d represents_cleanD(1) [OF rep that(1)]
    by (auto simp: entry_key_eq_iff tree_clean_key_clean index_key_eq_iff dn_string_inj tree_clean_dn_ok
        same_spelling_def)
  have "directory_ok pid (S(d := new))"
    using rep d new unfolding represents_def directory_ok_def same_spelling_def
    by (auto simp: dn_eq_norm split: if_splits)
  moreover have "m' k = Some v \<longleftrightarrow> (k, v) \<in> tree_rows J pid (S(d := new))" if k: "prefix (tree_root pid) k" for k v
  proof -
    have "k \<notin> set nk" "k \<notin> set ok'"
      using k by (auto simp: nk_iff ok_iff tree_root_not_idx)
    then have "m' k = Some v \<longleftrightarrow>
        k = entry_key pid d \<and> (\<exists>x. new = Some x \<and> v = entry_encode J x) \<or> k \<noteq> entry_key pid d \<and> m k = Some v"
      by (auto simp: m')
    also have "m k = Some v \<longleftrightarrow> (k, v) \<in> tree_rows J pid S" using rep k by (auto simp: represents_def)
    finally show ?thesis using other by (auto simp: tree_rows_def split: if_splits) metis+
  qed
  moreover have "m' k = Some v \<longleftrightarrow> (k, v) \<in> index_rows pid spec (S(d := new))" if k: "prefix (idx_root pid) k" for k v
  proof -
    have "k \<noteq> entry_key pid d" using k tree_root_not_idx(2) by blast
    then have "m' k = Some v \<longleftrightarrow> k \<in> set nk \<and> v = dn_string d \<or> k \<notin> set nk \<and> k \<notin> set ok' \<and> m k = Some v"
      by (auto simp: m')
    also have "m k = Some v \<longleftrightarrow> (k, v) \<in> index_rows pid spec S" using rep k by (auto simp: represents_def)
    finally have *: "m' k = Some v \<longleftrightarrow>
        k \<in> set nk \<and> v = dn_string d \<or> k \<notin> set nk \<and> k \<notin> set ok' \<and> (k, v) \<in> index_rows pid spec S" .
    show ?thesis
    proof
      assume "m' k = Some v"
      then show "(k, v) \<in> index_rows pid spec (S(d := new))"
        unfolding * nk_iff ok_iff index_rows_def by fastforce
    next
      assume "(k, v) \<in> index_rows pid spec (S(d := new))"
      then obtain a u d' x where x: "k = index_key pid a u d'" "v = dn_string d'" "(S(d := new)) d' = Some x"
        "a \<in> set (spec_attrs spec)" "u \<in> set (entry_vals x a)"
        by (auto simp: index_rows_def)
      show "m' k = Some v"
      proof (cases "d' = d")
        case True
        then show ?thesis unfolding * nk_iff using x by auto
      next
        case False
        then have "S d' = Some x" using x by simp
        then have "k \<notin> set nk" "k \<notin> set ok'" using other [OF _ False] x(1) by (auto simp: nk_iff ok_iff)
        moreover have "(k, v) \<in> index_rows pid spec S" using x \<open>S d' = Some x\<close> by (auto simp: index_rows_def)
        ultimately show ?thesis unfolding * by blast
      qed
    qed
  qed
  ultimately show ?thesis by (simp add: represents_def)
qed


section \<open>The operations\<close>

lemma entry_decode_encode: "json_ok J \<Longrightarrow> entry_ok x \<Longrightarrow> entry_decode J (entry_encode J x) = Inr x"
  by (simp add: json_ok_def entry_decode_def entry_encode_def)

lemma get_entry_ok:
  assumes "etcd_ok E cont" "get_entry E h pid d w = (r, w')"
  shows "cont w' = cont w" "r = Inr v \<Longrightarrow> v = cont w h (entry_key pid d)"
    "r = Inl e \<Longrightarrow> \<exists>e'. e = Etcd_err e'"
proof -
  obtain r0 w0 where g: "store_get E h (entry_key pid d) False w = (r0, w0)" by fastforce
  have "cont w0 = cont w" "\<And>rows. r0 = Inr rows \<Longrightarrow> get_answer (cont w h) (entry_key pid d) False rows"
    using store_get_ok [OF assms(1) g] by auto
  with assms(2) g show "cont w' = cont w" "r = Inr v \<Longrightarrow> v = cont w h (entry_key pid d)"
    "r = Inl e \<Longrightarrow> \<exists>e'. e = Etcd_err e'"
    by (cases r0; auto simp: get_entry_def and_then_def map_err_def dest!: get_answer_point split: option.splits)+
qed

lemma read_entry_ok:
  assumes "etcd_ok E cont" "json_ok J" "represents J pid spec (cont w h) S" "tree_clean d" "same_spelling S d"
    "read_entry E J h pid d w = (r, w')"
  shows "cont w' = cont w" "r = Inr old \<Longrightarrow> old = S d" "r = Inl e \<Longrightarrow> \<exists>e'. e = Etcd_err e'"
proof -
  obtain r0 w0 where g: "store_get E h (entry_key pid d) False w = (r0, w0)" by fastforce
  note s = store_get_ok [OF assms(1) g]
  have "(r, w') = (map_sum Etcd_err (\<lambda>_. S d) r0, w0)"
  proof (cases r0)
    case (Inl a)
    then show ?thesis using assms(6) g by (auto simp: read_entry_def and_then_def map_err_def)
  next
    case (Inr rows)
    have "rows = (case map_option (entry_encode J) (S d) of None \<Rightarrow> [] | Some v \<Rightarrow> [(entry_key pid d, v)])"
      using get_answer_point [OF s(2) [OF Inr]] represents_at [OF assms(3-5)] by simp
    then show ?thesis
      using assms(6) g Inr entry_decode_encode [OF assms(2)] represents_cleanD(3) [OF assms(3)]
      by (cases "S d") (auto simp: read_entry_def and_then_def map_err_def)
  qed
  then show "cont w' = cont w" "r = Inr old \<Longrightarrow> old = S d" "r = Inl e \<Longrightarrow> \<exists>e'. e = Etcd_err e'"
    using s(1) by (cases r0; simp)+
qed

lemma put_ops_effect:
  assumes "represents J pid spec m S" "tree_clean d" "dn_utf8 pid d" "same_spelling S d" "entry_ok x"
  shows "represents J pid spec (apply_ops (put_ops J pid d x spec (S d)) m) (S(d \<mapsto> x))"
proof (rule represents_update [OF assms(1-4), where new = "Some x", OF _ refl refl])
  fix k
  show "apply_ops (put_ops J pid d x spec (S d)) m k =
    (if k \<in> set (case Some x of None \<Rightarrow> [] | Some x \<Rightarrow> index_keys_for pid d x spec) then Some (dn_string d)
     else if k = entry_key pid d then map_option (entry_encode J) (Some x)
     else if k \<in> set (case S d of None \<Rightarrow> [] | Some x \<Rightarrow> index_keys_for pid d x spec) then None else m k)"
    by (auto simp: put_ops_def Let_def apply_ops_append apply_puts apply_deletes)
qed (use assms(5) in simp)

lemma put_entry_indexed_ok:
  assumes "etcd_ok E cont" "json_ok J" "represents J pid spec (cont w h) S"
    "tree_clean d" "dn_utf8 pid d" "same_spelling S d" "entry_ok x"
    "put_entry_indexed E J h pid d x spec w = (r, w')"
  shows "r = Inr () \<and> represents J pid spec (cont w' h) (S(d \<mapsto> x)) \<or>
    (\<exists>e. r = Inl (Etcd_err e)) \<and>
      (represents J pid spec (cont w' h) S \<or> represents J pid spec (cont w' h) (S(d \<mapsto> x)))"
proof -
  obtain r0 w0 where g: "read_entry E J h pid d w = (r0, w0)" by fastforce
  note rd = read_entry_ok [OF assms(1-4) assms(6) g]
  note eff = put_ops_effect [OF assms(3-7)]
  show ?thesis
  proof (cases r0)
    case (Inl e)
    then show ?thesis using assms(3,8) g rd by (auto simp: put_entry_indexed_def and_then_def)
  next
    case (Inr old)
    obtain r1 w1 where t: "etcd_txn E h [] (put_ops J pid d x spec (S d)) w0 = (r1, w1)" by fastforce
    have r: "(r, w') = (map_sum Etcd_err (\<lambda>_. ()) r1, w1)"
      using assms(8) g rd(2) Inr t by (cases r1) (auto simp: put_entry_indexed_def and_then_def map_err_def)
    show ?thesis
    proof (cases r1)
      case (Inl e)
      then show ?thesis
        using r etcd_ok_txn_Inl [OF assms(1) t [unfolded Inl]] rd(1) eff assms(3)
        by (auto simp: changed_def)
    next
      case (Inr b)
      then show ?thesis
        using r etcd_ok_txn_unconditional [OF assms(1) t [unfolded Inr]] rd(1) eff by (simp add: changed_def)
    qed
  qed
qed

lemma delete_ops_effect:
  assumes "represents J pid spec m S" "tree_clean d" "dn_utf8 pid d" "same_spelling S d" "S d = Some x"
  shows "represents J pid spec
    (apply_ops (Txn_delete (entry_key pid d) # map Txn_delete (index_keys_for pid d x spec)) m) (S(d := None))"
proof (rule represents_update [OF assms(1-4), where new = None, OF _ refl refl])
  fix k
  show "apply_ops (Txn_delete (entry_key pid d) # map Txn_delete (index_keys_for pid d x spec)) m k =
    (if k \<in> set (case None of None \<Rightarrow> [] | Some x \<Rightarrow> index_keys_for pid d x spec) then Some (dn_string d)
     else if k = entry_key pid d then map_option (entry_encode J) None
     else if k \<in> set (case S d of None \<Rightarrow> [] | Some x \<Rightarrow> index_keys_for pid d x spec) then None else m k)"
    using assms(5) by (auto simp: apply_deletes)
qed simp

lemma delete_entry_indexed_ok:
  assumes "etcd_ok E cont" "json_ok J" "represents J pid spec (cont w h) S"
    "tree_clean d" "dn_utf8 pid d" "same_spelling S d"
    "delete_entry_indexed E J h pid d spec w = (r, w')"
  shows "r = Inr () \<and> represents J pid spec (cont w' h) (S(d := None)) \<or>
    (\<exists>e. r = Inl (Etcd_err e)) \<and>
      (represents J pid spec (cont w' h) S \<or> represents J pid spec (cont w' h) (S(d := None)))"
proof -
  obtain r0 w0 where g: "read_entry E J h pid d w = (r0, w0)" by fastforce
  note rd = read_entry_ok [OF assms(1-4) assms(6) g]
  show ?thesis
  proof (cases "r0 = Inr (S d) \<and> S d \<noteq> None")
    case False
    then show ?thesis
      using assms(3,7) g rd
      by (cases r0) (auto simp: delete_entry_indexed_def and_then_def fun_upd_idem)
  next
    case True
    then obtain x where x: "S d = Some x" by blast
    let ?ops = "Txn_delete (entry_key pid d) # map Txn_delete (index_keys_for pid d x spec)"
    note eff = delete_ops_effect [OF assms(3-6) x]
    obtain r1 w1 where t: "etcd_txn E h [] ?ops w0 = (r1, w1)" by fastforce
    have r: "(r, w') = (map_sum Etcd_err (\<lambda>_. ()) r1, w1)"
      using assms(7) g True x t by (cases r1) (auto simp: delete_entry_indexed_def and_then_def map_err_def)
    show ?thesis
    proof (cases r1)
      case (Inl e)
      then show ?thesis
        using r etcd_ok_txn_Inl [OF assms(1) t [unfolded Inl]] rd(1) eff assms(3)
        by (auto simp: changed_def)
    next
      case (Inr b)
      then show ?thesis
        using r etcd_ok_txn_unconditional [OF assms(1) t [unfolded Inr]] rd(1) eff by (simp add: changed_def)
    qed
  qed
qed

lemma create_ops_effect:
  assumes "represents J pid spec m S" "tree_clean d" "dn_utf8 pid d" "entry_ok x" "\<forall>d' \<in> dom S. \<not> dn_eq d' d"
  shows "represents J pid spec
    (apply_ops (Txn_put (entry_key pid d) (entry_encode J x) #
       map (\<lambda>k. Txn_put k (dn_string d)) (index_keys_for pid d x spec)) m) (S(d \<mapsto> x))"
proof (rule represents_update [OF assms(1-3), where new = "Some x", OF _ _ refl refl])
  have n: "S d = None" using assms(5) by (metis dn_eq_refl domIff)
  fix k
  show "apply_ops (Txn_put (entry_key pid d) (entry_encode J x) #
       map (\<lambda>k. Txn_put k (dn_string d)) (index_keys_for pid d x spec)) m k =
    (if k \<in> set (case Some x of None \<Rightarrow> [] | Some x \<Rightarrow> index_keys_for pid d x spec) then Some (dn_string d)
     else if k = entry_key pid d then map_option (entry_encode J) (Some x)
     else if k \<in> set (case S d of None \<Rightarrow> [] | Some x \<Rightarrow> index_keys_for pid d x spec) then None else m k)"
    using n by (auto simp: apply_puts)
qed (use assms(4,5) in \<open>auto simp: same_spelling_def\<close>)

lemma create_entry_indexed_ok:
  assumes "etcd_ok E cont" "represents J pid spec (cont w h) S" "tree_clean d" "dn_utf8 pid d" "entry_ok x"
    "create_entry_indexed E J h pid d x spec w = (r, w')"
  shows "(if \<exists>d' \<in> dom S. dn_eq d' d then represents J pid spec (cont w' h) S \<and> r \<noteq> Inr True
     else r = Inr True \<and> represents J pid spec (cont w' h) (S(d \<mapsto> x)) \<or>
       (\<exists>e. r = Inl (Etcd_err e)) \<and>
       (represents J pid spec (cont w' h) S \<or> represents J pid spec (cont w' h) (S(d \<mapsto> x))))"
proof -
  let ?ops = "Txn_put (entry_key pid d) (entry_encode J x) #
       map (\<lambda>k. Txn_put k (dn_string d)) (index_keys_for pid d x spec)"
  obtain r1 w1 where t: "etcd_txn E h [Absent (entry_key pid d)] ?ops w = (r1, w1)" by fastforce
  have r: "(r, w') = (map_sum Etcd_err id r1, w1)"
    using assms(6) t by (cases r1) (auto simp: create_entry_indexed_def map_err_def)
  have c: "list_all (compare_holds (cont w h)) [Absent (entry_key pid d)] \<longleftrightarrow> \<not> (\<exists>d' \<in> dom S. dn_eq d' d)"
    using represents_value [OF assms(2,3)]
    by (cases "cont w h (entry_key pid d)") (auto simp: dom_def, metis option.distinct(1))
  have eff: "\<not> (\<exists>d' \<in> dom S. dn_eq d' d) \<Longrightarrow> represents J pid spec (apply_ops ?ops (cont w h)) (S(d \<mapsto> x))"
    using create_ops_effect [OF assms(2-5)] by blast
  consider e where "r1 = Inl e" | "r1 = Inr True" | "r1 = Inr False"
    by (cases r1) (metis (full_types))+
  then show ?thesis
  proof cases
    case 1
    then show ?thesis
      using r etcd_ok_txn_Inl [OF assms(1) t [unfolded 1]] eff assms(2) unfolding c changed_def by auto
  next
    case 2
    then show ?thesis
      using r etcd_ok_txn_True [OF assms(1) t [unfolded 2]] eff unfolding c changed_def by auto
  next
    case 3
    then show ?thesis
      using r etcd_ok_txn_False [OF assms(1) t [unfolded 3]] assms(2) unfolding c by auto
  qed
qed

lemma index_rows_under:
  assumes "represents J pid spec m S" "get_answer m (index_prefix pid a v) True rows"
  shows "set rows = {(index_key pid a v d, dn_string d) | d x.
    S d = Some x \<and> (\<exists>a' \<in> set (spec_attrs spec). eq_ignore_ascii_case a' a) \<and> v \<in> set (entry_vals x a)}"
proof -
  have "prefix (idx_root pid) (index_prefix pid a v)" by (simp add: idx_root_def index_prefix_def)
  then have p: "prefix (idx_root pid) k" if "prefix (index_prefix pid a v) k" for k
    using that prefix_order.trans by blast
  have v: "entry_vals x a' = entry_vals x a" if "eq_ignore_ascii_case a' a" for a' x
    using entry_get_case [OF that] by (simp add: entry_vals_def)
  have k: "index_key pid a' v d = index_key pid a v d" if "eq_ignore_ascii_case a' a" for a' d
    using that by (simp add: index_key_def eq_ignore_ascii_case_def)
  have "(j, u) \<in> set rows \<longleftrightarrow> (\<exists>d x. j = index_key pid a v d \<and> u = dn_string d \<and> S d = Some x \<and>
      (\<exists>a' \<in> set (spec_attrs spec). eq_ignore_ascii_case a' a) \<and> v \<in> set (entry_vals x a))" for j u
  proof -
    have "(j, u) \<in> set rows \<longleftrightarrow> (j, u) \<in> index_rows pid spec S \<and> prefix (index_prefix pid a v) j"
      using assms p by (auto simp: get_answer_def represents_def)
    also have "\<dots> \<longleftrightarrow> (\<exists>a' v' d x. j = index_key pid a' v' d \<and> u = dn_string d \<and> S d = Some x \<and>
        a' \<in> set (spec_attrs spec) \<and> v' \<in> set (entry_vals x a') \<and> prefix (index_prefix pid a v) (index_key pid a' v' d))"
      unfolding index_rows_def by blast
    also have "\<dots> \<longleftrightarrow> (\<exists>a' d x. j = index_key pid a' v d \<and> u = dn_string d \<and> S d = Some x \<and>
        a' \<in> set (spec_attrs spec) \<and> v \<in> set (entry_vals x a') \<and> eq_ignore_ascii_case a' a)"
      unfolding index_prefix_iff eq_ignore_ascii_case_def by metis
    also have "\<dots> \<longleftrightarrow> (\<exists>d x. j = index_key pid a v d \<and> u = dn_string d \<and> S d = Some x \<and>
        (\<exists>a' \<in> set (spec_attrs spec). eq_ignore_ascii_case a' a) \<and> v \<in> set (entry_vals x a))"
      using v k by metis
    finally show ?thesis .
  qed
  then show ?thesis by (simp only: set_eq_iff split_paired_All mem_Collect_eq prod.inject) blast
qed

lemma parse_index_row_ok: "tree_clean d \<Longrightarrow> dn_utf8 pid d \<Longrightarrow> parse_index_row (k, dn_string d) = Inr d"
  by (simp add: parse_index_row_def value_str_def dn_utf8_def dn_parse_string tree_clean_dn_ok)

lemma lookup_by_index_ok:
  assumes "etcd_ok E cont" "represents J pid spec (cont w h) S" "lookup_by_index E h pid a v w = (r, w')"
  shows "cont w' = cont w"
    "r = Inr ds \<Longrightarrow> distinct ds \<and> set ds = {d. \<exists>x. S d = Some x \<and> (\<exists>a' \<in> set (spec_attrs spec). eq_ignore_ascii_case a' a) \<and>
       v \<in> set (entry_vals x a)}"
    "r = Inl e \<Longrightarrow> \<exists>e'. e = Etcd_err e'"
proof -
  obtain r0 w0 where g: "store_get E h (index_prefix pid a v) True w = (r0, w0)" by fastforce
  note s = store_get_ok [OF assms(1) g]
  define D where "D = {d. \<exists>x. S d = Some x \<and> (\<exists>a' \<in> set (spec_attrs spec). eq_ignore_ascii_case a' a) \<and> v \<in> set (entry_vals x a)}"
  have rows: "\<exists>ds. map parse_index_row rows = map Inr ds \<and> distinct ds \<and> set ds = D" if "r0 = Inr rows" for rows
  proof -
    have ans: "get_answer (cont w h) (index_prefix pid a v) True rows" using s(2) that .
    note set = index_rows_under [OF assms(2) ans]
    have row: "\<exists>d. row = (index_key pid a v d, dn_string d) \<and> d \<in> D \<and> parse_index_row row = Inr d"
      if "row \<in> set rows" for row
      using that represents_cleanD [OF assms(2)] parse_index_row_ok unfolding set D_def by blast
    then have "\<forall>row \<in> set rows. \<exists>d. row = (index_key pid a v d, dn_string d) \<and> d \<in> D \<and> parse_index_row row = Inr d"
      by blast
    from bchoice [OF this] obtain f where f: "\<And>row. row \<in> set rows \<Longrightarrow>
        row = (index_key pid a v (f row), dn_string (f row)) \<and> f row \<in> D \<and> parse_index_row row = Inr (f row)"
      by blast
    have m: "map parse_index_row rows = map Inr (map f rows)" using f by simp
    have "f ` set rows = D"
    proof (intro equalityI subsetI)
      fix d assume "d \<in> f ` set rows"
      then show "d \<in> D" using f by blast
    next
      fix d assume d: "d \<in> D"
      let ?row = "(index_key pid a v d, dn_string d)"
      have r: "?row \<in> set rows" using d unfolding set D_def by blast
      have "dn_string (f ?row) = dn_string d" "f ?row \<in> D" using f [OF r] by simp_all
      then have "f ?row = d"
        using d represents_cleanD(1) [OF assms(2)] tree_clean_dn_ok dn_string_inj unfolding D_def by blast
      then show "d \<in> f ` set rows" using r by (metis imageI)
    qed
    moreover have "inj_on f (set rows)" by (rule inj_onI) (use f in metis)
    moreover have "distinct rows" using ans by (auto simp: get_answer_def strict_sorted_iff distinct_map)
    ultimately show ?thesis using m by (intro exI [of _ "map f rows"]) (simp add: distinct_map)
  qed
  show "cont w' = cont w" 
    using assms(3) g s(1) by (cases r0) (auto simp: lookup_by_index_def and_then_def map_err_def)
  show "distinct ds \<and> set ds = {d. \<exists>x. S d = Some x \<and>
      (\<exists>a' \<in> set (spec_attrs spec). eq_ignore_ascii_case a' a) \<and> v \<in> set (entry_vals x a)}" if "r = Inr ds"
  proof (cases r0)
    case (Inr rs)
    then obtain ds' where "map parse_index_row rs = map Inr ds'" "distinct ds'" "set ds' = D" using rows by blast
    moreover from this have "ds' = ds"
      using that assms(3) g Inr by (simp add: lookup_by_index_def and_then_def map_err_def collect_result_eq_Inr)
    ultimately show ?thesis by (simp add: D_def)
  qed (use that assms(3) g in \<open>simp add: lookup_by_index_def and_then_def map_err_def\<close>)
  show "\<exists>e'. e = Etcd_err e'" if "r = Inl e"
  proof (cases r0)
    case (Inr rs)
    then obtain ds' where "collect_result (map parse_index_row rs) = Inr ds'" using rows collect_result_eq_Inr by blast
    then show ?thesis using that assms(3) g Inr by (simp add: lookup_by_index_def and_then_def map_err_def)
  qed (use that assms(3) g in \<open>auto simp: lookup_by_index_def and_then_def map_err_def\<close>)
qed

lemma less_append: "y \<noteq> [] \<Longrightarrow> (x :: string) < x @ y"
  by (induction x) (auto simp: neq_Nil_conv)

lemma within_split: "is_within d b \<longleftrightarrow> dn_eq d b \<or> is_strict_descendant_of d b"
  unfolding is_within_suffix dn_eq_norm strict_descendant_norm by (auto simp: strict_suffix_def)

lemma scan_subtree_ok:
  assumes "etcd_ok E cont" "represents J pid spec (cont w h) S" "tree_clean d" "rdns d \<noteq> []"
    "scan_subtree E h pid d w = (r, w')"
  shows "cont w' = cont w"
    "r = Inr rows \<Longrightarrow> sorted_wrt (<) (map fst rows) \<and>
       set rows = {(entry_key pid d', entry_encode J x) | d' x. S d' = Some x \<and> is_within d' d}"
    "r = Inl e \<Longrightarrow> \<exists>e'. e = Etcd_err e'"
proof -
  obtain r0 w0 where g: "store_get E h (subtree_prefix pid d) True w = (r0, w0)" by fastforce
  obtain r1 w1 where g1: "get_entry E h pid d w0 = (r1, w1)" by fastforce
  note s = store_get_ok [OF assms(1) g]
  note s1 = get_entry_ok [OF assms(1) g1]
  show "cont w' = cont w"
    using assms(5) g g1 s(1) s1(1) by (cases r0; cases r1) (auto simp: scan_subtree_def and_then_def map_err_def Let_def)
  show "r = Inl e \<Longrightarrow> \<exists>e'. e = Etcd_err e'"
    using assms(5) g g1 s1(3) by (cases r0; cases r1) (auto simp: scan_subtree_def and_then_def map_err_def Let_def)
  assume "r = Inr rows"
  with assms(5) g g1 obtain out base where o: "r0 = Inr out" "r1 = Inr base" and
    rows: "rows = (case base of Some v \<Rightarrow> [(entry_key pid d, v)] | None \<Rightarrow> []) @ map (\<lambda>(k, v). (key_str_or_default k, v)) out"
    by (cases r0; cases r1) (auto simp: scan_subtree_def and_then_def map_err_def Let_def split: option.splits)
  have base: "base = cont w h (entry_key pid d)" using s1(2) [OF o(2)] s(1) by simp
  have ans: "get_answer (cont w h) (subtree_prefix pid d) True out" using s(2) [OF o(1)] .
  have p: "prefix (tree_root pid) k" if "prefix (subtree_prefix pid d) k" for k
    using that by (auto simp: subtree_prefix_def entry_key_def prefix_def)
  have "set out = {(k, v). (k, v) \<in> tree_rows J pid S \<and> prefix (subtree_prefix pid d) k}"
    using ans assms(2) p by (auto simp: get_answer_def represents_def)
  also have "\<dots> = {(entry_key pid d', entry_encode J x) | d' x. S d' = Some x \<and> is_strict_descendant_of d' d}"
    using represents_cleanD(1) [OF assms(2)] subtree_prefix_iff assms(3,4) tree_clean_key_clean
    unfolding tree_rows_def by fastforce
  finally have out: "set out = {(entry_key pid d', entry_encode J x) | d' x. S d' = Some x \<and> is_strict_descendant_of d' d}" .
  have "key_str_or_default k = k" if "(k, v) \<in> set out" for k v
    using that represents_cleanD(2) [OF assms(2)] by (auto simp: out key_str_or_default_def dn_utf8_def)
  then have id: "map (\<lambda>(k, v). (key_str_or_default k, v)) out = out"
    by (intro map_idI) auto
  have "sorted_wrt (<) (map fst out)" "\<forall>(k, v) \<in> set out. prefix (subtree_prefix pid d) k"
    using ans by (auto simp: get_answer_def)
  moreover have "entry_key pid d < k" if "prefix (subtree_prefix pid d) k" for k
    using that less_append [of "CHR ''/'' # _" "entry_key pid d"] by (auto simp: subtree_prefix_def prefix_def)
  ultimately have "sorted_wrt (<) (map fst rows)"
    unfolding rows id by (auto split: option.splits)
  moreover have "set (case base of Some v \<Rightarrow> [(entry_key pid d, v)] | None \<Rightarrow> []) =
      {(entry_key pid d', entry_encode J x) | d' x. S d' = Some x \<and> dn_eq d' d}"
  proof -
    have a: "(k, u) \<in> set (case base of Some v \<Rightarrow> [(entry_key pid d, v)] | None \<Rightarrow> []) \<longleftrightarrow>
        k = entry_key pid d \<and> (\<exists>d' x. S d' = Some x \<and> dn_eq d' d \<and> u = entry_encode J x)" for k u
      unfolding represents_value [OF assms(2,3), symmetric] base by (auto split: option.splits)
    have b: "entry_key pid d' = entry_key pid d" if "dn_eq d' d" for d'
      using that by (simp add: entry_key_def reversed_components_norm dn_eq_norm)
    have "(k, u) \<in> set (case base of Some v \<Rightarrow> [(entry_key pid d, v)] | None \<Rightarrow> []) \<longleftrightarrow>
        (\<exists>d' x. k = entry_key pid d' \<and> u = entry_encode J x \<and> S d' = Some x \<and> dn_eq d' d)" for k u
      unfolding a using b by metis
    then show ?thesis by (simp only: set_eq_iff split_paired_All mem_Collect_eq prod.inject) blast
  qed
  ultimately show "sorted_wrt (<) (map fst rows) \<and>
       set rows = {(entry_key pid d', entry_encode J x) | d' x. S d' = Some x \<and> is_within d' d}"
    unfolding rows id set_append out within_split by auto
qed

section \<open>Watching\<close>

lemma next_subtree_event_skips:
  assumes "\<forall>m \<in> set ms. \<exists>evs. m = Inr evs \<and> (\<forall>ev rest. evs = ev # rest \<longrightarrow> snd ev = None)"
  shows "next_subtree_event (ms @ Inr ((t, Some (k, v)) # lost) # rest) =
    (Inr (Some \<lparr>ev_key = key_str_or_default k, ev_kind = t, ev_value = v\<rparr>), rest)"
  using assms
proof (induction ms)
  case (Cons m ms)
  then obtain evs where m: "m = Inr evs" "\<forall>ev rest. evs = ev # rest \<longrightarrow> snd ev = None" by auto
  then show ?case using Cons by (cases evs) (auto split: prod.splits option.splits)
qed simp

end
