(* ===== verification/Ridpool.thy ===== *)
theory Ridpool
  imports Index
begin

text \<open>
  Allocation of relative identifiers (crates/store/src/ridpool.rs): a counter per partition,
  advanced by a compare-and-swap loop. The loop is a partial function on options, so that a run
  that is outpaced for ever is the value \<open>None\<close>. The step relation \<open>rid_step\<close> interleaves any
  number of allocators, one service call per step, with writes of others to other keys. The
  addition wraps, as in a build without overflow checks.
\<close>

definition FIRST_ALLOCATABLE_RID :: u32 where
  "FIRST_ALLOCATABLE_RID = 1000"

definition pool_key :: "partition_id \<Rightarrow> string" where
  "pool_key pid = ''/iron/'' @ pid_str pid @ ''/ridpool/next''"

text \<open>The counter read and the comparison that guards the write.\<close>

definition rid_decide :: "partition_id \<Rightarrow> kv list \<Rightarrow> store_error + (u32 \<times> compare)" where
  "rid_decide pid rows =
     (case rows of
        (k, v) # _ \<Rightarrow>
          (case value_str v of
             Inl e \<Rightarrow> Inl (Etcd_err e)
           | Inr s \<Rightarrow>
               (case parse_uint 32 s of
                  None \<Rightarrow> Inl (RidPoolCorrupt (pid_str pid) s)
                | Some n \<Rightarrow> Inr (of_nat n, Value_equal (pool_key pid) v)))
      | [] \<Rightarrow> Inr (FIRST_ALLOCATABLE_RID, Absent (pool_key pid)))"

definition rid_ops :: "partition_id \<Rightarrow> u32 \<Rightarrow> txn_op list" where
  "rid_ops pid current = (let nxt = current + 1 in [Txn_put (pool_key pid) (nat_str (unat nxt))])"

text \<open>One turn of the loop; \<open>None\<close> when another allocator won the race.\<close>

definition rid_attempt :: "('w, 'h) etcd \<Rightarrow> 'h \<Rightarrow> partition_id \<Rightarrow> ('w, store_error, u32 option) call" where
  "rid_attempt E h pid =
     and_then (map_err Etcd_err (store_get E h (pool_key pid) False)) (\<lambda>rows.
     and_then (lift_call (rid_decide pid rows)) (\<lambda>(current, cmp).
     and_then (map_err Etcd_err (etcd_txn E h [cmp] (rid_ops pid current))) (\<lambda>succeeded.
     ok_call (if succeeded then Some current else None))))"

partial_function (option) allocate_rid ::
  "('w, 'h) etcd \<Rightarrow> 'h \<Rightarrow> partition_id \<Rightarrow> 'w \<Rightarrow> ((store_error + u32) \<times> 'w) option" where
  "allocate_rid E h pid w =
     (case rid_attempt E h pid w of
        (Inl e, w') \<Rightarrow> Some (Inl e, w')
      | (Inr (Some rid), w') \<Rightarrow> Some (Inr rid, w')
      | (Inr None, w') \<Rightarrow> allocate_rid E h pid w')"

section \<open>An allocator on its own\<close>

lemma valid_utf8_ascii: "\<forall>c \<in> set s. c \<le> CHR 0x7F \<Longrightarrow> valid_utf8 s"
  unfolding valid_utf8_def by (induction s) (auto simp: utf8_width_def)

text \<open>The counter of a partition: what the next allocation returns.\<close>

definition rid_counter :: "partition_id \<Rightarrow> kvs \<Rightarrow> u32 option" where
  "rid_counter pid m =
     (case m (pool_key pid) of
        None \<Rightarrow> Some FIRST_ALLOCATABLE_RID
      | Some v \<Rightarrow> if valid_utf8 v then map_option of_nat (parse_uint 32 v) else None)"

definition point_rows :: "kvs \<Rightarrow> string \<Rightarrow> kv list" where
  "point_rows m k = (case m k of None \<Rightarrow> [] | Some v \<Rightarrow> [(k, v)])"

lemma rid_decide_counter:
  assumes "rid_counter pid m = Some c"
  shows "\<exists>cmp. rid_decide pid (point_rows m (pool_key pid)) = Inr (c, cmp) \<and> compare_holds m cmp"
  using assms by (auto simp: rid_counter_def rid_decide_def point_rows_def value_str_def split: option.splits if_splits)

lemma rid_decide_corrupt:
  assumes "rid_counter pid m = None"
  shows "\<exists>e. rid_decide pid (point_rows m (pool_key pid)) = Inl e"
  using assms by (auto simp: rid_counter_def rid_decide_def point_rows_def value_str_def split: option.splits if_splits)

lemma rid_attempt_ok:
  assumes "etcd_ok E cont" "rid_attempt E h pid w = (r, w')"
  shows "case r of
      Inr (Some c) \<Rightarrow> rid_counter pid (cont w h) = Some c \<and> changed cont h (apply_ops (rid_ops pid c)) w w'
    | Inr None \<Rightarrow> False
    | Inl e \<Rightarrow> cont w' = cont w \<or>
        (\<exists>c. rid_counter pid (cont w h) = Some c \<and> changed cont h (apply_ops (rid_ops pid c)) w w')"
proof -
  obtain r0 w0 where g: "store_get E h (pool_key pid) False w = (r0, w0)" by fastforce
  note s = store_get_ok [OF assms(1) g]
  show ?thesis
  proof (cases r0)
    case (Inl e)
    then show ?thesis using assms(2) g s(1) by (auto simp: rid_attempt_def and_then_def map_err_def)
  next
    case (Inr rows)
    have rows: "rows = point_rows (cont w h) (pool_key pid)"
      using get_answer_point [OF s(2) [OF Inr]] by (simp add: point_rows_def)
    show ?thesis
    proof (cases "rid_counter pid (cont w h)")
      case None
      then obtain e where "rid_decide pid rows = Inl e" using rid_decide_corrupt rows by blast
      then show ?thesis using assms(2) g s(1) Inr by (auto simp: rid_attempt_def and_then_def map_err_def)
    next
      case (Some c)
      then obtain cmp where d: "rid_decide pid rows = Inr (c, cmp)" and h: "compare_holds (cont w0 h) cmp"
        using rid_decide_counter rows s(1) by metis
      obtain r1 w1 where t: "etcd_txn E h [cmp] (rid_ops pid c) w0 = (r1, w1)" by fastforce
      have r: "(r, w') = (map_sum Etcd_err (\<lambda>b. if b then Some c else None) r1, w1)"
        using assms(2) g Inr d t by (cases r1) (auto simp: rid_attempt_def and_then_def map_err_def)
      consider e where "r1 = Inl e" | "r1 = Inr True" | "r1 = Inr False" by (cases r1) (metis (full_types))+
      then show ?thesis
      proof cases
        case 1
        then show ?thesis using r etcd_ok_txn_Inl [OF assms(1) t [unfolded 1]] s(1) Some by (auto simp: changed_def)
      next
        case 2
        then show ?thesis using r etcd_ok_txn_True [OF assms(1) t [unfolded 2]] s(1) Some by (auto simp: changed_def)
      next
        case 3
        then show ?thesis using r etcd_ok_txn_False [OF assms(1) t [unfolded 3]] h by simp
      qed
    qed
  qed
qed

lemma allocate_rid_ok:
  assumes "etcd_ok E cont"
  obtains r w' where "allocate_rid E h pid w = Some (r, w')"
    "\<And>c. r = Inr c \<Longrightarrow> rid_counter pid (cont w h) = Some c \<and> rid_counter pid (cont w' h) = Some (c + 1) \<and>
       (\<forall>k. k \<noteq> pool_key pid \<longrightarrow> cont w' h k = cont w h k)"
proof -
  obtain r w' where a: "rid_attempt E h pid w = (r, w')" by fastforce
  note ok = rid_attempt_ok [OF assms a]
  have after: "rid_counter pid (apply_ops (rid_ops pid c) m) = Some (c + 1)" for c m
  proof -
    have "valid_utf8 (nat_str n)" for n
      by (rule valid_utf8_ascii) (auto dest: nat_str_chars simp: is_ascii_digit_def less_eq_char_def)
    then show ?thesis
      using unat_bound [of "c + 1"] by (simp add: rid_ops_def rid_counter_def parse_uint_nat_str)
  qed
  show thesis
  proof (cases r)
    case (Inl e)
    then have "allocate_rid E h pid w = Some (Inl e, w')" using a by (subst allocate_rid.simps) simp
    then show thesis using that by blast
  next
    case (Inr x)
    then obtain c where x: "x = Some c" using ok by (cases x) auto
    then have "allocate_rid E h pid w = Some (Inr c, w')" using a Inr by (subst allocate_rid.simps) simp
    moreover have "rid_counter pid (cont w h) = Some c" "cont w' h = apply_ops (rid_ops pid c) (cont w h)"
      using ok Inr x by (auto simp: changed_def)
    ultimately show thesis using that [of "Inr c" w'] after [of c "cont w h"] by (simp add: rid_ops_def)
  qed
qed

section \<open>Interleaved allocators\<close>

datatype rid_proc = Idle | Chose u32 compare | Got u32 | Failed

record rid_sys =
  rs_kvs :: kvs
  rs_proc :: "nat \<Rightarrow> rid_proc"
  rs_issued :: "u32 list"
  rs_grants :: nat

text \<open>
  \<open>rs_issued\<close> lists the identifiers returned to callers and \<open>rs_grants\<close> counts the committed
  writes of the counter, those included whose reply was lost.
\<close>

inductive rid_step :: "partition_id \<Rightarrow> rid_sys \<Rightarrow> rid_sys \<Rightarrow> bool" for pid where
  read: "rs_proc s p = Idle \<Longrightarrow> rid_decide pid (point_rows (rs_kvs s) (pool_key pid)) = Inr (c, cmp) \<Longrightarrow>
    rid_step pid s (s\<lparr>rs_proc := (rs_proc s)(p := Chose c cmp)\<rparr>)"
| read_error: "rs_proc s p = Idle \<Longrightarrow> rid_step pid s (s\<lparr>rs_proc := (rs_proc s)(p := Failed)\<rparr>)"
| commit: "rs_proc s p = Chose c cmp \<Longrightarrow> compare_holds (rs_kvs s) cmp \<Longrightarrow>
    rid_step pid s (s\<lparr>rs_kvs := apply_ops (rid_ops pid c) (rs_kvs s), rs_proc := (rs_proc s)(p := Got c),
      rs_issued := c # rs_issued s, rs_grants := Suc (rs_grants s)\<rparr>)"
| lost_reply: "rs_proc s p = Chose c cmp \<Longrightarrow> compare_holds (rs_kvs s) cmp \<Longrightarrow>
    rid_step pid s (s\<lparr>rs_kvs := apply_ops (rid_ops pid c) (rs_kvs s), rs_proc := (rs_proc s)(p := Failed),
      rs_grants := Suc (rs_grants s)\<rparr>)"
| outpaced: "rs_proc s p = Chose c cmp \<Longrightarrow> \<not> compare_holds (rs_kvs s) cmp \<Longrightarrow>
    rid_step pid s (s\<lparr>rs_proc := (rs_proc s)(p := Idle)\<rparr>)"
| txn_error: "rs_proc s p = Chose c cmp \<Longrightarrow> rid_step pid s (s\<lparr>rs_proc := (rs_proc s)(p := Failed)\<rparr>)"
| restart: "rs_proc s p = Got c \<or> rs_proc s p = Failed \<Longrightarrow>
    rid_step pid s (s\<lparr>rs_proc := (rs_proc s)(p := Idle)\<rparr>)"
| other_write: "m (pool_key pid) = rs_kvs s (pool_key pid) \<Longrightarrow> rid_step pid s (s\<lparr>rs_kvs := m\<rparr>)"

definition rid_init :: "rid_sys \<Rightarrow> partition_id \<Rightarrow> bool" where
  "rid_init s pid \<longleftrightarrow> rs_kvs s (pool_key pid) = None \<and> (\<forall>p. rs_proc s p = Idle) \<and> rs_issued s = [] \<and> rs_grants s = 0"

inductive rid_reach :: "partition_id \<Rightarrow> rid_sys \<Rightarrow> bool" for pid where
  init: "rid_init s pid \<Longrightarrow> rid_reach pid s"
| step: "rid_reach pid s \<Longrightarrow> rid_step pid s t \<Longrightarrow> rid_reach pid t"

definition rid_at :: "nat \<Rightarrow> u32" where
  "rid_at i = FIRST_ALLOCATABLE_RID + of_nat i"

text \<open>
  After \<open>n\<close> grants the counter holds the \<open>n\<close>-th identifier, a comparison that still holds was
  made on that value, and the identifiers returned have different positions below \<open>n\<close>.
\<close>

definition rid_inv :: "partition_id \<Rightarrow> rid_sys \<Rightarrow> bool" where
  "rid_inv pid s \<longleftrightarrow>
     rs_kvs s (pool_key pid) =
       (if rs_grants s = 0 then None else Some (nat_str (unat (rid_at (rs_grants s))))) \<and>
     (\<forall>p c cmp. rs_proc s p = Chose c cmp \<longrightarrow>
        cmp = Absent (pool_key pid) \<and> c = FIRST_ALLOCATABLE_RID \<or>
        cmp = Value_equal (pool_key pid) (nat_str (unat c))) \<and>
     (\<exists>js. rs_issued s = map rid_at js \<and> distinct js \<and> (\<forall>i \<in> set js. i < rs_grants s))"

lemma rid_chosen_current:
  assumes "rid_inv pid s" "rs_proc s p = Chose c cmp" "compare_holds (rs_kvs s) cmp"
  shows "c = rid_at (rs_grants s)"
proof -
  have kvs: "rs_kvs s (pool_key pid) = (if rs_grants s = 0 then None else Some (nat_str (unat (rid_at (rs_grants s)))))"
    using assms(1) [unfolded rid_inv_def, THEN conjunct1] .
  have "cmp = Absent (pool_key pid) \<and> c = FIRST_ALLOCATABLE_RID \<or> cmp = Value_equal (pool_key pid) (nat_str (unat c))"
    using assms(1) [unfolded rid_inv_def, THEN conjunct2, THEN conjunct1] assms(2) by blast
  then show ?thesis
  proof
    assume "cmp = Absent (pool_key pid) \<and> c = FIRST_ALLOCATABLE_RID"
    with assms(3) kvs have "rs_grants s = 0" "c = FIRST_ALLOCATABLE_RID" by (simp_all split: if_splits)
    then show ?thesis by (simp add: rid_at_def)
  next
    assume "cmp = Value_equal (pool_key pid) (nat_str (unat c))"
    with assms(3) kvs have "nat_str (unat (rid_at (rs_grants s))) = nat_str (unat c)" by (simp split: if_splits)
    then have "unat (rid_at (rs_grants s)) = unat c" by (rule nat_str_inj)
    then show ?thesis by (simp add: word_unat_eq_iff)
  qed
qed

lemma rid_inv_grant:
  assumes "rid_inv pid s" "rs_proc s p = Chose c cmp" "compare_holds (rs_kvs s) cmp"
    "q = Got c \<or> q = Failed" "iss = rs_issued s \<or> iss = c # rs_issued s"
  shows "rid_inv pid (s\<lparr>rs_kvs := apply_ops (rid_ops pid c) (rs_kvs s), rs_proc := (rs_proc s)(p := q),
      rs_issued := iss, rs_grants := Suc (rs_grants s)\<rparr>)"
proof -
  have c: "c = rid_at (rs_grants s)" using rid_chosen_current assms(1-3) by blast
  have nxt: "rid_at (rs_grants s) + 1 = rid_at (Suc (rs_grants s))" by (simp add: rid_at_def)
  obtain js where js: "rs_issued s = map rid_at js" "distinct js" "\<forall>i \<in> set js. i < rs_grants s"
    using assms(1) by (auto simp: rid_inv_def)
  have "\<exists>js. iss = map rid_at js \<and> distinct js \<and> (\<forall>i \<in> set js. i < Suc (rs_grants s))"
  proof (cases "iss = rs_issued s")
    case True
    then show ?thesis using js by (intro exI [of _ js]) auto
  next
    case False
    then show ?thesis using js assms(5) c by (intro exI [of _ "rs_grants s # js"]) auto
  qed
  then show ?thesis
    using assms(1,4) unfolding rid_inv_def by (auto simp: rid_ops_def c nxt split: if_splits)
qed

lemma rid_inv_step:
  assumes "rid_step pid s t" "rid_inv pid s"
  shows "rid_inv pid t"
  using assms
proof (cases rule: rid_step.cases)
  case (read p c cmp)
  have "cmp = Absent (pool_key pid) \<and> c = FIRST_ALLOCATABLE_RID \<or> cmp = Value_equal (pool_key pid) (nat_str (unat c))"
  proof (cases "rs_grants s = 0")
    case True
    then show ?thesis using read assms(2) by (auto simp: rid_inv_def rid_decide_def point_rows_def)
  next
    case False
    then have "rs_kvs s (pool_key pid) = Some (nat_str (unat (rid_at (rs_grants s))))"
      using read assms(2) by (simp add: rid_inv_def)
    then show ?thesis
      using read assms(2) unat_bound [of "rid_at (rs_grants s)"]
      by (auto simp: rid_decide_def point_rows_def value_str_def parse_uint_nat_str split: if_splits)
  qed
  then show ?thesis using read assms(2) unfolding rid_inv_def by auto
next
  case (commit p c cmp)
  then show ?thesis using assms(2) rid_inv_grant [of pid s p c cmp "Got c" "c # rs_issued s"] by simp
next
  case (lost_reply p c cmp)
  then show ?thesis using assms(2) rid_inv_grant [of pid s p c cmp Failed "rs_issued s"] by simp
qed (use assms(2) in \<open>auto simp: rid_inv_def\<close>)

lemma rid_inv_reach: "rid_reach pid s \<Longrightarrow> rid_inv pid s"
proof (induction rule: rid_reach.induct)
  case (init s)
  then show ?case by (simp add: rid_init_def rid_inv_def)
qed (blast intro: rid_inv_step)

lemma rid_at_inj: "i < 2 ^ 32 \<Longrightarrow> j < 2 ^ 32 \<Longrightarrow> rid_at i = rid_at j \<longleftrightarrow> i = j"
  by (simp add: rid_at_def word_of_nat_eq_iff take_bit_nat_eq_self)

lemma rid_at_first: "i < 2 ^ 32 - 1000 \<Longrightarrow> unat (rid_at i) = 1000 + i"
  by (simp add: rid_at_def FIRST_ALLOCATABLE_RID_def unat_word_ariths unat_of_nat)

lemma rid_reach_distinct:
  assumes "rid_reach pid s" "rs_grants s \<le> 2 ^ 32"
  shows "distinct (rs_issued s)"
proof -
  obtain js where js: "rs_issued s = map rid_at js" "distinct js" "\<forall>i \<in> set js. i < rs_grants s"
    using rid_inv_reach [OF assms(1)] by (auto simp: rid_inv_def)
  moreover have "inj_on rid_at (set js)" using js(3) assms(2) rid_at_inj by (intro inj_onI) (meson less_le_trans)
  ultimately show ?thesis by (simp add: distinct_map)
qed

lemma rid_reach_range:
  assumes "rid_reach pid s" "rs_grants s \<le> 2 ^ 32 - 1000" "r \<in> set (rs_issued s)"
  shows "1000 \<le> unat r \<and> unat r < 1000 + rs_grants s"
proof -
  obtain i where "r = rid_at i" "i < rs_grants s"
    using rid_inv_reach [OF assms(1)] assms(3) by (auto simp: rid_inv_def)
  then show ?thesis using assms(2) by (simp add: rid_at_first)
qed

end
