(* ===== verification/Store.thy ===== *)
theory Store
  imports Ridpool
begin

text \<open>
  The connection registry of the store (crates/store/src/store.rs) and the connection set-up of
  lib.rs: a name is resolved to its partition, and the operation runs on the client of that
  partition's cluster. Several partitions may share a cluster; the refinement lemmas show that an
  operation on one partition leaves the directory of every other partition as it was.
\<close>

section \<open>Connecting\<close>

text \<open>The file system and the client constructor, outside the code.\<close>

record tls_options =
  opt_ca :: string
  opt_cert :: string
  opt_key :: string

record ('w, 'h) net =
  fs_read :: "string \<Rightarrow> ('w, string, string) call"
  client_connect :: "string list \<Rightarrow> tls_options option \<Rightarrow> ('w, etcd_error, 'h) call"

definition read_file :: "('w, 'h) net \<Rightarrow> string \<Rightarrow> ('w, store_error, string) call" where
  "read_file N path = map_err (TlsFile path) (fs_read N path)"

definition build_tls_options :: "('w, 'h) net \<Rightarrow> tls_ref \<Rightarrow> ('w, store_error, tls_options) call" where
  "build_tls_options N t =
     and_then (read_file N (tls_ca t)) (\<lambda>ca.
     and_then (read_file N (tls_cert t)) (\<lambda>cert.
     and_then (read_file N (tls_key t)) (\<lambda>key.
     ok_call \<lparr>opt_ca = ca, opt_cert = cert, opt_key = key\<rparr>)))"

definition connect :: "('w, 'h) net \<Rightarrow> cluster_ref \<Rightarrow> ('w, store_error, 'h) call" where
  "connect N c =
     and_then
       (case tls c of
          None \<Rightarrow> ok_call None
        | Some t \<Rightarrow> and_then (build_tls_options N t) (\<lambda>opts. ok_call (Some opts)))
       (\<lambda>options. map_err Etcd_err (client_connect N (endpoints c) options))"

text \<open>The \<open>HashMap\<close> of clients is an association list, the latest insertion first.\<close>

record 'h store =
  st_registry :: registry
  st_clients :: "(partition_id \<times> 'h) list"

fun connect_all ::
  "('w, 'h) net \<Rightarrow> (partition_id \<times> 'h) list \<Rightarrow> partition list \<Rightarrow> ('w, store_error, (partition_id \<times> 'h) list) call" where
  "connect_all N acc [] = ok_call acc"
| "connect_all N acc (p # ps) =
     and_then (connect N (cluster p)) (\<lambda>client. connect_all N ((part_id p, client) # acc) ps)"

definition store_connect :: "('w, 'h) net \<Rightarrow> registry \<Rightarrow> ('w, store_error, 'h store) call" where
  "store_connect N reg =
     and_then (connect_all N [] (registry_iter reg)) (\<lambda>clients.
       ok_call \<lparr>st_registry = reg, st_clients = clients\<rparr>)"

fun ping_all :: "('w, 'h) etcd \<Rightarrow> 'h list \<Rightarrow> ('w, store_error, unit) call" where
  "ping_all E [] = ok_call ()"
| "ping_all E (h # hs) = and_then (map_err Etcd_err (etcd_status E h)) (\<lambda>_. ping_all E hs)"

definition ping :: "('w, 'h) etcd \<Rightarrow> 'h store \<Rightarrow> ('w, store_error, unit) call" where
  "ping E st = ping_all E (map snd (st_clients st))"

section \<open>Operations\<close>

definition store_resolve :: "'h store \<Rightarrow> dn \<Rightarrow> store_error + partition" where
  "store_resolve st d =
     (case resolve (st_registry st) d of None \<Rightarrow> Inl (NoPartitionFor (dn_string d)) | Some p \<Rightarrow> Inr p)"

definition client_mut :: "'h store \<Rightarrow> partition_id \<Rightarrow> store_error + 'h" where
  "client_mut st pid =
     (case map_of (st_clients st) pid of None \<Rightarrow> Inl (NotConnected (pid_str pid)) | Some h \<Rightarrow> Inr h)"

text \<open>The first two lines of every method: the partition's id and its client.\<close>

definition with_client ::
  "'h store \<Rightarrow> dn \<Rightarrow> (partition_id \<Rightarrow> 'h \<Rightarrow> ('w, store_error, 'a) call) \<Rightarrow> ('w, store_error, 'a) call" where
  "with_client st d f =
     and_then (lift_call (store_resolve st d)) (\<lambda>p.
     and_then (lift_call (client_mut st (part_id p))) (\<lambda>client.
     f (part_id p) client))"

definition store_put_entry ::
  "('w, 'h) etcd \<Rightarrow> json \<Rightarrow> 'h store \<Rightarrow> dn \<Rightarrow> entry \<Rightarrow> index_spec \<Rightarrow> ('w, store_error, unit) call" where
  "store_put_entry E J st d e spec =
     with_client st d (\<lambda>pid client. put_entry_indexed E J client pid d e spec)"

definition store_create_entry ::
  "('w, 'h) etcd \<Rightarrow> json \<Rightarrow> 'h store \<Rightarrow> dn \<Rightarrow> entry \<Rightarrow> index_spec \<Rightarrow> ('w, store_error, bool) call" where
  "store_create_entry E J st d e spec =
     with_client st d (\<lambda>pid client. create_entry_indexed E J client pid d e spec)"

definition store_get_entry ::
  "('w, 'h) etcd \<Rightarrow> json \<Rightarrow> 'h store \<Rightarrow> dn \<Rightarrow> ('w, store_error, entry option) call" where
  "store_get_entry E J st d =
     with_client st d (\<lambda>pid client.
       and_then (get_entry E client pid d) (\<lambda>bytes.
         case bytes of
           None \<Rightarrow> ok_call None
         | Some b \<Rightarrow> lift_call (map_sum id Some (entry_decode J b))))"

definition store_delete_entry ::
  "('w, 'h) etcd \<Rightarrow> json \<Rightarrow> 'h store \<Rightarrow> dn \<Rightarrow> index_spec \<Rightarrow> ('w, store_error, unit) call" where
  "store_delete_entry E J st d spec =
     with_client st d (\<lambda>pid client. delete_entry_indexed E J client pid d spec)"

definition store_lookup_by_index ::
  "('w, 'h) etcd \<Rightarrow> 'h store \<Rightarrow> dn \<Rightarrow> string \<Rightarrow> string \<Rightarrow> ('w, store_error, dn list) call" where
  "store_lookup_by_index E st d a v =
     with_client st d (\<lambda>pid client. lookup_by_index E client pid a v)"

definition decode_row :: "json \<Rightarrow> partition_id \<Rightarrow> kv \<Rightarrow> store_error + (dn \<times> entry)" where
  "decode_row J pid row =
     (case dn_from_tree_key pid (fst row) of
        Inl e \<Rightarrow> Inl e
      | Inr d \<Rightarrow> (case entry_decode J (snd row) of Inl e \<Rightarrow> Inl e | Inr x \<Rightarrow> Inr (d, x)))"

definition store_scan_subtree ::
  "('w, 'h) etcd \<Rightarrow> json \<Rightarrow> 'h store \<Rightarrow> dn \<Rightarrow> ('w, store_error, (dn \<times> entry) list) call" where
  "store_scan_subtree E J st d =
     with_client st d (\<lambda>pid client.
       and_then (scan_subtree E client pid d) (\<lambda>rows.
         lift_call (collect_result (map (decode_row J pid) rows))))"

definition store_allocate_rid ::
  "('w, 'h) etcd \<Rightarrow> 'h store \<Rightarrow> dn \<Rightarrow> 'w \<Rightarrow> ((store_error + u32) \<times> 'w) option" where
  "store_allocate_rid E st d w =
     (case store_resolve st d of
        Inl e \<Rightarrow> Some (Inl e, w)
      | Inr p \<Rightarrow>
          (case client_mut st (part_id p) of
             Inl e \<Rightarrow> Some (Inl e, w)
           | Inr client \<Rightarrow> allocate_rid E client (part_id p) w))"

section \<open>Connecting\<close>

lemma connect_all_clients:
  assumes "connect_all N acc ps w = (Inr clients, w')"
  shows "map fst clients = rev (map part_id ps) @ map fst acc"
  using assms
proof (induction ps arbitrary: acc w)
  case (Cons p ps)
  then obtain h w0 where "connect_all N ((part_id p, h) # acc) ps w0 = (Inr clients, w')"
    by (auto simp: and_then_eq_Inr)
  from Cons.IH [OF this] show ?case by simp
qed simp

lemma store_connect_complete:
  assumes "store_connect N reg w = (Inr st, w')"
  shows "st_registry st = reg" "p \<in> set (registry_iter reg) \<Longrightarrow> \<exists>h. client_mut st (part_id p) = Inr h"
proof -
  obtain clients w0 where c: "connect_all N [] (registry_iter reg) w = (Inr clients, w0)"
    "st = \<lparr>st_registry = reg, st_clients = clients\<rparr>"
    using assms by (auto simp: store_connect_def and_then_eq_Inr)
  show "st_registry st = reg" using c by simp
  assume "p \<in> set (registry_iter reg)"
  moreover have "fst ` set clients = part_id ` set (registry_iter reg)"
    using arg_cong [OF connect_all_clients [OF c(1)], of set] by simp
  ultimately have "map_of clients (part_id p) \<noteq> None" by (simp add: map_of_eq_None_iff)
  then show "\<exists>h. client_mut st (part_id p) = Inr h" using c(2) by (auto simp: client_mut_def)
qed

section \<open>Isolation of partitions\<close>

text \<open>A call that changes at most keys of one partition.\<close>

definition touches_only :: "('w \<Rightarrow> 'h \<Rightarrow> kvs) \<Rightarrow> partition_id \<Rightarrow> 'h \<Rightarrow> 'w \<Rightarrow> 'w \<Rightarrow> bool" where
  "touches_only cont pid h w w' \<longleftrightarrow>
     cont w' = cont w \<or>
     (\<exists>f. changed cont h f w w' \<and> (\<forall>m k. \<not> prefix (partition_root pid) k \<longrightarrow> f m k = m k))"

fun op_key :: "txn_op \<Rightarrow> string" where
  "op_key (Txn_put k v) = k"
| "op_key (Txn_delete k) = k"

lemma apply_ops_outside: "\<forall>x \<in> set ops. op_key x \<noteq> k \<Longrightarrow> apply_ops ops m k = m k"
proof (induction ops arbitrary: m)
  case (Cons x ops)
  then show ?case by (cases x) auto
qed simp

lemma index_keys_in_partition: "k \<in> set (index_keys_for pid d x spec) \<Longrightarrow> prefix (partition_root pid) k"
  using keys_in_partition(3) by (auto simp: index_keys_for_iff)

lemma txn_touches_only:
  assumes "etcd_ok E cont" "etcd_txn E h cs ops w = (r, w')" "\<forall>x \<in> set ops. prefix (partition_root pid) (op_key x)"
  shows "touches_only cont pid h w w'"
proof -
  have f: "\<forall>m k. \<not> prefix (partition_root pid) k \<longrightarrow> apply_ops ops m k = m k"
    using assms(3) apply_ops_outside by metis
  consider e where "r = Inl e" | "r = Inr True" | "r = Inr False" by (cases r) (metis (full_types))+
  then show ?thesis
  proof cases
    case 1
    then show ?thesis
      using etcd_ok_txn_Inl [OF assms(1) assms(2) [unfolded 1]] f unfolding touches_only_def by blast
  next
    case 2
    then show ?thesis
      using etcd_ok_txn_True [OF assms(1) assms(2) [unfolded 2]] f unfolding touches_only_def by blast
  next
    case 3
    then show ?thesis
      using etcd_ok_txn_False [OF assms(1) assms(2) [unfolded 3]] unfolding touches_only_def by blast
  qed
qed

lemma touches_only_after_read: "cont w0 = cont w \<Longrightarrow> touches_only cont pid h w0 w' \<Longrightarrow> touches_only cont pid h w w'"
  by (auto simp: touches_only_def changed_def)

lemma read_entry_cont:
  assumes "etcd_ok E cont" "read_entry E J h pid d w = (r, w')"
  shows "cont w' = cont w"
proof -
  obtain r0 w0 where g: "store_get E h (entry_key pid d) False w = (r0, w0)" by fastforce
  show ?thesis
    using assms(2) g store_get_ok(1) [OF assms(1) g]
    by (cases r0) (auto simp: read_entry_def and_then_def map_err_def split: list.splits)
qed

lemma put_touches_only:
  assumes "etcd_ok E cont" "put_entry_indexed E J h pid d x spec w = (r, w')"
  shows "touches_only cont pid h w w'"
proof -
  obtain r0 w0 where g: "read_entry E J h pid d w = (r0, w0)" by fastforce
  note c = read_entry_cont [OF assms(1) g]
  show ?thesis
  proof (cases r0)
    case (Inl e)
    then show ?thesis using assms(2) g c by (auto simp: put_entry_indexed_def and_then_def touches_only_def)
  next
    case (Inr old)
    obtain r1 w1 where t: "etcd_txn E h [] (put_ops J pid d x spec old) w0 = (r1, w1)" by fastforce
    have "w' = w1" using assms(2) g Inr t by (cases r1) (auto simp: put_entry_indexed_def and_then_def map_err_def)
    moreover have "\<forall>x \<in> set (put_ops J pid d x spec old). prefix (partition_root pid) (op_key x)"
      using index_keys_in_partition keys_in_partition(1)
      by (auto simp: put_ops_def Let_def split: option.splits)
    ultimately show ?thesis using txn_touches_only [OF assms(1) t] touches_only_after_read [OF c] by blast
  qed
qed

lemma delete_touches_only:
  assumes "etcd_ok E cont" "delete_entry_indexed E J h pid d spec w = (r, w')"
  shows "touches_only cont pid h w w'"
proof -
  obtain r0 w0 where g: "read_entry E J h pid d w = (r0, w0)" by fastforce
  note c = read_entry_cont [OF assms(1) g]
  show ?thesis
  proof (cases "\<exists>x. r0 = Inr (Some x)")
    case False
    then show ?thesis
      using assms(2) g c
      by (cases r0) (auto simp: delete_entry_indexed_def and_then_def touches_only_def split: option.splits)
  next
    case True
    then obtain x where x: "r0 = Inr (Some x)" by blast
    let ?ops = "Txn_delete (entry_key pid d) # map Txn_delete (index_keys_for pid d x spec)"
    obtain r1 w1 where t: "etcd_txn E h [] ?ops w0 = (r1, w1)" by fastforce
    have "w' = w1" using assms(2) g x t by (cases r1) (auto simp: delete_entry_indexed_def and_then_def map_err_def)
    moreover have "\<forall>x \<in> set ?ops. prefix (partition_root pid) (op_key x)"
      using index_keys_in_partition keys_in_partition(1) by auto
    ultimately show ?thesis using txn_touches_only [OF assms(1) t] touches_only_after_read [OF c] by blast
  qed
qed

lemma create_touches_only:
  assumes "etcd_ok E cont" "create_entry_indexed E J h pid d x spec w = (r, w')"
  shows "touches_only cont pid h w w'"
proof -
  let ?ops = "Txn_put (entry_key pid d) (entry_encode J x) #
    map (\<lambda>k. Txn_put k (dn_string d)) (index_keys_for pid d x spec)"
  obtain r1 w1 where t: "etcd_txn E h [Absent (entry_key pid d)] ?ops w = (r1, w1)" by fastforce
  have "w' = w1" using assms(2) t by (cases r1) (auto simp: create_entry_indexed_def map_err_def)
  moreover have "\<forall>x \<in> set ?ops. prefix (partition_root pid) (op_key x)"
    using index_keys_in_partition keys_in_partition(1) by auto
  ultimately show ?thesis using txn_touches_only [OF assms(1) t] by blast
qed

lemma represents_cong:
  assumes "\<And>k. prefix (partition_root pid) k \<Longrightarrow> m k = m' k"
  shows "represents J pid spec m S = represents J pid spec m' S"
proof -
  have "m k = m' k" if "prefix (tree_root pid) k \<or> prefix (idx_root pid) k" for k
    using that by (intro assms) (auto simp: partition_root_def tree_root_def idx_root_def prefix_def)
  then show ?thesis unfolding represents_def by simp
qed

lemma represents_other:
  assumes "touches_only cont pid h w w'" "valid_id (pid_str pid)" "valid_id (pid_str pid')" "pid' \<noteq> pid"
    "represents J pid' spec (cont w h') S"
  shows "represents J pid' spec (cont w' h') S"
proof -
  have "cont w' h' k = cont w h' k" if k: "prefix (partition_root pid') k" for k
  proof -
    have "\<not> prefix (partition_root pid) k" using partition_root_disjoint assms(2-4) k by blast
    then show ?thesis using assms(1) unfolding touches_only_def changed_def by metis
  qed
  then show ?thesis using represents_cong assms(5) by metis
qed

section \<open>The directory across partitions\<close>

definition part_dir :: "registry \<Rightarrow> partition \<Rightarrow> directory \<Rightarrow> directory" where
  "part_dir reg p S = (\<lambda>d. if resolve reg d = Some p then S d else None)"

definition store_represents :: "json \<Rightarrow> index_spec \<Rightarrow> 'h store \<Rightarrow> ('h \<Rightarrow> kvs) \<Rightarrow> directory \<Rightarrow> bool" where
  "store_represents J spec st c S \<longleftrightarrow>
     registry_ok (st_registry st) \<and> (\<forall>d \<in> dom S. resolve (st_registry st) d \<noteq> None) \<and>
     (\<forall>p \<in> set (registry_iter (st_registry st)). \<exists>h. client_mut st (part_id p) = Inr h \<and>
        represents J (part_id p) spec (c h) (part_dir (st_registry st) p S))"

lemma resolve_cong: "dn_eq d e \<Longrightarrow> resolve reg d = resolve reg e"
  by (simp add: resolve_def is_within_suffix dn_eq_norm)

lemma with_client_eq:
  assumes "resolve (st_registry st) d = Some p" "client_mut st (part_id p) = Inr h"
  shows "with_client st d f w = f (part_id p) h w"
  using assms by (simp add: with_client_def store_resolve_def and_then_def)

lemma with_client_None:
  "resolve (st_registry st) d = None \<Longrightarrow> with_client st d f w = (Inl (NoPartitionFor (dn_string d)), w)"
  by (simp add: with_client_def store_resolve_def and_then_def)

lemma store_representsD:
  assumes "store_represents J spec st c S" "resolve (st_registry st) d = Some p"
  obtains h where "client_mut st (part_id p) = Inr h" "p \<in> set (registry_iter (st_registry st))"
    "represents J (part_id p) spec (c h) (part_dir (st_registry st) p S)"
  using assms reg.route_Some [OF assms(2)] unfolding store_represents_def by blast

lemma part_dir_same_spelling: "same_spelling S d \<Longrightarrow> same_spelling (part_dir reg p S) d"
  by (auto simp: same_spelling_def part_dir_def split: if_splits)

lemma part_dir_upd:
  "resolve reg d = Some p \<Longrightarrow> part_dir reg q (S(d := v)) = (if q = p then (part_dir reg p S)(d := v) else part_dir reg q S)"
  by (auto simp: part_dir_def fun_eq_iff)

lemma registry_ids:
  assumes "registry_ok reg" "p \<in> set (registry_iter reg)" "q \<in> set (registry_iter reg)"
  shows "valid_id (pid_str (part_id p))" "part_id p = part_id q \<longleftrightarrow> p = q"
proof -
  have m: "(part_id x, x) \<in> set reg" if "x \<in> set (registry_iter reg)" for x
    using that set_registry_iter registry_get_mem assms(1) by blast
  show "valid_id (pid_str (part_id p))" using m [OF assms(2)] assms(1) by (auto simp: registry_ok_def)
  show "part_id p = part_id q \<longleftrightarrow> p = q"
    using assms set_registry_iter by (metis option.inject)
qed

lemma store_represents_step:
  assumes "store_represents J spec st (cont w) S" "resolve (st_registry st) d = Some p"
    "client_mut st (part_id p) = Inr h" "touches_only cont (part_id p) h w w'"
    "represents J (part_id p) spec (cont w' h) ((part_dir (st_registry st) p S)(d := v))"
  shows "store_represents J spec st (cont w') (S(d := v))"
proof -
  let ?reg = "st_registry st"
  have ok: "registry_ok ?reg" using assms(1) by (simp add: store_represents_def)
  have p: "p \<in> set (registry_iter ?reg)" using reg.route_Some [OF assms(2)] by blast
  have "\<exists>h. client_mut st (part_id q) = Inr h \<and> represents J (part_id q) spec (cont w' h) (part_dir ?reg q (S(d := v)))"
    if q: "q \<in> set (registry_iter ?reg)" for q
  proof (cases "q = p")
    case True
    then show ?thesis using assms(3,5) part_dir_upd [OF assms(2), of p S v] by auto
  next
    case False
    obtain h' where "client_mut st (part_id q) = Inr h'" "represents J (part_id q) spec (cont w h') (part_dir ?reg q S)"
      using assms(1) q unfolding store_represents_def by blast
    moreover have "part_id q \<noteq> part_id p" using registry_ids(2) [OF ok q p] False by simp
    ultimately show ?thesis
      using represents_other [OF assms(4)] registry_ids(1) [OF ok] p q part_dir_upd [OF assms(2), of q S v] False by metis
  qed
  moreover have "\<forall>d' \<in> dom (S(d := v)). resolve ?reg d' \<noteq> None"
    using assms(1,2) by (auto simp: store_represents_def split: if_splits)
  ultimately show ?thesis using ok by (simp add: store_represents_def)
qed

lemma store_represents_step_same:
  assumes "store_represents J spec st (cont w) S" "resolve (st_registry st) d = Some p"
    "client_mut st (part_id p) = Inr h" "touches_only cont (part_id p) h w w'"
    "represents J (part_id p) spec (cont w' h) (part_dir (st_registry st) p S)"
  shows "store_represents J spec st (cont w') S"
proof -
  have "part_dir (st_registry st) p S d = S d" using assms(2) by (simp add: part_dir_def)
  then have "(part_dir (st_registry st) p S)(d := S d) = part_dir (st_registry st) p S"
    by (metis fun_upd_triv)
  then show ?thesis using store_represents_step [OF assms(1-4), of "S d"] assms(5) by simp
qed

lemma store_put_entry_ok:
  assumes "etcd_ok E cont" "json_ok J" "store_represents J spec st (cont w) S"
    "resolve (st_registry st) d = Some p" "tree_clean d" "dn_utf8 (part_id p) d" "same_spelling S d" "entry_ok x"
    "store_put_entry E J st d x spec w = (r, w')"
  shows "r = Inr () \<and> store_represents J spec st (cont w') (S(d \<mapsto> x)) \<or>
    (\<exists>e. r = Inl (Etcd_err e)) \<and>
      (store_represents J spec st (cont w') S \<or> store_represents J spec st (cont w') (S(d \<mapsto> x)))"
proof -
  obtain h where h: "client_mut st (part_id p) = Inr h"
    "represents J (part_id p) spec (cont w h) (part_dir (st_registry st) p S)"
    using store_representsD [OF assms(3,4)] by metis
  have call: "put_entry_indexed E J h (part_id p) d x spec w = (r, w')"
    using assms(9) by (simp add: store_put_entry_def with_client_eq [OF assms(4) h(1)])
  note t = put_touches_only [OF assms(1) call]
  note s = store_represents_step [OF assms(3,4) h(1) t, of "Some x"]
    store_represents_step_same [OF assms(3,4) h(1) t]
  show ?thesis
    using put_entry_indexed_ok [OF assms(1,2) h(2) assms(5,6) part_dir_same_spelling [OF assms(7)] assms(8) call] s by blast
qed

lemma store_delete_entry_ok:
  assumes "etcd_ok E cont" "json_ok J" "store_represents J spec st (cont w) S"
    "resolve (st_registry st) d = Some p" "tree_clean d" "dn_utf8 (part_id p) d" "same_spelling S d"
    "store_delete_entry E J st d spec w = (r, w')"
  shows "r = Inr () \<and> store_represents J spec st (cont w') (S(d := None)) \<or>
    (\<exists>e. r = Inl (Etcd_err e)) \<and>
      (store_represents J spec st (cont w') S \<or> store_represents J spec st (cont w') (S(d := None)))"
proof -
  obtain h where h: "client_mut st (part_id p) = Inr h"
    "represents J (part_id p) spec (cont w h) (part_dir (st_registry st) p S)"
    using store_representsD [OF assms(3,4)] by metis
  have call: "delete_entry_indexed E J h (part_id p) d spec w = (r, w')"
    using assms(8) by (simp add: store_delete_entry_def with_client_eq [OF assms(4) h(1)])
  note t = delete_touches_only [OF assms(1) call]
  note s = store_represents_step [OF assms(3,4) h(1) t, of None]
    store_represents_step_same [OF assms(3,4) h(1) t]
  show ?thesis
    using delete_entry_indexed_ok [OF assms(1,2) h(2) assms(5,6) part_dir_same_spelling [OF assms(7)] call] s by blast
qed

lemma part_dir_dn_eq:
  assumes "resolve reg d = Some p"
  shows "(\<exists>d' \<in> dom (part_dir reg p S). dn_eq d' d) \<longleftrightarrow> (\<exists>d' \<in> dom S. dn_eq d' d)"
    "(\<exists>d'. part_dir reg p S d' = Some x \<and> dn_eq d' d) \<longleftrightarrow> (\<exists>d'. S d' = Some x \<and> dn_eq d' d)"
  using resolve_cong [of _ d reg] assms by (auto simp: part_dir_def split: if_splits)

lemma store_create_entry_ok:
  assumes "etcd_ok E cont" "store_represents J spec st (cont w) S"
    "resolve (st_registry st) d = Some p" "tree_clean d" "dn_utf8 (part_id p) d" "entry_ok x"
    "store_create_entry E J st d x spec w = (r, w')"
  shows "if \<exists>d' \<in> dom S. dn_eq d' d then store_represents J spec st (cont w') S \<and> r \<noteq> Inr True
    else r = Inr True \<and> store_represents J spec st (cont w') (S(d \<mapsto> x)) \<or>
      (\<exists>e. r = Inl (Etcd_err e)) \<and>
      (store_represents J spec st (cont w') S \<or> store_represents J spec st (cont w') (S(d \<mapsto> x)))"
proof -
  obtain h where h: "client_mut st (part_id p) = Inr h"
    "represents J (part_id p) spec (cont w h) (part_dir (st_registry st) p S)"
    using store_representsD [OF assms(2,3)] by metis
  have call: "create_entry_indexed E J h (part_id p) d x spec w = (r, w')"
    using assms(7) by (simp add: store_create_entry_def with_client_eq [OF assms(3) h(1)])
  note t = create_touches_only [OF assms(1) call]
  note s = store_represents_step [OF assms(2,3) h(1) t, of "Some x"]
    store_represents_step_same [OF assms(2,3) h(1) t]
  show ?thesis
    using create_entry_indexed_ok [OF assms(1) h(2) assms(4-6) call] s
    unfolding part_dir_dn_eq(1) [OF assms(3)] by (auto split: if_splits)
qed

lemma store_get_entry_ok:
  assumes "etcd_ok E cont" "json_ok J" "store_represents J spec st (cont w) S" "tree_clean d"
    "resolve (st_registry st) d = Some p" "store_get_entry E J st d w = (r, w')"
  shows "cont w' = cont w"
    "r = Inr y \<Longrightarrow> y = Some x \<longleftrightarrow> (\<exists>d'. S d' = Some x \<and> dn_eq d' d)"
    "r = Inl e \<Longrightarrow> \<exists>e'. e = Etcd_err e'"
proof -
  obtain h where h: "client_mut st (part_id p) = Inr h"
    "represents J (part_id p) spec (cont w h) (part_dir (st_registry st) p S)"
    using store_representsD [OF assms(3,5)] by metis
  obtain r0 w0 where g: "get_entry E h (part_id p) d w = (r0, w0)" by fastforce
  note ge = get_entry_ok [OF assms(1) g]
  define v where "v = cont w h (entry_key (part_id p) d)"
  have val: "v = Some b \<longleftrightarrow> (\<exists>x. (\<exists>d'. S d' = Some x \<and> dn_eq d' d) \<and> b = entry_encode J x)" for b
    unfolding v_def represents_value [OF h(2) assms(4)] using part_dir_dn_eq(2) [OF assms(5), of S] by blast
  have okS: "entry_ok x" if "S d' = Some x" "dn_eq d' d" for d' x
    using represents_cleanD(3) [OF h(2), of d' x] that resolve_cong [OF that(2)] assms(5) by (simp add: part_dir_def)
  have dec: "\<exists>z. entry_decode J b = Inr z \<and> (\<forall>x. (\<exists>d'. S d' = Some x \<and> dn_eq d' d) \<longleftrightarrow> x = z)" if b: "v = Some b" for b
  proof -
    obtain z d' where z: "S d' = Some z" "dn_eq d' d" "b = entry_encode J z" using val b by blast
    have "x = z" if "S d'' = Some x" "dn_eq d'' d" for x d''
    proof -
      have "v = Some (entry_encode J x)" using val that by blast
      then show ?thesis
        using b z(3) entry_decode_encode [OF assms(2)] okS [OF that] okS [OF z(1,2)] by (metis option.inject sum.inject(2))
    qed
    then show ?thesis using z entry_decode_encode [OF assms(2) okS [OF z(1,2)]] by blast
  qed
  have call: "(case r0 of Inl e \<Rightarrow> (Inl e, w0) | Inr None \<Rightarrow> (Inr None, w0) |
      Inr (Some b) \<Rightarrow> (map_sum id Some (entry_decode J b), w0)) = (r, w')"
    using assms(6) unfolding store_get_entry_def with_client_eq [OF assms(5) h(1)] and_then_def g
    by (simp split: sum.splits option.splits)
  show "cont w' = cont w" using call ge(1) by (auto split: sum.splits option.splits)
  show "\<exists>e'. e = Etcd_err e'" if e: "r = Inl e"
  proof (cases r0)
    case (Inr b)
    then have "b = v" using ge(2) v_def by simp
    then show ?thesis using e call Inr dec by (cases b) auto
  qed (use e call ge(3) in auto)
  show "y = Some x \<longleftrightarrow> (\<exists>d'. S d' = Some x \<and> dn_eq d' d)" if y: "r = Inr y"
  proof (cases r0)
    case (Inr b)
    then have b: "b = v" using ge(2) v_def by simp
    show ?thesis
    proof (cases v)
      case None
      then have "y = None" using y call Inr b by simp
      then show ?thesis using None val [of "entry_encode J x"] by blast
    next
      case (Some c)
      then obtain z where z: "entry_decode J c = Inr z" "\<And>x. (\<exists>d'. S d' = Some x \<and> dn_eq d' d) \<longleftrightarrow> x = z"
        using dec by blast
      then have "y = Some z" using y call Inr b Some by simp
      then show ?thesis using z(2) by auto
    qed
  qed (use y call in simp)
qed

lemma decode_row_ok:
  "json_ok J \<Longrightarrow> tree_clean d \<Longrightarrow> entry_ok x \<Longrightarrow> decode_row J pid (entry_key pid d, entry_encode J x) = Inr (dn_folded d, x)"
  by (simp add: decode_row_def dn_from_entry_key entry_decode_encode)

lemma dn_folded_key: "dn_folded d = dn_folded e \<Longrightarrow> entry_key pid d = entry_key pid e"
  using dn_folded_eq by (metis dn_eq_norm entry_key_def reversed_components_norm)

lemma collect_rows:
  assumes "\<And>row. row \<in> set rows \<Longrightarrow> f row = Inr (g row)"
  shows "collect_result (map f rows) = Inr (map g rows)"
  using assms by (simp add: collect_result_eq_Inr)

lemma store_scan_subtree_ok:
  assumes "etcd_ok E cont" "json_ok J" "store_represents J spec st (cont w) S" "tree_clean d" "rdns d \<noteq> []"
    "resolve (st_registry st) d = Some p" "store_scan_subtree E J st d w = (r, w')"
  shows "cont w' = cont w"
    "r = Inr rows \<Longrightarrow> distinct (map fst rows) \<and>
       set rows = {(dn_folded d', x) | d' x. S d' = Some x \<and> is_within d' d \<and> resolve (st_registry st) d' = Some p}"
    "r = Inl e \<Longrightarrow> \<exists>e'. e = Etcd_err e'"
proof -
  let ?S = "part_dir (st_registry st) p S"
  obtain h where h: "client_mut st (part_id p) = Inr h" "represents J (part_id p) spec (cont w h) ?S"
    using store_representsD [OF assms(3,6)] by metis
  obtain r0 w0 where g: "scan_subtree E h (part_id p) d w = (r0, w0)" by fastforce
  note sc = scan_subtree_ok [OF assms(1) h(2) assms(4,5) g]
  define f where "f row = projr (decode_row J (part_id p) row)" for row
  have row: "\<exists>d' x. row = (entry_key (part_id p) d', entry_encode J x) \<and> ?S d' = Some x \<and> is_within d' d \<and>
      decode_row J (part_id p) row = Inr (f row) \<and> f row = (dn_folded d', x)"
    if rs: "r0 = Inr rs" and mem: "row \<in> set rs" for rs row
  proof -
    obtain d' x where "row = (entry_key (part_id p) d', entry_encode J x)" "?S d' = Some x" "is_within d' d"
      using sc(2) [OF rs] mem by blast
    then show ?thesis
      using decode_row_ok [OF assms(2)] represents_cleanD [OF h(2)] unfolding f_def by fastforce
  qed
  have call: "(r, w') = (map_sum id (map f) r0, w0)"
  proof (cases r0)
    case (Inr rs)
    have "collect_result (map (decode_row J (part_id p)) rs) = Inr (map f rs)"
      using row [OF Inr] by (intro collect_rows) blast
    then show ?thesis
      using assms(7) Inr g by (simp add: store_scan_subtree_def with_client_eq [OF assms(6) h(1)] and_then_def)
  qed (use assms(7) g in \<open>simp add: store_scan_subtree_def with_client_eq [OF assms(6) h(1)] and_then_def\<close>)
  show "cont w' = cont w" using call sc(1) by simp
  show "\<exists>e'. e = Etcd_err e'" if "r = Inl e" using that call sc(3) by (cases r0) auto
  assume "r = Inr rows"
  then obtain rs where rs: "r0 = Inr rs" "rows = map f rs" using call by (cases r0) auto
  have "set rows = {(dn_folded d', x) | d' x. ?S d' = Some x \<and> is_within d' d}"
  proof (intro equalityI subsetI)
    fix q assume "q \<in> set rows"
    then show "q \<in> {(dn_folded d', x) | d' x. ?S d' = Some x \<and> is_within d' d}"
      using row [OF rs(1)] rs(2) by fastforce
  next
    fix q assume "q \<in> {(dn_folded d', x) | d' x. ?S d' = Some x \<and> is_within d' d}"
    then obtain d' x where q: "q = (dn_folded d', x)" "?S d' = Some x" "is_within d' d" by blast
    let ?row = "(entry_key (part_id p) d', entry_encode J x)"
    have "?row \<in> set rs" using sc(2) [OF rs(1)] q by blast
    moreover have "f ?row = q"
      using decode_row_ok [OF assms(2)] represents_cleanD [OF h(2) q(2)] q(1) by (simp add: f_def)
    ultimately show "q \<in> set rows" using rs(2) by (metis image_eqI set_map)
  qed
  moreover have "inj_on (fst \<circ> f) (set rs)"
  proof (rule inj_onI)
    fix a b assume a: "a \<in> set rs" and b: "b \<in> set rs" and eq: "(fst \<circ> f) a = (fst \<circ> f) b"
    obtain d1 d2 where "fst a = entry_key (part_id p) d1" "fst (f a) = dn_folded d1"
      "fst b = entry_key (part_id p) d2" "fst (f b) = dn_folded d2"
      using row [OF rs(1) a] row [OF rs(1) b] by (metis fst_conv)
    with eq have "fst a = fst b" using dn_folded_key [of d1 d2] by simp
    moreover have "distinct (map fst rs)" using sc(2) [OF rs(1)] strict_sorted_iff by blast
    ultimately show "a = b" using a b by (metis distinct_map inj_on_eq_iff)
  qed
  moreover have "distinct rs" using sc(2) [OF rs(1)] strict_sorted_iff distinct_map by blast
  ultimately show "distinct (map fst rows) \<and>
       set rows = {(dn_folded d', x) | d' x. S d' = Some x \<and> is_within d' d \<and> resolve (st_registry st) d' = Some p}"
    using rs(2) by (auto simp: distinct_map part_dir_def comp_def split: if_splits)
qed

lemma store_lookup_by_index_ok:
  assumes "etcd_ok E cont" "store_represents J spec st (cont w) S" "resolve (st_registry st) d = Some p"
    "store_lookup_by_index E st d a v w = (r, w')"
  shows "cont w' = cont w"
    "r = Inr ds \<Longrightarrow> distinct ds \<and> set ds = {d. \<exists>x. S d = Some x \<and> resolve (st_registry st) d = Some p \<and>
       (\<exists>a' \<in> set (spec_attrs spec). eq_ignore_ascii_case a' a) \<and> v \<in> set (entry_vals x a)}"
    "r = Inl e \<Longrightarrow> \<exists>e'. e = Etcd_err e'"
proof -
  let ?S = "part_dir (st_registry st) p S"
  obtain h where h: "client_mut st (part_id p) = Inr h" "represents J (part_id p) spec (cont w h) ?S"
    using store_representsD [OF assms(2,3)] by metis
  have call: "lookup_by_index E h (part_id p) a v w = (r, w')"
    using assms(4) by (simp add: store_lookup_by_index_def with_client_eq [OF assms(3) h(1)])
  note l = lookup_by_index_ok [OF assms(1) h(2) call]
  show "cont w' = cont w" "r = Inl e \<Longrightarrow> \<exists>e'. e = Etcd_err e'" using l(1,3) by blast+
  show "r = Inr ds \<Longrightarrow> distinct ds \<and> set ds = {d. \<exists>x. S d = Some x \<and> resolve (st_registry st) d = Some p \<and>
       (\<exists>a' \<in> set (spec_attrs spec). eq_ignore_ascii_case a' a) \<and> v \<in> set (entry_vals x a)}"
    using l(2) by (auto simp: part_dir_def split: if_splits)
qed

end
