(* ===== verification/Instances.thy ===== *)
theory Instances
  imports Store
begin

text \<open>
  Concrete services for the code that lies outside: an in-memory key-value service, a codec for
  entries and a codec for binary values. They meet the assumptions the lemmas make about the
  real services, so the assumptions can hold, and they let the properties be applied to concrete
  data.
\<close>

section \<open>A key-value service\<close>

type_synonym mem = "kv list"

definition mem_rows :: "mem \<Rightarrow> kv list" where
  "mem_rows w = map (\<lambda>k. (k, the (map_of w k))) (sort (remdups (map fst w)))"

definition mem_cont :: "mem \<Rightarrow> unit \<Rightarrow> kvs" where
  "mem_cont w h = map_of w"

fun mem_op :: "txn_op \<Rightarrow> mem \<Rightarrow> mem" where
  "mem_op (Txn_put k v) w = (k, v) # w"
| "mem_op (Txn_delete k) w = filter (\<lambda>x. fst x \<noteq> k) w"

definition mem_etcd :: "(mem, unit) etcd" where
  "mem_etcd =
     \<lparr>etcd_get = (\<lambda>h k p w. (Inr (filter (\<lambda>x. if p then prefix k (fst x) else fst x = k) (mem_rows w)), w)),
      etcd_put = (\<lambda>h k v w. (Inr (), (k, v) # w)),
      etcd_txn = (\<lambda>h cs ops w.
        if list_all (compare_holds (map_of w)) cs then (Inr True, fold mem_op ops w) else (Inr False, w)),
      etcd_status = (\<lambda>h w. (Inr (), w))\<rparr>"

lemma map_of_filter_key: "map_of (filter (\<lambda>x. fst x \<noteq> k) w) = (map_of w)(k := None)"
  by (induction w) (auto simp: fun_eq_iff)

lemma mem_op_apply: "map_of (mem_op x w) = apply_op x (map_of w)"
  by (cases x) (simp_all add: map_of_filter_key)

lemma mem_ops_apply: "map_of (fold mem_op ops w) = apply_ops ops (map_of w)"
  by (induction ops arbitrary: w) (simp_all add: mem_op_apply)

lemma set_mem_rows: "set (mem_rows w) = {(k, v). map_of w k = Some v}"
proof -
  have "(k, v) \<in> set (mem_rows w) \<longleftrightarrow> map_of w k = Some v" for k v
  proof (cases "map_of w k")
    case None
    then have "k \<notin> fst ` set w" by (simp add: map_of_eq_None_iff)
    with None show ?thesis by (auto simp: mem_rows_def)
  next
    case (Some u)
    then have "k \<in> fst ` set w" by (metis map_of_eq_None_iff option.distinct(1))
    with Some show ?thesis by (auto simp: mem_rows_def image_iff)
  qed
  then show ?thesis by auto
qed

lemma sorted_wrt_filter_keys:
  "sorted_wrt (<) (map fst xs) \<Longrightarrow> sorted_wrt (<) (map fst (filter P xs))"
  by (induction xs) auto

lemma mem_rows_sorted: "sorted_wrt (<) (map fst (mem_rows w))"
  by (simp add: mem_rows_def comp_def strict_sorted_iff)

lemma mem_etcd_ok: "etcd_ok mem_etcd mem_cont"
  unfolding etcd_ok_def
  by (auto simp: mem_etcd_def get_answer_def set_mem_rows mem_rows_sorted sorted_wrt_filter_keys mem_cont_def
      changed_def mem_ops_apply split: if_splits)

section \<open>A codec for entries\<close>

lemma of_char_bound: "of_char c < (256 :: nat)"
  using unat_bound [of "of_char c :: 8 word"] by simp

definition hex_char :: "char \<Rightarrow> string" where
  "hex_char c = [char_of (65 + of_char c div 16 :: nat), char_of (65 + of_char c mod 16 :: nat)]"

definition hex_str :: "string \<Rightarrow> string" where
  "hex_str s = concat (map hex_char s)"

fun unhex :: "string \<Rightarrow> string" where
  "unhex (a # b # s) = char_of (16 * (of_char a - 65) + (of_char b - 65) :: nat) # unhex s"
| "unhex _ = []"

definition hex_line :: "string \<times> string list \<Rightarrow> string" where
  "hex_line kv = CHR ''L'' # join '','' (map hex_str (fst kv # snd kv))"

definition unhex_line :: "string \<Rightarrow> string \<times> string list" where
  "unhex_line s = (let ps = map unhex (split_char (CHR '','') (tl s)) in (hd ps, tl ps))"

definition hex_json :: json where
  "hex_json =
     \<lparr>json_encode = (\<lambda>e. join '';'' (map hex_line (attrs e))),
      json_decode = (\<lambda>s. Inr (Entry (if s = [] then [] else map unhex_line (split_char (CHR '';'') s))))\<rparr>"

lemma hex_char_chars: "c \<in> set (hex_char d) \<Longrightarrow> c \<noteq> CHR '','' \<and> c \<noteq> CHR '';''"
proof -
  have "of_char d < (256 :: nat)" by (rule of_char_bound)
  then have "of_char d div 16 < (16 :: nat)" using less_mult_imp_div_less [of "of_char d" 16 16] by simp
  then show "c \<in> set (hex_char d) \<Longrightarrow> c \<noteq> CHR '','' \<and> c \<noteq> CHR '';''"
    by (auto simp: hex_char_def dest!: arg_cong [where f = "of_char :: char \<Rightarrow> nat"] split: if_splits)
qed

lemma unhex_hex [simp]: "unhex (hex_str s) = s"
proof (induction s)
  case (Cons c s)
  have "of_char c < (256 :: nat)" by (rule of_char_bound)
  then have "of_char c div 16 < (16 :: nat)" using less_mult_imp_div_less [of "of_char c" 16 16] by simp
  then show ?case using Cons by (simp add: hex_str_def hex_char_def)
qed (simp add: hex_str_def)

lemma unhex_line_hex: "unhex_line (hex_line kv) = kv"
proof -
  have "split_char (CHR '','') (join '','' (map hex_str (fst kv # snd kv))) = map hex_str (fst kv # snd kv)"
    by (intro split_char_join) (auto simp: hex_str_def dest: hex_char_chars)
  then show ?thesis by (simp add: unhex_line_def hex_line_def comp_def)
qed

lemma join_chars: "c \<in> set (join sep xs) \<Longrightarrow> c \<in> set sep \<or> (\<exists>x \<in> set xs. c \<in> set x)"
  by (induction xs) (auto simp: join_Cons split: if_splits)

lemma hex_json_ok: "json_ok hex_json"
proof -
  have "json_decode hex_json (json_encode hex_json e) = Inr e" for e
  proof (cases "attrs e = []")
    case True
    then show ?thesis by (cases e) (simp add: hex_json_def)
  next
    case False
    have "CHR '';'' \<notin> set (hex_line kv)" for kv
      by (auto simp: hex_line_def hex_str_def dest!: join_chars hex_char_chars)
    then have "split_char (CHR '';'') (join '';'' (map hex_line (attrs e))) = map hex_line (attrs e)"
      using False by (intro split_char_join) auto
    moreover have "join '';'' (map hex_line (attrs e)) \<noteq> []"
      using False by (cases "attrs e") (auto simp: join_Cons hex_line_def)
    ultimately show ?thesis by (cases e) (simp add: hex_json_def comp_def unhex_line_hex)
  qed
  then show ?thesis by (simp add: json_ok_def)
qed

section \<open>A codec for binary values\<close>

definition hex_base64 :: base64 where
  "hex_base64 =
     \<lparr>b64_encode = (\<lambda>bs. hex_str (map (\<lambda>b. char_of (unat b)) bs)),
      b64_decode = (\<lambda>s. Some (as_bytes (unhex s)))\<rparr>"

section \<open>A store\<close>

definition demo_ava :: "string \<Rightarrow> string \<Rightarrow> ava" where
  "demo_ava a v = \<lparr>attr = a, val = v, norm_value = to_ascii_lowercase v\<rparr>"

definition demo_base :: dn where
  "demo_base = Dn [Rdn [demo_ava ''dc'' ''lo'']]"

definition demo_dn :: dn where
  "demo_dn = Dn [Rdn [demo_ava ''cn'' ''Al''], Rdn [demo_ava ''dc'' ''lo'']]"

definition demo_entry :: entry where
  "demo_entry = Entry [(''cn'', [''Al''])]"

definition demo_partition :: partition where
  "demo_partition = new_partition (PartitionId ''p'') (ForestId ''f'') demo_base Domain None (plaintext [''e''])"

definition demo_store :: "unit store" where
  "demo_store = \<lparr>st_registry = [(PartitionId ''p'', demo_partition)], st_clients = [(PartitionId ''p'', ())]\<rparr>"

lemma demo_resolve:
  "resolve (st_registry demo_store) demo_dn = Some demo_partition"
  "resolve (st_registry demo_store) demo_base = Some demo_partition"
  by code_simp+

lemma demo_clean: "tree_clean demo_dn" "tree_clean demo_base" "dn_utf8 (part_id demo_partition) demo_dn"
  by code_simp+

lemma demo_entry_ok: "entry_ok demo_entry"
  by code_simp

lemma demo_represents: "store_represents hex_json spec demo_store (mem_cont []) Map.empty"
proof -
  have "registry_ok (st_registry demo_store)" by code_simp
  then show ?thesis
    by (auto simp: store_represents_def demo_store_def registry_iter_def bt_values_def client_mut_def
        demo_partition_def new_partition_def represents_def directory_ok_def part_dir_def mem_cont_def
        tree_rows_def index_rows_def)
qed

definition demo_spec :: index_spec where
  "demo_spec = IndexSpec [''cn'']"

definition demo_world :: mem where
  "demo_world = snd (store_put_entry mem_etcd hex_json demo_store demo_dn demo_entry demo_spec [])"

lemma demo_same_spelling: "same_spelling Map.empty d" "same_spelling [d \<mapsto> x] d"
  by (simp_all add: same_spelling_def)

lemma demo_world_represents: "store_represents hex_json demo_spec demo_store (mem_cont demo_world) [demo_dn \<mapsto> demo_entry]"
proof -
  have e: "store_put_entry mem_etcd hex_json demo_store demo_dn demo_entry demo_spec [] = (Inr (), demo_world)"
    unfolding demo_world_def by code_simp
  from store_put_entry_ok [OF mem_etcd_ok hex_json_ok demo_represents demo_resolve(1) demo_clean(1,3)
      demo_same_spelling(1) demo_entry_ok e]
  show ?thesis by blast
qed

end
