(* ===== verification/Sid.thy ===== *)
theory Sid
  imports Prelude
begin

text \<open>
  Windows security identifiers (crates/partition/src/sid.rs): the binary form of MS-DTYP 2.4.2,
  with a big-endian authority and little-endian sub-authorities, and the \<open>S-1-...\<close> text form.
\<close>

record sid =
  revision :: u8
  authority :: u64
  sub_authorities :: "u32 list"

definition NT_AUTHORITY :: u64 where
  "NT_AUTHORITY = 5"

definition sid_new :: "u64 \<Rightarrow> u32 list \<Rightarrow> sid" where
  "sid_new a subs = \<lparr>revision = 1, authority = a, sub_authorities = subs\<rparr>"

definition with_sub_authority :: "sid \<Rightarrow> u32 \<Rightarrow> sid" where
  "with_sub_authority s extra =
     \<lparr>revision = revision s, authority = authority s, sub_authorities = sub_authorities s @ [extra]\<rparr>"

definition sid_encode :: "sid \<Rightarrow> bytes" where
  "sid_encode s =
     revision s # of_nat (length (sub_authorities s)) # drop 2 (to_be 8 (authority s)) @
     concat (map (to_le 4) (sub_authorities s))"

definition sid_decode :: "bytes \<Rightarrow> sid option" where
  "sid_decode bs =
     (if length bs < 8 then None
      else let count = unat (bs ! 1) in
        if length bs \<noteq> 8 + 4 * count then None
        else Some \<lparr>revision = bs ! 0, authority = of_be ([0, 0] @ take 6 (drop 2 bs)),
                   sub_authorities = map of_le (chunks_exact 4 (drop 8 bs))\<rparr>)"

definition sid_parse :: "string \<Rightarrow> sid option" where
  "sid_parse s =
     (case split_char (CHR ''-'') s of
        p0 # p1 # p2 # rest \<Rightarrow>
          if p0 \<noteq> ''S'' then None
          else Option.bind (parse_uint 8 p1) (\<lambda>r.
               Option.bind (parse_uint 64 p2) (\<lambda>a.
               Option.bind (collect_option (map (parse_uint 32) rest)) (\<lambda>subs.
               Some \<lparr>revision = of_nat r, authority = of_nat a, sub_authorities = map of_nat subs\<rparr>)))
      | _ \<Rightarrow> None)"

definition sid_string :: "sid \<Rightarrow> string" where
  "sid_string s =
     ''S-'' @ nat_str (unat (revision s)) @ ''-'' @ nat_str (unat (authority s)) @
     concat (map (\<lambda>sa. ''-'' @ nat_str (unat sa)) (sub_authorities s))"

section \<open>Binary form\<close>

text \<open>The identifiers the binary form can carry: at most 255 sub-authorities, a 48-bit authority.\<close>

definition sid_ok :: "sid \<Rightarrow> bool" where
  "sid_ok s \<longleftrightarrow> length (sub_authorities s) \<le> 255 \<and> authority s < 2 ^ 48"

lemma length_concat_to_le [simp]: "length (concat (map (to_le n) xs)) = n * length xs"
  by (induction xs) auto

lemma length_sid_encode: "length (sid_encode s) = 8 + 4 * length (sub_authorities s)"
  by (simp add: sid_encode_def)

lemma chunks_of_le: "chunks_exact 4 (concat (map (to_le 4) xs)) = map (to_le 4) xs"
  by (induction xs) (simp_all add: chunks_exact.simps)

lemma word_less_pow_iff:
  fixes w :: "'a::len word"
  assumes "n < LENGTH('a)"
  shows "w < 2 ^ n \<longleftrightarrow> drop_bit n w = 0"
proof -
  have "unat (2 ^ n :: 'a word) = 2 ^ n" using assms unat_of_nat [of "2 ^ n", where ?'a = 'a] by simp
  then have "w < 2 ^ n \<longleftrightarrow> unat w div 2 ^ n = 0"
    by (simp add: word_less_nat_alt div_eq_0_iff)
  also have "\<dots> \<longleftrightarrow> drop_bit n w = 0"
    by (metis drop_bit_eq_div unat_drop_bit_eq unat_eq_zero)
  finally show ?thesis .
qed

lemma to_be_high_zero:
  fixes w :: u64
  assumes "w < 2 ^ 48"
  shows "to_be 8 w = [0, 0] @ drop 2 (to_be 8 w)"
proof -
  have z': "drop_bit 48 w = 0" using assms word_less_pow_iff [of 48 w] by simp
  have "ucast (drop_bit 48 w) = (0 :: u8)" "ucast (drop_bit 56 w) = (0 :: u8)"
    using z' drop_bit_drop_bit [of 8 48 w] by simp_all
  then show ?thesis by (simp add: to_be_def eval_nat_numeral drop_bit_drop_bit)
qed

lemma sid_decode_encode:
  assumes "sid_ok s"
  shows "sid_decode (sid_encode s) = Some s"
proof -
  have n: "unat (of_nat (length (sub_authorities s)) :: u8) = length (sub_authorities s)"
    using assms by (simp add: sid_ok_def unat_of_nat)
  have "take 6 (drop 2 (sid_encode s)) = drop 2 (to_be 8 (authority s))"
    "drop 8 (sid_encode s) = concat (map (to_le 4) (sub_authorities s))"
    by (simp_all add: sid_encode_def)
  moreover have "of_be ([0, 0] @ drop 2 (to_be 8 (authority s))) = authority s"
    using to_be_high_zero [of "authority s"] assms of_be_to_be_id [of 8 "authority s"] by (simp add: sid_ok_def)
  ultimately show ?thesis
    using n length_sid_encode [of s]
    by (simp add: sid_decode_def chunks_of_le comp_def) (simp add: sid_encode_def)
qed

lemma concat_chunks: "0 < n \<Longrightarrow> n dvd length xs \<Longrightarrow> concat (chunks_exact n xs) = xs"
  by (induction n xs rule: chunks_exact.induct)
     (subst chunks_exact.simps, auto simp: dvd_minus_self dest: nat_dvd_not_less)

lemma chunks_length: "c \<in> set (chunks_exact n xs) \<Longrightarrow> length c = n"
  by (induction n xs rule: chunks_exact.induct) (subst (asm) chunks_exact.simps, auto split: if_splits)

lemma length_chunks: "0 < n \<Longrightarrow> length (chunks_exact n xs) = length xs div n"
  by (induction n xs rule: chunks_exact.induct)
     (subst chunks_exact.simps, auto simp: le_div_geq)

lemma sid_encode_decode:
  assumes "sid_decode bs = Some s"
  shows "sid_encode s = bs \<and> sid_ok s"
proof -
  have l: "length bs = 8 + 4 * unat (bs ! 1)" and
    s: "s = \<lparr>revision = bs ! 0, authority = of_be ([0, 0] @ take 6 (drop 2 bs)),
             sub_authorities = map of_le (chunks_exact 4 (drop 8 bs))\<rparr>"
    using assms by (auto simp: sid_decode_def Let_def split: if_splits)
  have n: "length (chunks_exact 4 (drop 8 bs)) = unat (bs ! 1)" using l by (simp add: length_chunks)
  have le: "to_le 4 (of_le c :: u32) = c" if "length c = 4" for c
    using to_le_of_le [of c, where ?'a = 32] that by simp
  have "map (to_le 4 \<circ> (of_le :: bytes \<Rightarrow> u32)) (chunks_exact 4 (drop 8 bs)) = chunks_exact 4 (drop 8 bs)"
    by (intro map_idI) (simp add: le chunks_length)
  then have subs: "concat (map (to_le 4) (sub_authorities s)) = drop 8 bs"
    using l by (simp add: s concat_chunks comp_def)
  have "to_be 8 (of_be ([0, 0] @ take 6 (drop 2 bs)) :: u64) = [0, 0] @ take 6 (drop 2 bs)"
    using to_be_of_be [of "[0, 0] @ take 6 (drop 2 bs)", where ?'a = 64] l by simp
  then have auth: "drop 2 (to_be 8 (authority s)) = take 6 (drop 2 bs)" by (simp add: s)
  have "bs = bs ! 0 # bs ! 1 # take 6 (drop 2 bs) @ drop 8 bs"
    using l by (cases bs; cases "tl bs") (auto simp: drop_drop simp flip: append_take_drop_id [of 6])
  then have "sid_encode s = bs" using subs auth n by (simp add: sid_encode_def) (simp add: s)
  moreover have "length (sub_authorities s) \<le> 255"
    using n unat_bound [of "bs ! 1"] by (simp add: s)
  moreover have "authority s < 2 ^ 48"
  proof -
    have "authority s = of_le (rev (take 6 (drop 2 bs)))" using of_le_append_zero [of "rev (take 6 (drop 2 bs)) @ [0]", where ?'a = 64] by (simp add: s of_be_def)
    then have "drop_bit 48 (authority s) = 0"
      using bit_of_le [of "rev (take 6 (drop 2 bs))", where ?'a = 64] l
      by (intro bit_word_eqI) (fastforce simp: bit_simps)
    then show ?thesis using word_less_pow_iff [of 48 "authority s"] by simp
  qed
  ultimately show ?thesis by (simp add: sid_ok_def)
qed

section \<open>Text form\<close>

lemma sid_string_join:
  "sid_string s = join ''-'' (''S'' # nat_str (unat (revision s)) # nat_str (unat (authority s)) #
     map (\<lambda>sa. nat_str (unat sa)) (sub_authorities s))"
proof -
  have "concat (map (\<lambda>sa. ''-'' @ nat_str (unat sa)) xs) =
      (if xs = [] then [] else ''-'' @ join ''-'' (map (\<lambda>sa. nat_str (unat sa)) xs))" for xs :: "u32 list"
    by (induction xs) (auto simp: join_Cons)
  then show ?thesis by (simp add: sid_string_def join_Cons)
qed

lemma sid_parse_string: "sid_parse (sid_string s) = Some s"
proof -
  have "split_char (CHR ''-'') (sid_string s) = ''S'' # nat_str (unat (revision s)) # nat_str (unat (authority s)) #
     map (\<lambda>sa. nat_str (unat sa)) (sub_authorities s)"
    unfolding sid_string_join by (intro split_char_join) (auto dest!: nat_str_chars simp: is_ascii_digit_def less_eq_char_def)
  moreover have "parse_uint 32 (nat_str (unat x)) = Some (unat x)" for x :: u32
    using unat_bound [of x] by (simp add: parse_uint_nat_str)
  moreover have "collect_option (map (\<lambda>x. Some (unat x)) xs) = Some (map unat xs)" for xs :: "u32 list"
    by (simp add: collect_option_eq_Some)
  ultimately show ?thesis
    using unat_bound [of "revision s"] unat_bound [of "authority s"]
    by (simp add: sid_parse_def parse_uint_nat_str comp_def)
qed

end
