(* ===== verification/Secdesc.thy ===== *)
theory Secdesc
  imports Sid
begin

text \<open>
  The default \<open>nTSecurityDescriptor\<close> (crates/partition/src/security_descriptor.rs): a self-relative
  MS-DTYP security descriptor with an owner, a group and a two-entry access list, and its decoder.
\<close>

definition SE_DACL_PRESENT :: u16 where
  "SE_DACL_PRESENT = 0x0004"

definition SE_SELF_RELATIVE :: u16 where
  "SE_SELF_RELATIVE = 0x8000"

definition ACCESS_ALLOWED_ACE_TYPE :: u8 where
  "ACCESS_ALLOWED_ACE_TYPE = 0x00"

definition GENERIC_ALL :: u32 where
  "GENERIC_ALL = 0x10000000"

definition GENERIC_READ :: u32 where
  "GENERIC_READ = 0x80000000"

definition authenticated_users :: sid where
  "authenticated_users = sid_new NT_AUTHORITY [11]"

definition build_ace :: "u32 \<Rightarrow> sid \<Rightarrow> bytes" where
  "build_ace msk trustee =
     (let sid_bytes = sid_encode trustee; size = 8 + length sid_bytes in
      [ACCESS_ALLOWED_ACE_TYPE, 0] @ to_le 2 (of_nat size :: u16) @ to_le 4 msk @ sid_bytes)"

definition build_dacl :: "(u32 \<times> sid) list \<Rightarrow> bytes" where
  "build_dacl aces =
     (let bodies = map (\<lambda>(msk, s). build_ace msk s) aces;
          body_len = sum_list (map length bodies);
          acl_size = 8 + body_len in
      [2, 0] @ to_le 2 (of_nat acl_size :: u16) @ to_le 2 (of_nat (length aces) :: u16) @
      to_le 2 (0 :: u16) @ concat bodies)"

definition HEADER_LEN :: u32 where
  "HEADER_LEN = 1 + 1 + 2 + 4 * 4"

definition default_descriptor :: "sid \<Rightarrow> bytes" where
  "default_descriptor domain_sid =
     (let domain_admins = with_sub_authority domain_sid 512;
          dacl = build_dacl [(GENERIC_ALL, domain_admins), (GENERIC_READ, authenticated_users)];
          owner = sid_encode domain_admins;
          group = sid_encode domain_admins;
          offset_dacl = HEADER_LEN;
          offset_owner = offset_dacl + of_nat (length dacl);
          offset_group = offset_owner + of_nat (length owner);
          offset_sacl = (0 :: u32);
          control = SE_DACL_PRESENT OR SE_SELF_RELATIVE in
      [1, 0] @ to_le 2 control @ to_le 4 offset_owner @ to_le 4 offset_group @ to_le 4 offset_sacl @
      to_le 4 offset_dacl @ dacl @ owner @ group)"

record decoded_ace =
  ace_mask :: u32
  ace_trustee :: sid

record decoded_descriptor =
  sd_owner :: sid
  sd_group :: sid
  sd_dacl :: "decoded_ace list"

definition decode_sid_at :: "bytes \<Rightarrow> nat \<Rightarrow> sid option" where
  "decode_sid_at bs off =
     Option.bind (slice bs off (off + 2)) (\<lambda>header.
       let count = unat (header ! 1); len = 8 + 4 * count in
       Option.bind (slice bs off (off + len)) sid_decode)"

text \<open>The loop over the declared number of entries; the position advances by each entry's own size.\<close>

fun decode_aces :: "nat \<Rightarrow> bytes \<Rightarrow> nat \<Rightarrow> decoded_ace list option" where
  "decode_aces 0 bs pos = Some []"
| "decode_aces (Suc n) bs pos =
     Option.bind (slice bs pos (pos + 4)) (\<lambda>ace_header.
     let ace_size = unat (of_le (take 2 (drop 2 ace_header)) :: u16) in
     Option.bind (slice bs (pos + 4) (pos + 8)) (\<lambda>m.
     Option.bind (decode_sid_at bs (pos + 8)) (\<lambda>trustee.
     Option.bind (decode_aces n bs (pos + ace_size)) (\<lambda>aces.
     Some (\<lparr>ace_mask = of_le m, ace_trustee = trustee\<rparr> # aces)))))"

definition decode_dacl_at :: "bytes \<Rightarrow> nat \<Rightarrow> decoded_ace list option" where
  "decode_dacl_at bs off =
     Option.bind (slice bs off (off + 8)) (\<lambda>header.
       decode_aces (unat (of_le (take 2 (drop 4 header)) :: u16)) bs (off + 8))"

definition sd_decode :: "bytes \<Rightarrow> decoded_descriptor option" where
  "sd_decode bs =
     (if length bs < unat HEADER_LEN then None
      else let control = of_le (take 2 (drop 2 bs)) :: u16 in
        if control AND SE_SELF_RELATIVE = 0 then None
        else
          let offset_owner = unat (of_le (take 4 (drop 4 bs)) :: u32);
              offset_group = unat (of_le (take 4 (drop 8 bs)) :: u32);
              offset_dacl = unat (of_le (take 4 (drop 16 bs)) :: u32) in
          Option.bind (decode_sid_at bs offset_owner) (\<lambda>own.
          Option.bind (decode_sid_at bs offset_group) (\<lambda>grp.
          Option.bind
            (if control AND SE_DACL_PRESENT \<noteq> 0 \<and> offset_dacl \<noteq> 0
             then decode_dacl_at bs offset_dacl else Some []) (\<lambda>dacl.
          Some \<lparr>sd_owner = own, sd_group = grp, sd_dacl = dacl\<rparr>))))"

section \<open>Decoding what was built\<close>

lemma slice_mid: "a = length pre \<Longrightarrow> b = a + length xs \<Longrightarrow> slice (pre @ xs @ post) a b = Some xs"
  by (simp add: slice_def)

lemma slice_take_mid:
  "a = length pre \<Longrightarrow> b = a + n \<Longrightarrow> n \<le> length xs \<Longrightarrow> slice (pre @ xs @ post) a b = Some (take n xs)"
  by (simp add: slice_def)

lemma decode_sid_at_encode:
  assumes "sid_ok s" "n = length pre"
  shows "decode_sid_at (pre @ sid_encode s @ post) n = Some s"
proof -
  let ?n = "length (sub_authorities s)"
  have "slice (pre @ sid_encode s @ post) n (n + 2) = Some [revision s, of_nat ?n]"
    using assms by (subst slice_take_mid [of _ _ _ 2]) (simp_all add: sid_encode_def)
  moreover have "unat (of_nat ?n :: u8) = ?n"
    using assms by (simp add: sid_ok_def unat_of_nat)
  moreover have "slice (pre @ sid_encode s @ post) n (n + (8 + 4 * ?n)) = Some (sid_encode s)"
    using assms by (intro slice_mid) (simp_all add: length_sid_encode)
  ultimately show ?thesis using assms by (simp add: decode_sid_at_def sid_decode_encode)
qed

lemma length_build_ace: "length (build_ace m s) = 16 + 4 * length (sub_authorities s)"
  by (simp add: build_ace_def Let_def length_sid_encode)

lemma build_ace_split:
  "build_ace m s =
     [ACCESS_ALLOWED_ACE_TYPE, 0] @ to_le 2 (of_nat (length (build_ace m s)) :: u16) @ to_le 4 m @ sid_encode s"
  unfolding length_build_ace by (simp add: build_ace_def Let_def length_sid_encode)

lemma decode_aces_build:
  assumes "\<forall>(m, s) \<in> set aces. sid_ok s" "n = length pre"
  shows "decode_aces (length aces) (pre @ concat (map (\<lambda>(m, s). build_ace m s) aces) @ post) n =
    Some (map (\<lambda>(m, s). \<lparr>ace_mask = m, ace_trustee = s\<rparr>) aces)"
  using assms
proof (induction aces arbitrary: pre n)
  case (Cons a aces)
  obtain m s where a: "a = (m, s)" by (cases a)
  let ?rest = "concat (map (\<lambda>(m, s). build_ace m s) aces)"
  let ?len = "length (build_ace m s)"
  have s: "sid_ok s" using Cons.prems a by simp
  then have "?len < 2 ^ 16" by (simp add: length_build_ace sid_ok_def)
  then have size: "unat (of_nat ?len :: u16) = ?len" by (simp add: unat_of_nat)
  let ?bs = "pre @ build_ace m s @ ?rest @ post"
  have "slice ?bs n (n + 4) = Some ([ACCESS_ALLOWED_ACE_TYPE, 0] @ to_le 2 (of_nat ?len :: u16))"
    using Cons.prems(2)
    by (subst slice_take_mid [of _ _ _ 4]) (simp_all add: length_build_ace, simp add: build_ace_def Let_def length_sid_encode)
  moreover have "slice ?bs (n + 4) (n + 8) = Some (to_le 4 m)"
    using Cons.prems(2)
    by (subst build_ace_split)
       (simp add: slice_mid [of _ "pre @ [ACCESS_ALLOWED_ACE_TYPE, 0] @ to_le 2 (of_nat ?len :: u16)", simplified])
  moreover have "decode_sid_at ?bs (n + 8) = Some s"
    using Cons.prems(2) s
    by (subst build_ace_split)
       (simp add: decode_sid_at_encode
          [of _ _ "pre @ [ACCESS_ALLOWED_ACE_TYPE, 0] @ to_le 2 (of_nat ?len :: u16) @ to_le 4 m", simplified])
  moreover have "decode_aces (length aces) ((pre @ build_ace m s) @ ?rest @ post) (n + ?len) =
      Some (map (\<lambda>(m, s). \<lparr>ace_mask = m, ace_trustee = s\<rparr>) aces)"
    using Cons.prems a by (intro Cons.IH) auto
  ultimately show ?case using size by (simp add: a)
qed simp

lemma decode_dacl_at_build:
  assumes "\<forall>(m, s) \<in> set aces. sid_ok s" "n = length pre" "length aces < 2 ^ 16"
  shows "decode_dacl_at (pre @ build_dacl aces @ post) n =
    Some (map (\<lambda>(m, s). \<lparr>ace_mask = m, ace_trustee = s\<rparr>) aces)"
proof -
  define hdr where "hdr = take 8 (build_dacl aces)"
  have l: "length hdr = 8" and
    d: "build_dacl aces = hdr @ concat (map (\<lambda>(m, s). build_ace m s) aces)" and
    c: "take 2 (drop 4 hdr) = to_le 2 (of_nat (length aces) :: u16)"
    by (simp_all add: hdr_def build_dacl_def Let_def)
  have "slice (pre @ build_dacl aces @ post) n (n + 8) = Some hdr"
    using assms(2) l d by (simp add: slice_mid [of _ _ _ hdr])
  moreover have "unat (of_nat (length aces) :: u16) = length aces"
    using assms(3) by (simp add: unat_of_nat)
  ultimately show ?thesis
    using decode_aces_build [OF assms(1), of "n + 8" "pre @ hdr" post] assms(2) l c
    by (simp add: decode_dacl_at_def d)
qed

lemma sd_decode_default:
  assumes "sid_ok (with_sub_authority ds 512)"
  shows "sd_decode (default_descriptor ds) =
    Some \<lparr>sd_owner = with_sub_authority ds 512, sd_group = with_sub_authority ds 512,
          sd_dacl = [\<lparr>ace_mask = GENERIC_ALL, ace_trustee = with_sub_authority ds 512\<rparr>,
                     \<lparr>ace_mask = GENERIC_READ, ace_trustee = authenticated_users\<rparr>]\<rparr>"
proof -
  let ?da = "with_sub_authority ds 512"
  let ?aces = "[(GENERIC_ALL, ?da), (GENERIC_READ, authenticated_users)]"
  define dacl where "dacl = build_dacl ?aces"
  define owner where "owner = sid_encode ?da"
  define oo :: u32 where "oo = HEADER_LEN + of_nat (length dacl)"
  define og :: u32 where "og = oo + of_nat (length owner)"
  define hdr where "hdr = [1, 0] @ to_le 2 (SE_DACL_PRESENT OR SE_SELF_RELATIVE) @ to_le 4 oo @ to_le 4 og @
      to_le 4 (0 :: u32) @ to_le 4 HEADER_LEN"
  have dd: "default_descriptor ds = hdr @ dacl @ owner @ owner"
    by (simp add: default_descriptor_def Let_def hdr_def dacl_def owner_def oo_def og_def)
  have ok: "\<forall>(m, s) \<in> set ?aces. sid_ok s"
    using assms by (simp add: authenticated_users_def sid_new_def NT_AUTHORITY_def sid_ok_def)
  have hl: "length hdr = 20" by (simp add: hdr_def)
  have h20: "unat HEADER_LEN = 20" by (simp add: HEADER_LEN_def)
  have "length dacl \<le> 2000" "length owner \<le> 2000"
    using assms by (simp_all add: dacl_def owner_def build_dacl_def Let_def length_build_ace length_sid_encode
        sid_ok_def authenticated_users_def sid_new_def)
  then have uo: "unat oo = 20 + length dacl" and ug: "unat og = 20 + length dacl + length owner"
    by (simp_all add: oo_def og_def HEADER_LEN_def unat_word_ariths unat_of_nat)
  have f: "of_le (take 2 (drop 2 (hdr @ r))) = SE_DACL_PRESENT OR SE_SELF_RELATIVE"
    "of_le (take 4 (drop 4 (hdr @ r))) = oo" "of_le (take 4 (drop 8 (hdr @ r))) = og"
    "of_le (take 4 (drop 16 (hdr @ r))) = HEADER_LEN" for r
    by (simp_all add: hdr_def)
  have "decode_sid_at (default_descriptor ds) (unat oo) = Some ?da"
    using decode_sid_at_encode [OF assms, of "unat oo" "hdr @ dacl" owner] uo hl by (simp add: dd owner_def)
  moreover have "decode_sid_at (default_descriptor ds) (unat og) = Some ?da"
    using decode_sid_at_encode [OF assms, of "unat og" "hdr @ dacl @ owner" "[]"] ug hl by (simp add: dd owner_def)
  moreover have "decode_dacl_at (default_descriptor ds) 20 =
      Some [\<lparr>ace_mask = GENERIC_ALL, ace_trustee = ?da\<rparr>, \<lparr>ace_mask = GENERIC_READ, ace_trustee = authenticated_users\<rparr>]"
    using decode_dacl_at_build [OF ok, of 20 hdr "owner @ owner"] hl by (simp add: dd dacl_def)
  moreover have "\<not> length (default_descriptor ds) < 20" using hl by (simp add: dd)
  ultimately show ?thesis
    unfolding sd_decode_def Let_def dd f h20 by (simp add: SE_DACL_PRESENT_def SE_SELF_RELATIVE_def)
qed

section \<open>Properties\<close>

text \<open>
  C26: The binary form of a security identifier is exact: a byte string decodes to an identifier
  precisely when it is the encoding of that identifier and the identifier has at most 255
  sub-authorities and a 48-bit authority.
\<close>
theorem sid_binary_exact:
  "sid_decode bs = Some s \<longleftrightarrow> sid_ok s \<and> bs = sid_encode s"
  using sid_decode_encode sid_encode_decode by metis

text \<open>The text form of every security identifier parses back to it.\<close>
theorem sid_text_roundtrip:
  "sid_parse (sid_string s) = Some s"
  by (rule sid_parse_string)

text \<open>
  C27: The default security descriptor of a domain decodes to the domain administrators as owner
  and group, and to a list that grants them everything and authenticated users read access.
\<close>
theorem default_descriptor_decodes:
  assumes "length (sub_authorities ds) < 255" "authority ds < 2 ^ 48"
  shows "sd_decode (default_descriptor ds) =
    Some \<lparr>sd_owner = with_sub_authority ds 512, sd_group = with_sub_authority ds 512,
          sd_dacl = [\<lparr>ace_mask = GENERIC_ALL, ace_trustee = with_sub_authority ds 512\<rparr>,
                     \<lparr>ace_mask = GENERIC_READ, ace_trustee = authenticated_users\<rparr>]\<rparr>"
  using assms by (intro sd_decode_default) (simp add: sid_ok_def with_sub_authority_def)

theorem default_descriptor_decodes_witness:
  "let ds = sid_new NT_AUTHORITY [21, 1, 2, 3] in
   length (sub_authorities ds) < 255 \<and> authority ds < 2 ^ 48 \<and>
   map_option sd_owner (sd_decode (default_descriptor ds)) = Some (sid_new NT_AUTHORITY [21, 1, 2, 3, 512])"
proof -
  let ?ds = "sid_new NT_AUTHORITY [21, 1, 2, 3]"
  have h: "length (sub_authorities ?ds) < 255" "authority ?ds < 2 ^ 48"
    by (simp_all add: sid_new_def NT_AUTHORITY_def)
  have "with_sub_authority ?ds 512 = sid_new NT_AUTHORITY [21, 1, 2, 3, 512]"
    by (simp add: with_sub_authority_def sid_new_def)
  with default_descriptor_decodes [OF h] h show ?thesis by (simp only: Let_def) simp
qed

end
