(* ===== verification/Ldap_Filter.thy ===== *)
theory Ldap_Filter
  imports Entry_Model "HOL-Library.Multiset" "HOL-Library.Char_ord" "HOL-Library.List_Lexorder"
begin

text \<open>
  Search filters (crates/ldap/src/filter.rs): the three-valued evaluation of a filter on an entry,
  the case and space folding of values, substring assertions, ordering and the extensible matching
  rules. The lemmas show that the evaluation loops compute the minimum and maximum of RFC 4511's
  truth values, that the greedy substring test accepts a value exactly when the value can be cut
  into the asserted parts, and what the bitwise rules test.
\<close>

section \<open>Lower case\<close>

text \<open>
  \<open>str::chars\<close>: the UTF-8 sequences of a string. \<open>str::to_lowercase\<close> maps each character by the
  Unicode lower-case table, except for a capital sigma, which becomes a final sigma at the end of a
  word. The three tables of the Unicode character database are data outside the code and an
  argument.
\<close>

record unicode =
  uc_lower :: "string \<Rightarrow> string"
  uc_cased :: "string \<Rightarrow> bool"
  uc_case_ignorable :: "string \<Rightarrow> bool"

function chars :: "string \<Rightarrow> string list" where
  "chars [] = []"
| "chars (c # s) = (let n = max 1 (utf8_width c) in take n (c # s) # chars (drop n (c # s)))"
  by pat_completeness auto
termination by (relation "measure length") (auto simp: Let_def)

definition capital_sigma :: string where
  "capital_sigma = [CHR 0xCE, CHR 0xA3]"

definition case_ignorable_then_cased :: "unicode \<Rightarrow> string list \<Rightarrow> bool" where
  "case_ignorable_then_cased U cs =
     (case dropWhile (uc_case_ignorable U) cs of [] \<Rightarrow> False | c # _ \<Rightarrow> uc_cased U c)"

fun lower_chars :: "unicode \<Rightarrow> string list \<Rightarrow> string list \<Rightarrow> string" where
  "lower_chars U before [] = []"
| "lower_chars U before (c # cs) =
     (if c = capital_sigma then
        (if case_ignorable_then_cased U before \<and> \<not> case_ignorable_then_cased U cs
         then [CHR 0xCF, CHR 0x82] else [CHR 0xCF, CHR 0x83])
      else uc_lower U c) @ lower_chars U (c # before) cs"

definition to_lowercase :: "unicode \<Rightarrow> string \<Rightarrow> string" where
  "to_lowercase U s = lower_chars U [] (chars s)"

section \<open>Filters\<close>

text \<open>The filter types of the LDAP message library.\<close>

record ava_assertion =
  attribute_desc :: string
  assertion_value :: bytes

datatype substring_choice = Initial bytes | Any bytes | Final bytes

record matching_rule_assertion =
  mra_rule :: "string option"
  mra_type :: "string option"
  match_value :: bytes
  dn_attributes :: bool

datatype ldap_filter =
    And "ldap_filter list"
  | Or "ldap_filter list"
  | Not ldap_filter
  | EqualityMatch ava_assertion
  | Substrings string "substring_choice list"
  | GreaterOrEqual ava_assertion
  | LessOrEqual ava_assertion
  | Present string
  | ApproxMatch ava_assertion
  | ExtensibleMatch matching_rule_assertion

datatype tri = TTrue | TFalse | TUndefined

definition tri_of_bool :: "bool \<Rightarrow> tri" where
  "tri_of_bool b = (if b then TTrue else TFalse)"

definition any_value :: "entry \<Rightarrow> string \<Rightarrow> (string \<Rightarrow> bool) \<Rightarrow> tri" where
  "any_value e a test =
     tri_of_bool (case entry_get e a of None \<Rightarrow> False | Some vals \<Rightarrow> list_ex test vals)"

definition fold_value :: "unicode \<Rightarrow> string \<Rightarrow> string" where
  "fold_value U s = to_lowercase U (join '' '' (split_whitespace s))"

text \<open>The loop of \<open>fold_component\<close>, with \<open>in_space\<close> as its argument.\<close>

fun fold_component_loop :: "unicode \<Rightarrow> bool \<Rightarrow> string list \<Rightarrow> string" where
  "fold_component_loop U in_space [] = []"
| "fold_component_loop U in_space (c # cs) =
     (if 0 < ws_len c
      then (if in_space then [] else '' '') @ fold_component_loop U True cs
      else uc_lower U c @ fold_component_loop U False cs)"

definition fold_component :: "unicode \<Rightarrow> string \<Rightarrow> string" where
  "fold_component U s = fold_component_loop U False (chars s)"

fun substring_loop :: "string \<Rightarrow> string list \<Rightarrow> string option" where
  "substring_loop rest [] = Some rest"
| "substring_loop rest (a # as) =
     (case find_str rest a of
        None \<Rightarrow> None
      | Some pos \<Rightarrow> substring_loop (drop (pos + length a) rest) as)"

definition substring_match :: "string \<Rightarrow> string option \<Rightarrow> string list \<Rightarrow> string option \<Rightarrow> bool" where
  "substring_match v ini any fin =
     (case (case ini of None \<Rightarrow> Some v | Some i \<Rightarrow> strip_prefix v i) of
        None \<Rightarrow> False
      | Some rest \<Rightarrow>
          (case substring_loop rest any of
             None \<Rightarrow> False
           | Some rest' \<Rightarrow> (case fin of Some f \<Rightarrow> ends_with rest' f | None \<Rightarrow> True)))"

text \<open>
  The collecting loop of \<open>substrings\<close>: \<open>i\<close> is the position in the list of \<open>n\<close> choices, and
  \<open>None\<close> is the early return for a misplaced choice.
\<close>

record parts =
  p_initial :: "string option"
  p_any :: "string list"
  p_final :: "string option"

fun collect_parts :: "unicode \<Rightarrow> nat \<Rightarrow> nat \<Rightarrow> parts \<Rightarrow> substring_choice list \<Rightarrow> parts option" where
  "collect_parts U n i p [] = Some p"
| "collect_parts U n i p (Initial v # cs) =
     (if i = 0
      then collect_parts U n (i + 1) (p\<lparr>p_initial := Some (fold_component U (from_utf8_lossy v))\<rparr>) cs
      else None)"
| "collect_parts U n i p (Any v # cs) =
     collect_parts U n (i + 1) (p\<lparr>p_any := p_any p @ [fold_component U (from_utf8_lossy v)]\<rparr>) cs"
| "collect_parts U n i p (Final v # cs) =
     (if i = n - 1
      then collect_parts U n (i + 1) (p\<lparr>p_final := Some (fold_component U (from_utf8_lossy v))\<rparr>) cs
      else None)"

definition substrings :: "unicode \<Rightarrow> entry \<Rightarrow> string \<Rightarrow> substring_choice list \<Rightarrow> tri" where
  "substrings U e a choices =
     (case collect_parts U (length choices) 0 \<lparr>p_initial = None, p_any = [], p_final = None\<rparr> choices of
        None \<Rightarrow> TUndefined
      | Some p \<Rightarrow> any_value e a (\<lambda>v. substring_match (fold_value U v) (p_initial p) (p_any p) (p_final p)))"

datatype ordering = Less | Equal | Greater

definition cmp :: "'a::linorder \<Rightarrow> 'a \<Rightarrow> ordering" where
  "cmp a b = (if a < b then Less else if a = b then Equal else Greater)"

definition order :: "unicode \<Rightarrow> string \<Rightarrow> string \<Rightarrow> ordering" where
  "order U v a =
     (case (parse_sint 128 (trim v), parse_sint 128 (trim a)) of
        (Some x, Some y) \<Rightarrow> cmp x y
      | _ \<Rightarrow> cmp (fold_value U v) (fold_value U a))"

section \<open>Matching rules\<close>

definition int_value :: "string \<Rightarrow> int option" where
  "int_value s = parse_sint 64 (trim s)"

definition both_ints :: "(int \<Rightarrow> int \<Rightarrow> bool) \<Rightarrow> string \<Rightarrow> string \<Rightarrow> bool option" where
  "both_ints f v a = Option.bind (int_value v) (\<lambda>x. Option.bind (int_value a) (\<lambda>y. Some (f x y)))"

unbundle bit_operations_syntax

definition match_rule :: "unicode \<Rightarrow> string option \<Rightarrow> (string \<Rightarrow> string \<Rightarrow> bool option) option" where
  "match_rule U name =
     (case name of
        None \<Rightarrow> Some (\<lambda>v a. Some (fold_value U v = fold_value U a))
      | Some n \<Rightarrow>
          (let l = to_ascii_lowercase n in
           if l = ''1.2.840.113556.1.4.803'' \<or> l = ''ldap_matching_rule_bit_and'' then
             Some (both_ints (\<lambda>v a. v AND a = a))
           else if l = ''1.2.840.113556.1.4.804'' \<or> l = ''ldap_matching_rule_bit_or'' then
             Some (both_ints (\<lambda>v a. v AND a \<noteq> 0))
           else if l = ''2.5.13.2'' \<or> l = ''caseignorematch'' then
             Some (\<lambda>v a. Some (fold_value U v = fold_value U a))
           else if l = ''2.5.13.5'' \<or> l = ''caseexactmatch'' then
             Some (\<lambda>v a. Some (v = a))
           else if l = ''2.5.13.14'' \<or> l = ''integermatch'' then
             Some (both_ints (\<lambda>v a. v = a))
           else if l = ''2.5.13.0'' \<or> l = ''objectidentifiermatch'' then
             Some (\<lambda>v a. Some (eq_ignore_ascii_case (trim v) (trim a)))
           else None))"

text \<open>The two nested loops of \<open>extensible\<close> over the values, with the running result.\<close>

fun extensible_loop :: "(string \<Rightarrow> bool option) \<Rightarrow> bool \<Rightarrow> tri \<Rightarrow> string list \<Rightarrow> tri" where
  "extensible_loop test named result [] = result"
| "extensible_loop test named result (v # vs) =
     (case test v of
        Some True \<Rightarrow> TTrue
      | None \<Rightarrow> extensible_loop test named (if named then TUndefined else result) vs
      | Some False \<Rightarrow> extensible_loop test named result vs)"

definition attr_values :: "entry \<Rightarrow> string \<Rightarrow> string list" where
  "attr_values e a = (case entry_get e a of None \<Rightarrow> [] | Some vs \<Rightarrow> vs)"

definition extensible :: "unicode \<Rightarrow> entry \<Rightarrow> matching_rule_assertion \<Rightarrow> tri" where
  "extensible U e m =
     (case match_rule U (mra_rule m) of
        None \<Rightarrow> TUndefined
      | Some r \<Rightarrow>
          (let assertion = from_utf8_lossy (match_value m);
               loop = (\<lambda>as. extensible_loop (\<lambda>v. r v assertion) (mra_type m \<noteq> None) TFalse
                              (concat (map (attr_values e) as))) in
           case mra_type m of
             Some t \<Rightarrow> loop [t]
           | None \<Rightarrow> (if mra_rule m \<noteq> None then loop (attr_names e) else TUndefined)))"

section \<open>Evaluation\<close>

fun evaluate :: "unicode \<Rightarrow> entry \<Rightarrow> ldap_filter \<Rightarrow> tri"
  and eval_and :: "unicode \<Rightarrow> entry \<Rightarrow> tri \<Rightarrow> ldap_filter list \<Rightarrow> tri"
  and eval_or :: "unicode \<Rightarrow> entry \<Rightarrow> tri \<Rightarrow> ldap_filter list \<Rightarrow> tri" where
  "evaluate U e (And fs) = eval_and U e TTrue fs"
| "evaluate U e (Or fs) = eval_or U e TFalse fs"
| "evaluate U e (Not f) =
     (case evaluate U e f of TTrue \<Rightarrow> TFalse | TFalse \<Rightarrow> TTrue | TUndefined \<Rightarrow> TUndefined)"
| "evaluate U e (Present a) = tri_of_bool (case entry_get e a of None \<Rightarrow> False | Some v \<Rightarrow> v \<noteq> [])"
| "evaluate U e (EqualityMatch a) =
     (let want = fold_value U (from_utf8_lossy (assertion_value a)) in
      any_value e (attribute_desc a) (\<lambda>v. fold_value U v = want))"
| "evaluate U e (ApproxMatch a) =
     (let want = fold_value U (from_utf8_lossy (assertion_value a)) in
      any_value e (attribute_desc a) (\<lambda>v. fold_value U v = want))"
| "evaluate U e (Substrings a choices) = substrings U e a choices"
| "evaluate U e (GreaterOrEqual a) =
     (let want = from_utf8_lossy (assertion_value a) in
      any_value e (attribute_desc a) (\<lambda>v. order U v want \<noteq> Less))"
| "evaluate U e (LessOrEqual a) =
     (let want = from_utf8_lossy (assertion_value a) in
      any_value e (attribute_desc a) (\<lambda>v. order U v want \<noteq> Greater))"
| "evaluate U e (ExtensibleMatch m) = extensible U e m"
| "eval_and U e result [] = result"
| "eval_and U e result (f # fs) =
     (case evaluate U e f of
        TFalse \<Rightarrow> TFalse
      | TUndefined \<Rightarrow> eval_and U e TUndefined fs
      | TTrue \<Rightarrow> eval_and U e result fs)"
| "eval_or U e result [] = result"
| "eval_or U e result (f # fs) =
     (case evaluate U e f of
        TTrue \<Rightarrow> TTrue
      | TUndefined \<Rightarrow> eval_or U e TUndefined fs
      | TFalse \<Rightarrow> eval_or U e result fs)"

definition matches :: "unicode \<Rightarrow> entry \<Rightarrow> ldap_filter \<Rightarrow> bool" where
  "matches U e f \<longleftrightarrow> evaluate U e f = TTrue"

section \<open>The truth values in order\<close>

text \<open>FALSE, Undefined, TRUE: a conjunction is the minimum of its items, a disjunction the maximum.\<close>

definition tri_rank :: "tri \<Rightarrow> nat" where
  "tri_rank t = (case t of TFalse \<Rightarrow> 0 | TUndefined \<Rightarrow> 1 | TTrue \<Rightarrow> 2)"

lemma tri_rank_inj: "tri_rank s = tri_rank t \<Longrightarrow> s = t"
  by (cases s; cases t) (simp_all add: tri_rank_def)

instantiation tri :: linorder
begin

definition less_eq_tri :: "tri \<Rightarrow> tri \<Rightarrow> bool" where
  "less_eq_tri s t \<longleftrightarrow> tri_rank s \<le> tri_rank t"

definition less_tri :: "tri \<Rightarrow> tri \<Rightarrow> bool" where
  "less_tri s t \<longleftrightarrow> tri_rank s < tri_rank t"

instance
  by standard (auto simp: less_eq_tri_def less_tri_def intro: tri_rank_inj)

end

lemmas tri_order = less_eq_tri_def less_tri_def tri_rank_def

lemma tri_top [simp]: "t \<le> TTrue" and tri_bot [simp]: "TFalse \<le> t"
  by (cases t; simp add: tri_order)+

definition tri_not :: "tri \<Rightarrow> tri" where
  "tri_not t = (case t of TTrue \<Rightarrow> TFalse | TFalse \<Rightarrow> TTrue | TUndefined \<Rightarrow> TUndefined)"

lemma eval_and_Min:
  assumes "result \<noteq> TFalse"
  shows "eval_and U e result fs = Min (insert result (evaluate U e ` set fs))"
  using assms
proof (induction fs arbitrary: result)
  case (Cons f fs)
  have ins: "Min (insert result (evaluate U e ` set (f # fs)))
      = min (evaluate U e f) (Min (insert result (evaluate U e ` set fs)))"
    by (simp only: list.set image_insert insert_commute [of result]) (rule Min_insert, auto)
  have le: "Min (insert TUndefined X) = min TUndefined (Min (insert result X))" if "finite X" for X
    using that Cons.prems by (cases "X = {}") (cases result; simp add: min_def tri_order min.left_commute)+
  show ?case
    unfolding ins using Cons
    by (cases "evaluate U e f") (simp_all add: le min_absorb1 min_absorb2)
qed simp

lemma eval_or_Max:
  assumes "result \<noteq> TTrue"
  shows "eval_or U e result fs = Max (insert result (evaluate U e ` set fs))"
  using assms
proof (induction fs arbitrary: result)
  case (Cons f fs)
  have ins: "Max (insert result (evaluate U e ` set (f # fs)))
      = max (evaluate U e f) (Max (insert result (evaluate U e ` set fs)))"
    by (simp only: list.set image_insert insert_commute [of result]) (rule Max_insert, auto)
  have le: "Max (insert TUndefined X) = max TUndefined (Max (insert result X))" if "finite X" for X
    using that Cons.prems by (cases "X = {}") (cases result; simp add: max_def tri_order max.left_commute)+
  show ?case
    unfolding ins using Cons
    by (cases "evaluate U e f") (simp_all add: le max_absorb1 max_absorb2)
qed simp

lemma evaluate_And: "evaluate U e (And fs) = Min (insert TTrue (evaluate U e ` set fs))"
  by (simp add: eval_and_Min)

lemma evaluate_Or: "evaluate U e (Or fs) = Max (insert TFalse (evaluate U e ` set fs))"
  by (simp add: eval_or_Max)

lemma evaluate_Not: "evaluate U e (Not f) = tri_not (evaluate U e f)"
  by (simp add: tri_not_def)

lemma tri_not_Min:
  "finite X \<Longrightarrow> X \<noteq> {} \<Longrightarrow> tri_not (Min X) = Max (tri_not ` X)"
  "finite X \<Longrightarrow> X \<noteq> {} \<Longrightarrow> tri_not (Max X) = Min (tri_not ` X)"
proof -
  have anti: "antimono tri_not"
    by (rule antimonoI) (auto simp: tri_order tri_not_def split: tri.splits)
  show "tri_not (Min X) = Max (tri_not ` X)" if "finite X" "X \<noteq> {}"
    using that anti by (intro Max_eqI [symmetric]) (auto simp: antimono_def)
  show "tri_not (Max X) = Min (tri_not ` X)" if "finite X" "X \<noteq> {}"
    using that anti by (intro Min_eqI [symmetric]) (auto simp: antimono_def)
qed

section \<open>Substring assertions\<close>

text \<open>
  A value cut into the asserted parts: \<open>weave gaps parts\<close> puts the parts, in order, between the
  gaps.
\<close>

fun weave :: "string list \<Rightarrow> string list \<Rightarrow> string" where
  "weave (g # gs) (a # as) = g @ a @ weave gs as"
| "weave (g # gs) [] = g"
| "weave [] as = []"

definition part_or_empty :: "string option \<Rightarrow> string" where
  "part_or_empty p = (case p of None \<Rightarrow> [] | Some s \<Rightarrow> s)"

definition substring_spec :: "string \<Rightarrow> string option \<Rightarrow> string list \<Rightarrow> string option \<Rightarrow> bool" where
  "substring_spec v ini any fin \<longleftrightarrow>
     (\<exists>gaps. length gaps = Suc (length any) \<and>
             v = part_or_empty ini @ weave gaps any @ part_or_empty fin)"

lemma weave_first_gap: "gs \<noteq> [] \<Longrightarrow> x @ weave gs as = weave ((x @ hd gs) # tl gs) as"
  by (cases gs; cases as) simp_all

lemma find_str_leftmost:
  assumes "s = g @ a @ t"
  obtains pos x where "find_str s a = Some pos" "drop (pos + length a) s = x @ t"
proof (cases "find_str s a")
  case None
  with assms show ?thesis by (auto simp: find_str_None dest: spec [where x = "length g"])
next
  case (Some pos)
  then have "pos \<le> length g"
    using assms by (auto simp: find_str_Some intro: leI)
  then have "drop (pos + length a) s = drop (pos + length a) (g @ a) @ t"
    using assms by simp
  with Some show ?thesis using that by blast
qed

lemma find_str_cut:
  assumes "find_str s a = Some pos"
  shows "s = take pos s @ a @ drop (pos + length a) s"
proof -
  have "prefix a (drop pos s)" using assms by (simp add: find_str_Some)
  then obtain t where t: "drop pos s = a @ t" by (auto simp: prefix_def)
  then have "t = drop (pos + length a) s"
    by (metis add.commute append_eq_conv_conj drop_drop)
  with t show ?thesis by (metis append_take_drop_id)
qed

lemma substring_loop_iff:
  "(\<exists>r. substring_loop rest as = Some r \<and> suffix fin r) \<longleftrightarrow>
   (\<exists>gaps. length gaps = Suc (length as) \<and> rest = weave gaps as @ fin)"
proof (induction as arbitrary: rest)
  case Nil
  have "(\<exists>gaps. length gaps = Suc 0 \<and> rest = weave gaps [] @ fin) \<longleftrightarrow> (\<exists>g. rest = g @ fin)"
    by (metis length_0_conv length_Suc_conv weave.simps(2) list.size(3,4) One_nat_def add_0)
  then show ?case by (simp add: suffix_def)
next
  case (Cons a as)
  show ?case
  proof
    assume "\<exists>r. substring_loop rest (a # as) = Some r \<and> suffix fin r"
    then obtain pos where pos: "find_str rest a = Some pos"
      and "\<exists>r. substring_loop (drop (pos + length a) rest) as = Some r \<and> suffix fin r"
      by (auto split: option.splits)
    then obtain gaps where "length gaps = Suc (length as)"
      and "drop (pos + length a) rest = weave gaps as @ fin"
      using Cons.IH by blast
    with find_str_cut [OF pos]
    have "length (take pos rest # gaps) = Suc (length (a # as)) \<and> rest = weave (take pos rest # gaps) (a # as) @ fin"
      by simp
    then show "\<exists>gaps. length gaps = Suc (length (a # as)) \<and> rest = weave gaps (a # as) @ fin" by blast
  next
    assume "\<exists>gaps. length gaps = Suc (length (a # as)) \<and> rest = weave gaps (a # as) @ fin"
    then obtain gaps where gaps: "length gaps = Suc (Suc (length as))" "rest = weave gaps (a # as) @ fin" by auto
    then obtain g gs where "gaps = g # gs" by (cases gaps) auto
    with gaps have len: "length gs = Suc (length as)" and r: "rest = g @ a @ (weave gs as @ fin)" by simp_all
    obtain pos x where pos: "find_str rest a = Some pos" and "drop (pos + length a) rest = x @ weave gs as @ fin"
      by (rule find_str_leftmost [OF r])
    moreover have "x @ weave gs as = weave ((x @ hd gs) # tl gs) as"
      using len by (intro weave_first_gap) auto
    moreover have "length ((x @ hd gs) # tl gs) = Suc (length as)" using len by simp
    ultimately have "\<exists>r. substring_loop (drop (pos + length a) rest) as = Some r \<and> suffix fin r"
      using Cons.IH by (metis append_assoc)
    with pos show "\<exists>r. substring_loop rest (a # as) = Some r \<and> suffix fin r" by simp
  qed
qed

lemma substring_match_iff: "substring_match v ini any fin \<longleftrightarrow> substring_spec v ini any fin"
proof -
  have "(case substring_loop rest any of None \<Rightarrow> False
         | Some r \<Rightarrow> (case fin of Some f \<Rightarrow> ends_with r f | None \<Rightarrow> True)) \<longleftrightarrow>
        (\<exists>r. substring_loop rest any = Some r \<and> suffix (part_or_empty fin) r)" for rest
    by (auto simp: part_or_empty_def ends_with_suffix split: option.splits)
  note loop = this [unfolded substring_loop_iff]
  define t where "t = (case ini of None \<Rightarrow> Some v | Some i \<Rightarrow> strip_prefix v i)"
  have t: "t = Some rest \<longleftrightarrow> v = part_or_empty ini @ rest" for rest
    by (auto simp: t_def part_or_empty_def strip_prefix_eq_Some split: option.splits)
  have "substring_match v ini any fin \<longleftrightarrow>
      (\<exists>rest. t = Some rest \<and> (\<exists>gaps. length gaps = Suc (length any) \<and> rest = weave gaps any @ part_or_empty fin))"
    unfolding substring_match_def loop t_def [symmetric] by (cases t) simp_all
  then show ?thesis unfolding substring_spec_def t by blast
qed

section \<open>Extensible matching\<close>

lemma extensible_loop_named:
  "result \<noteq> TTrue \<Longrightarrow> extensible_loop test True result vs =
     (if \<exists>v \<in> set vs. test v = Some True then TTrue
      else if \<exists>v \<in> set vs. test v = None then TUndefined else result)"
  by (induction vs arbitrary: result) (auto split: option.splits bool.splits)

lemma extensible_loop_unnamed:
  "extensible_loop test False TFalse vs = tri_of_bool (\<exists>v \<in> set vs. test v = Some True)"
  by (induction vs) (auto simp: tri_of_bool_def split: option.splits bool.splits)

lemma set_attr_values:
  assumes "entry_ok e"
  shows "v \<in> set (concat (map (attr_values e) (attr_names e))) \<longleftrightarrow>
         (\<exists>a. v \<in> set (attr_values e a))"
proof
  assume "\<exists>a. v \<in> set (attr_values e a)"
  then obtain a where v: "v \<in> set (attr_values e a)" by blast
  have same: "entry_get e (to_ascii_lowercase a) = entry_get e a" by (simp add: entry_get_def)
  with v have "to_ascii_lowercase a \<in> set (attr_names e)"
    using assms by (cases "entry_get e a") (simp_all add: attr_names_dom attr_values_def)
  moreover have "v \<in> set (attr_values e (to_ascii_lowercase a))" using v same by (simp add: attr_values_def)
  ultimately show "v \<in> set (concat (map (attr_values e) (attr_names e)))" by auto
qed auto

lemma and_eq_mask_iff: "(x :: int) AND y = y \<longleftrightarrow> (\<forall>n. bit y n \<longrightarrow> bit x n)"
  by (auto simp: bit_eq_iff bit_and_iff)

lemma and_nonzero_iff: "(x :: int) AND y \<noteq> 0 \<longleftrightarrow> (\<exists>n. bit y n \<and> bit x n)"
  by (auto simp: bit_eq_iff bit_and_iff)

section \<open>Which substring filters are well formed\<close>

definition choices_of :: "bytes option \<Rightarrow> bytes list \<Rightarrow> bytes option \<Rightarrow> substring_choice list" where
  "choices_of ini as fin =
     (case ini of None \<Rightarrow> [] | Some v \<Rightarrow> [Initial v]) @ map Any as @
     (case fin of None \<Rightarrow> [] | Some v \<Rightarrow> [Final v])"

abbreviation component_of :: "unicode \<Rightarrow> bytes \<Rightarrow> string" where
  "component_of U v \<equiv> fold_component U (from_utf8_lossy v)"

lemma collect_parts_any:
  "collect_parts U n i p (map Any as @ cs) =
   collect_parts U n (i + length as) (p\<lparr>p_any := p_any p @ map (component_of U) as\<rparr>) cs"
  by (induction as arbitrary: i p) simp_all

lemma collect_parts_choices_of:
  "collect_parts U (length (choices_of ini as fin)) 0 \<lparr>p_initial = None, p_any = [], p_final = None\<rparr>
     (choices_of ini as fin) =
   Some \<lparr>p_initial = map_option (component_of U) ini, p_any = map (component_of U) as,
         p_final = map_option (component_of U) fin\<rparr>"
  unfolding choices_of_def
  by (cases ini; cases fin) (simp_all add: collect_parts_any collect_parts_any [where cs = "[]", simplified])

lemma collect_parts_shape:
  assumes "collect_parts U n i p cs = Some q" and "i + length cs = n" and "0 < i"
  shows "\<exists>as fin. cs = choices_of None as fin"
  using assms
proof (induction cs arbitrary: i p)
  case Nil
  then show ?case by (intro exI [where x = "[]"] exI [where x = None]) (simp add: choices_of_def)
next
  case (Cons c cs)
  show ?case
  proof (cases c)
    case (Any v)
    with Cons obtain as fin where "cs = choices_of None as fin" by fastforce
    with Any show ?thesis
      by (intro exI [where x = "v # as"] exI [where x = fin]) (simp add: choices_of_def)
  next
    case (Final v)
    with Cons.prems have "cs = []" by (auto split: if_splits)
    with Final show ?thesis
      by (intro exI [where x = "[]"] exI [where x = "Some v"]) (simp add: choices_of_def)
  qed (use Cons.prems in auto)
qed

lemma collect_parts_well_formed:
  assumes "collect_parts U (length cs) 0 p cs = Some q"
  shows "\<exists>ini as fin. cs = choices_of ini as fin"
proof (cases cs)
  case Nil
  then show ?thesis
    by (intro exI [where x = "[]"] exI [where x = None]) (simp add: choices_of_def)
next
  case (Cons c cs')
  have rest: "\<exists>as fin. cs' = choices_of None as fin"
    if "collect_parts U (length cs) 1 p' cs' = Some q" for p'
    using collect_parts_shape [OF that] Cons by simp
  show ?thesis
  proof (cases c)
    case (Initial v)
    with assms Cons rest obtain as fin where "cs' = choices_of None as fin" by fastforce
    with Initial Cons show ?thesis
      by (intro exI [where x = "Some v"] exI [where x = as] exI [where x = fin]) (simp add: choices_of_def)
  next
    case (Any v)
    with assms Cons rest obtain as fin where "cs' = choices_of None as fin" by fastforce
    with Any Cons show ?thesis
      by (intro exI [where x = None] exI [where x = "v # as"] exI [where x = fin]) (simp add: choices_of_def)
  next
    case (Final v)
    with assms Cons have "cs' = []" by (auto split: if_splits)
    with Final Cons show ?thesis
      by (intro exI [where x = None] exI [where x = "[]"] exI [where x = "Some v"]) (simp add: choices_of_def)
  qed
qed

lemma any_value_iff: "any_value e a test = tri_of_bool (\<exists>v \<in> set (attr_values e a). test v)"
  by (cases "entry_get e a") (simp_all add: any_value_def attr_values_def list_ex_iff Bex_def)

lemma named_int_rule:
  assumes "match_rule U (Some r) = Some (both_ints f)"
  shows "evaluate U e (ExtensibleMatch \<lparr>mra_rule = Some r, mra_type = Some a, match_value = w, dn_attributes = b\<rparr>) =
     (let want = int_value (from_utf8_lossy w) in
      if \<exists>v \<in> set (attr_values e a). \<exists>x y. int_value v = Some x \<and> want = Some y \<and> f x y then TTrue
      else if \<exists>v \<in> set (attr_values e a). int_value v = None \<or> want = None then TUndefined
      else TFalse)"
proof -
  have true: "both_ints f v s = Some True \<longleftrightarrow> (\<exists>x y. int_value v = Some x \<and> int_value s = Some y \<and> f x y)"
    and none: "both_ints f v s = None \<longleftrightarrow> int_value v = None \<or> int_value s = None" for v s
    by (auto simp: both_ints_def Option.bind_eq_Some_conv Option.bind_eq_None_conv)
  show ?thesis
    by (simp add: extensible_def assms extensible_loop_named true none Let_def)
qed

lemma match_rule_bits:
  "match_rule U (Some ''1.2.840.113556.1.4.803'') = Some (both_ints (\<lambda>v a. v AND a = a))"
  "match_rule U (Some ''1.2.840.113556.1.4.804'') = Some (both_ints (\<lambda>v a. v AND a \<noteq> 0))"
  by (simp_all add: match_rule_def to_ascii_lowercase_def ascii_lower_def is_ascii_uppercase_def)

section \<open>Correctness of the filter\<close>

text \<open>
  C31: RFC 4511's three-valued logic. With FALSE < Undefined < TRUE, a conjunction evaluates to the
  least value of its items, a disjunction to the greatest, a negation swaps TRUE and FALSE, the
  empty conjunction is TRUE, the empty disjunction FALSE; so the order of the items does not matter,
  and a negated conjunction is the disjunction of the negated items and vice versa.
\<close>

theorem filter_kleene_logic:
  "evaluate U e (And fs) = Min (insert TTrue (evaluate U e ` set fs)) \<and>
   evaluate U e (Or fs) = Max (insert TFalse (evaluate U e ` set fs)) \<and>
   evaluate U e (Not f) = tri_not (evaluate U e f) \<and>
   evaluate U e (Not (And fs)) = evaluate U e (Or (map Not fs)) \<and>
   evaluate U e (Not (Or fs)) = evaluate U e (And (map Not fs))"
proof -
  have "evaluate U e (Or (map Not fs)) = Max (tri_not ` insert TTrue (evaluate U e ` set fs))"
    "evaluate U e (And (map Not fs)) = Min (tri_not ` insert TFalse (evaluate U e ` set fs))"
    unfolding evaluate_Or evaluate_And set_map image_insert image_image evaluate_Not by (simp_all add: tri_not_def)
  then show ?thesis
    unfolding evaluate_And evaluate_Or evaluate_Not by (simp only: tri_not_Min finite_insert finite_imageI finite_set insert_not_empty simp_thms)
qed

text \<open>
  C30: A substring filter is TRUE exactly when some value of the attribute, folded, can be cut into
  the initial part, the middle parts in order and the final part, with arbitrary text between them:
  taking the leftmost occurrence of each middle part loses no match. It is Undefined exactly when
  its parts are out of place (an initial part that is not first or a final part that is not last).
\<close>

theorem substring_filter_exact:
  "evaluate U e (Substrings a (choices_of ini as fin)) =
     tri_of_bool (\<exists>v \<in> set (attr_values e a).
       substring_spec (fold_value U v) (map_option (component_of U) ini) (map (component_of U) as)
         (map_option (component_of U) fin)) \<and>
   (evaluate U e (Substrings a cs) = TUndefined \<longleftrightarrow>
     (\<nexists>ini as fin. cs = choices_of ini as fin))"
proof -
  have part1: "evaluate U e (Substrings a (choices_of ini as fin)) =
     tri_of_bool (\<exists>v \<in> set (attr_values e a).
       substring_spec (fold_value U v) (map_option (component_of U) ini) (map (component_of U) as)
         (map_option (component_of U) fin))" for ini as fin
    by (simp add: substrings_def collect_parts_choices_of any_value_iff substring_match_iff)
  have "evaluate U e (Substrings a cs) = TUndefined \<longleftrightarrow>
        collect_parts U (length cs) 0 \<lparr>p_initial = None, p_any = [], p_final = None\<rparr> cs = None"
    by (auto simp: substrings_def any_value_iff tri_of_bool_def split: option.splits)
  also have "\<dots> \<longleftrightarrow> (\<nexists>ini as fin. cs = choices_of ini as fin)"
    using collect_parts_well_formed [of U cs] collect_parts_choices_of [of U]
    by (metis option.distinct(1) not_None_eq)
  finally show ?thesis using part1 by blast
qed

text \<open>
  C32: The bitwise rules on flag words such as userAccountControl, for a named attribute. The AND
  rule is TRUE exactly when some value is a 64-bit integer that has every bit of the assertion set;
  the OR rule, when some value has at least one of them. When no value passes and some value, or the
  assertion, is not such an integer, the item is Undefined, so that its negation does not match
  either.
\<close>

theorem bitwise_rules_exact:
  "evaluate U e (ExtensibleMatch \<lparr>mra_rule = Some ''1.2.840.113556.1.4.803'', mra_type = Some a,
                                  match_value = w, dn_attributes = b\<rparr>) =
     (let want = int_value (from_utf8_lossy w) in
      if \<exists>v \<in> set (attr_values e a). \<exists>x y. int_value v = Some x \<and> want = Some y \<and>
           {n. bit y n} \<subseteq> {n. bit x n} then TTrue
      else if \<exists>v \<in> set (attr_values e a). int_value v = None \<or> want = None then TUndefined
      else TFalse) \<and>
   evaluate U e (ExtensibleMatch \<lparr>mra_rule = Some ''1.2.840.113556.1.4.804'', mra_type = Some a,
                                  match_value = w, dn_attributes = b\<rparr>) =
     (let want = int_value (from_utf8_lossy w) in
      if \<exists>v \<in> set (attr_values e a). \<exists>x y. int_value v = Some x \<and> want = Some y \<and>
           {n. bit y n} \<inter> {n. bit x n} \<noteq> {} then TTrue
      else if \<exists>v \<in> set (attr_values e a). int_value v = None \<or> want = None then TUndefined
      else TFalse)"
proof -
  have "x AND y = y \<longleftrightarrow> {n. bit y n} \<subseteq> {n. bit x n}"
    and "x AND y \<noteq> 0 \<longleftrightarrow> {n. bit y n} \<inter> {n. bit x n} \<noteq> {}" for x y :: int
    unfolding and_nonzero_iff and_eq_mask_iff by auto
  then show ?thesis
    unfolding named_int_rule [OF match_rule_bits(1)] named_int_rule [OF match_rule_bits(2)] by simp
qed

end
