(* ===== verification/Framing.thy ===== *)
theory Framing
  imports Etcd
begin

text \<open>
  Framing of LDAP messages over a stream (crates/ldap/src/framing.rs): a BER message carries its own
  length, a SASL buffer is preceded by one. A stream is the list of the results of its successive
  reads; after them, and at an empty read, it is at its end. The locale \<open>framing\<close> states what both
  length functions promise, and its lemmas show that the result of reading does not depend on how
  the bytes were cut into reads.
\<close>

section \<open>Lengths\<close>

type_synonym io_error = string

datatype framing_error =
    Io io_error
  | UnexpectedTag u8
  | IndefiniteLength
  | LengthOverflow
  | UnexpectedEof
  | Decode_error string
  | Encode_error string

unbundle bit_operations_syntax

text \<open>\<open>usize\<close> is 64 bits wide; \<open>checked_shl\<close> refuses a shift by the width or more.\<close>

definition checked_shl :: "u64 \<Rightarrow> nat \<Rightarrow> u64 option" where
  "checked_shl w k = (if k < 64 then Some (push_bit k w) else None)"

fun ber_length_loop :: "u64 \<Rightarrow> bytes \<Rightarrow> framing_error + u64" where
  "ber_length_loop len [] = Inr len"
| "ber_length_loop len (b # bs) =
     (case checked_shl len 8 of
        None \<Rightarrow> Inl LengthOverflow
      | Some shifted \<Rightarrow> ber_length_loop (shifted OR ucast b) bs)"

text \<open>The last sum wraps, as in a build without overflow checks.\<close>

definition ber_message_len :: "bytes \<Rightarrow> framing_error + u64 option" where
  "ber_message_len buf =
     (if buf = [] then Inr None
      else if buf ! 0 \<noteq> 0x30 then Inl (UnexpectedTag (buf ! 0))
      else if length buf < 2 then Inr None
      else
        (let first_len_byte = buf ! 1 in
         if first_len_byte AND 0x80 = 0 then Inr (Some (2 + ucast first_len_byte))
         else
           (let num_octets = unat (first_len_byte AND 0x7f) in
            if num_octets = 0 then Inl IndefiniteLength
            else if length buf < 2 + num_octets then Inr None
            else
              (case ber_length_loop 0 (take num_octets (drop 2 buf)) of
                 Inl e \<Rightarrow> Inl e
               | Inr len \<Rightarrow> Inr (Some (2 + of_nat num_octets + len))))))"

section \<open>Reading\<close>

type_synonym reads = "(io_error + bytes) list"

text \<open>
  The loop of \<open>read_message\<close> and \<open>read_sized_buffer\<close>: the buffer already holds a whole frame, or is
  in error, or one more read is appended to it. \<open>Inr None\<close> is a clean end, between frames.
\<close>

definition complete :: "(bytes \<Rightarrow> 'e + nat option) \<Rightarrow> bytes \<Rightarrow> ('e + nat) option" where
  "complete flen buf =
     (case flen buf of
        Inl e \<Rightarrow> Some (Inl e)
      | Inr None \<Rightarrow> None
      | Inr (Some n) \<Rightarrow> if n \<le> length buf then Some (Inr n) else None)"

definition at_eof :: "bytes \<Rightarrow> framing_error + nat option" where
  "at_eof buf = (if buf = [] then Inr None else Inl UnexpectedEof)"

fun fill ::
  "(bytes \<Rightarrow> framing_error + nat option) \<Rightarrow> reads \<Rightarrow> bytes \<Rightarrow> (framing_error + nat option) \<times> reads \<times> bytes" where
  "fill flen [] buf =
     (case complete flen buf of
        Some r \<Rightarrow> (map_sum id Some r, [], buf)
      | None \<Rightarrow> (at_eof buf, [], buf))"
| "fill flen (r # rs) buf =
     (case complete flen buf of
        Some r' \<Rightarrow> (map_sum id Some r', r # rs, buf)
      | None \<Rightarrow>
          (case r of
             Inl e \<Rightarrow> (Inl (Io e), rs, buf)
           | Inr chunk \<Rightarrow> if chunk = [] then (at_eof buf, rs, buf) else fill flen rs (buf @ chunk)))"

definition read_framed ::
  "(bytes \<Rightarrow> framing_error + nat option) \<Rightarrow> (bytes \<Rightarrow> framing_error + 'm) \<Rightarrow> reads \<Rightarrow> bytes \<Rightarrow>
   (framing_error + 'm option) \<times> reads \<times> bytes" where
  "read_framed flen dec rs buf =
     (case fill flen rs buf of
        (Inl e, rs', buf') \<Rightarrow> (Inl e, rs', buf')
      | (Inr None, rs', buf') \<Rightarrow> (Inr None, rs', buf')
      | (Inr (Some n), rs', buf') \<Rightarrow>
          (case dec (take n buf') of
             Inl e \<Rightarrow> (Inl e, rs', buf')
           | Inr m \<Rightarrow> (Inr (Some m), rs', drop n buf')))"

text \<open>The BER codec for messages is a library.\<close>

record 'm ber =
  ber_decode :: "bytes \<Rightarrow> string + 'm"
  ber_encode :: "'m \<Rightarrow> string + bytes"

definition ber_frame_len :: "bytes \<Rightarrow> framing_error + nat option" where
  "ber_frame_len buf = map_sum id (map_option unat) (ber_message_len buf)"

definition read_message :: "'m ber \<Rightarrow> reads \<Rightarrow> bytes \<Rightarrow> (framing_error + 'm option) \<times> reads \<times> bytes" where
  "read_message C = read_framed ber_frame_len (\<lambda>bs. map_sum Decode_error id (ber_decode C bs))"

definition sized_frame_len :: "bytes \<Rightarrow> framing_error + nat option" where
  "sized_frame_len buf =
     Inr (if 4 \<le> length buf then Some (4 + unat (of_be (take 4 buf) :: u32)) else None)"

definition read_sized_buffer :: "reads \<Rightarrow> bytes \<Rightarrow> (framing_error + bytes option) \<times> reads \<times> bytes" where
  "read_sized_buffer = read_framed sized_frame_len (\<lambda>bs. Inr (drop 4 bs))"

section \<open>Writing\<close>

definition write_message ::
  "'m ber \<Rightarrow> (bytes \<Rightarrow> ('c, io_error, unit) call) \<Rightarrow> 'm \<Rightarrow> ('c, framing_error, unit) call" where
  "write_message C write_all m =
     and_then (lift_call (map_sum Encode_error id (ber_encode C m))) (\<lambda>bs.
     map_err Io (write_all bs))"

definition write_sized_buffer ::
  "(bytes \<Rightarrow> ('c, io_error, unit) call) \<Rightarrow> bytes \<Rightarrow> ('c, framing_error, unit) call" where
  "write_sized_buffer write_all payload =
     and_then (map_err Io (write_all (to_be 4 (of_nat (length payload) :: u32)))) (\<lambda>_.
     map_err Io (write_all payload))"

text \<open>Writing to a \<open>Vec<u8>\<close>.\<close>

definition vec_write :: "bytes \<Rightarrow> (bytes, io_error, unit) call" where
  "vec_write bs out = (Inr (), out @ bs)"

section \<open>A length function\<close>

fun read_frames ::
  "(bytes \<Rightarrow> framing_error + nat option) \<Rightarrow> (bytes \<Rightarrow> framing_error + 'm) \<Rightarrow> nat \<Rightarrow> reads \<Rightarrow> bytes \<Rightarrow>
   (framing_error + 'm option) list" where
  "read_frames flen dec 0 rs buf = []"
| "read_frames flen dec (Suc k) rs buf =
     (case read_framed flen dec rs buf of
        (Inr (Some m), rs', buf') \<Rightarrow> Inr (Some m) # read_frames flen dec k rs' buf'
      | (r, rs', buf') \<Rightarrow> [r])"

definition whole :: "(bytes \<Rightarrow> framing_error + nat option) \<Rightarrow> bytes \<Rightarrow> framing_error + nat option" where
  "whole flen s = (case complete flen s of Some r \<Rightarrow> map_sum id Some r | None \<Rightarrow> at_eof s)"

locale framing =
  fixes flen :: "bytes \<Rightarrow> framing_error + nat option"
  assumes flen_error: "flen b = Inl e \<Longrightarrow> flen (b @ x) = Inl e"
    and flen_known: "flen b = Inr (Some n) \<Longrightarrow> flen (b @ x) = Inr (Some n)"
    and flen_Nil: "flen [] = Inr None"
begin

lemma complete_append: "complete flen b = Some r \<Longrightarrow> complete flen (b @ x) = Some r"
  by (auto simp: complete_def flen_error flen_known split: sum.splits option.splits if_splits)

lemma complete_take: "complete flen b = Some (Inr n) \<Longrightarrow> n \<le> length b"
  by (auto simp: complete_def split: sum.splits option.splits if_splits)

lemma complete_bound: "complete flen b = Some r \<Longrightarrow> map_sum id Some r = Inr (Some n) \<Longrightarrow> n \<le> length b"
  by (cases r) (auto dest: complete_take)

lemma fill_chunks:
  assumes "[] \<notin> set cs" and "fill flen (map Inr cs) buf = (r, rs, b)"
  shows "r = whole flen (buf @ concat cs) \<and>
         (\<exists>cs'. rs = map Inr cs' \<and> [] \<notin> set cs' \<and> b @ concat cs' = buf @ concat cs) \<and>
         (\<forall>n. r = Inr (Some n) \<longrightarrow> n \<le> length b)"
  using assms
proof (induction cs arbitrary: buf)
  case Nil
  then show ?case
    by (auto simp: whole_def at_eof_def dest: complete_bound split: option.splits)
next
  case (Cons c cs)
  show ?case
  proof (cases "complete flen buf")
    case None
    with Cons.prems have "fill flen (map Inr cs) (buf @ c) = (r, rs, b)" "[] \<notin> set cs"
      by (auto split: if_splits)
    from Cons.IH [OF this(2,1)] show ?thesis by simp
  next
    case (Some r')
    with Cons.prems have "r = map_sum id Some r'" "rs = map Inr (c # cs)" "b = buf" by simp_all
    moreover have "whole flen (buf @ concat (c # cs)) = map_sum id Some r'"
      using complete_append [OF Some] by (simp add: whole_def)
    moreover have "n \<le> length buf" if "map_sum id Some r' = Inr (Some n)" for n
      using complete_bound [OF Some that] .
    ultimately show ?thesis using Cons.prems(1) by (intro conjI exI [where x = "c # cs"]) auto
  qed
qed

lemma read_frames_chunks:
  assumes "[] \<notin> set cs" and "[] \<notin> set ds" and "buf @ concat cs = buf' @ concat ds"
  shows "read_frames flen dec k (map Inr cs) buf = read_frames flen dec k (map Inr ds) buf'"
  using assms
proof (induction k arbitrary: cs ds buf buf')
  case (Suc k)
  obtain r rs b where 1: "fill flen (map Inr cs) buf = (r, rs, b)" by (metis prod_cases3)
  obtain r' rs' b' where 2: "fill flen (map Inr ds) buf' = (r', rs', b')" by (metis prod_cases3)
  note f1 = fill_chunks [OF Suc.prems(1) 1] and f2 = fill_chunks [OF Suc.prems(2) 2]
  have r: "r' = r" unfolding conjunct1 [OF f1] conjunct1 [OF f2] Suc.prems(3) ..
  obtain cs' where cs': "rs = map Inr cs'" "[] \<notin> set cs'" "b @ concat cs' = buf @ concat cs"
    using conjunct1 [OF conjunct2 [OF f1]] by (elim exE conjE) (rule that)
  obtain ds' where ds': "rs' = map Inr ds'" "[] \<notin> set ds'" "b' @ concat ds' = buf' @ concat ds"
    using conjunct1 [OF conjunct2 [OF f2]] by (elim exE conjE) (rule that)
  show ?case
  proof (cases "\<exists>n. r = Inr (Some n)")
    case False
    then have "(\<exists>e. r = Inl e) \<or> r = Inr None" by (metis option.exhaust sum.exhaust)
    then show ?thesis by (elim disjE exE) (simp_all add: read_framed_def 1 2 r)
  next
    case True
    then obtain n where n: "r = Inr (Some n)" by blast
    have len: "n \<le> length b" "n \<le> length b'"
      using conjunct2 [OF conjunct2 [OF f1]] conjunct2 [OF conjunct2 [OF f2]] n r by blast+
    have eq: "b @ concat cs' = b' @ concat ds'" unfolding cs'(3) ds'(3) by (rule Suc.prems(3))
    have t: "take n b' = take n b" using arg_cong [OF eq, of "take n"] len by simp
    have d: "drop n b @ concat cs' = drop n b' @ concat ds'" using arg_cong [OF eq, of "drop n"] len by simp
    show ?thesis
      using 1 2 r n t Suc.IH [OF cs'(2) ds'(2) d]
      by (cases "dec (take n b)") (simp_all add: read_framed_def cs'(1) ds'(1))
  qed
qed simp

text \<open>Frames written one after the other are read back one after the other.\<close>

lemma read_frames_written:
  assumes "list_all2 (\<lambda>f m. flen f = Inr (Some (length f)) \<and> dec f = Inr m) fs ms"
  shows "read_frames flen dec (Suc (length ms)) [] (concat fs) = map (\<lambda>m. Inr (Some m)) ms @ [Inr None]"
  using assms
proof (induction fs ms rule: list_all2_induct)
  case Nil
  then show ?case by (simp add: read_framed_def complete_def flen_Nil at_eof_def)
next
  case (Cons f fs m ms)
  then have "flen (f @ concat fs) = Inr (Some (length f))" using flen_known by blast
  then have "fill flen [] (f @ concat fs) = (Inr (Some (length f)), [], f @ concat fs)"
    by (simp add: complete_def)
  with Cons show ?case by (simp add: read_framed_def)
qed

end

section \<open>The two length functions\<close>

lemma ber_length_loop_Inr: "\<exists>len. ber_length_loop w bs = Inr len"
  by (induction bs arbitrary: w) (simp_all add: checked_shl_def)

lemma ber_message_len_error:
  assumes "ber_message_len b = Inl e" shows "ber_message_len (b @ x) = Inl e"
proof -
  have ne: "b \<noteq> []" using assms by (auto simp: ber_message_len_def)
  show ?thesis
  proof (cases "length b < 2")
    case True
    with ne assms show ?thesis
      by (simp add: ber_message_len_def nth_append Let_def split: if_splits)
  next
    case False
    with ne assms ber_length_loop_Inr [of 0 "take (unat (b ! 1 AND 0x7F)) (drop 2 b)"] show ?thesis
      by (auto simp: ber_message_len_def nth_append Let_def split: if_splits sum.splits)
  qed
qed

lemma ber_message_len_known:
  assumes "ber_message_len b = Inr (Some n)" shows "ber_message_len (b @ x) = Inr (Some n)"
proof -
  have ne: "b \<noteq> []" "\<not> length b < 2" using assms by (auto simp: ber_message_len_def split: if_splits)
  then show ?thesis using assms
    by (auto simp: ber_message_len_def nth_append Let_def split: if_splits)
qed

lemma ber_frame_len_eq:
  "ber_frame_len b = Inl e \<longleftrightarrow> ber_message_len b = Inl e"
  "ber_frame_len b = Inr (Some n) \<longleftrightarrow> (\<exists>w. ber_message_len b = Inr (Some w) \<and> n = unat w)"
  by (cases "ber_message_len b"; auto simp: ber_frame_len_def)+

interpretation ber: framing ber_frame_len
proof
  show "ber_frame_len [] = Inr None" by (simp add: ber_frame_len_def ber_message_len_def)
qed (auto simp: ber_frame_len_eq intro: ber_message_len_error ber_message_len_known)

interpretation sized: framing sized_frame_len
  by unfold_locales (auto simp: sized_frame_len_def split: if_splits)

lemma ber_length_loop_be:
  "ber_length_loop w bs = Inr (push_bit (8 * length bs) w OR of_be bs)"
proof (induction bs arbitrary: w)
  case (Cons b bs)
  have "push_bit (8 * length bs) (push_bit 8 w OR ucast b) =
        push_bit (8 * length (b # bs)) w OR push_bit (8 * length bs) (ucast b)"
    by (simp add: push_bit_or add.commute)
  then show ?case
    using Cons.IH by (simp add: checked_shl_def of_be_def of_le_snoc or.assoc or.commute)
qed (simp add: of_be_def)

section \<open>Correctness of the framing\<close>

definition read_messages :: "'m ber \<Rightarrow> nat \<Rightarrow> reads \<Rightarrow> (framing_error + 'm option) list" where
  "read_messages C k rs = read_frames ber_frame_len (\<lambda>bs. map_sum Decode_error id (ber_decode C bs)) k rs []"

definition read_buffers :: "nat \<Rightarrow> reads \<Rightarrow> (framing_error + bytes option) list" where
  "read_buffers k rs = read_frames sized_frame_len (\<lambda>bs. Inr (drop 4 bs)) k rs []"

lemma read_messages_Suc:
  "read_frames ber_frame_len (\<lambda>bs. map_sum Decode_error id (ber_decode C bs)) (Suc k) rs buf =
   (case read_message C rs buf of
        (Inr (Some m), rs', buf') \<Rightarrow>
          Inr (Some m) # read_frames ber_frame_len (\<lambda>bs. map_sum Decode_error id (ber_decode C bs)) k rs' buf'
      | (r, rs', buf') \<Rightarrow> [r])"
  by (simp add: read_message_def)

text \<open>
  C33: What a connection's successive calls of \<open>read_message\<close> return, messages, errors and the end,
  depends only on the bytes that arrive, not on how the network cuts them into reads.
\<close>

theorem message_reads_ignore_chunking:
  assumes "[] \<notin> set cs" and "[] \<notin> set ds" and "concat cs = concat ds"
  shows "read_messages C k (map Inr cs) = read_messages C k (map Inr ds)"
  unfolding read_messages_def using assms by (intro ber.read_frames_chunks) simp_all

definition example_ber :: "bytes ber" where
  "example_ber = \<lparr>ber_decode = Inr, ber_encode = Inr\<rparr>"

theorem message_reads_ignore_chunking_witness:
  "read_messages example_ber 3 (map Inr [[0x30], [1, 7, 0x30], [0]]) =
   read_messages example_ber 3 (map Inr [[0x30, 1], [7], [0x30, 0]]) \<and>
   read_messages example_ber 3 (map Inr [[0x30], [1, 7, 0x30], [0]]) =
     [Inr (Some [0x30, 1, 7]), Inr (Some [0x30, 0]), Inr None]"
  using message_reads_ignore_chunking
    [of "[[0x30], [1, 7, 0x30], [0]]" "[[0x30, 1], [7], [0x30, 0]]" example_ber 3]
  by (simp, code_simp)

text \<open>
  C34: SASL buffers written with \<open>write_sized_buffer\<close> one after the other, each shorter than four
  gigabytes, are read back by \<open>read_sized_buffer\<close> exactly and in order, and then the end of the
  stream, however the bytes are cut into reads.
\<close>

theorem sized_buffers_roundtrip:
  assumes "list_all (\<lambda>p. length p < 2 ^ 32) ps" and "[] \<notin> set cs"
    and "concat cs = concat (map (\<lambda>p. snd (write_sized_buffer vec_write p [])) ps)"
  shows "read_buffers (Suc (length ps)) (map Inr cs) = map (\<lambda>p. Inr (Some p)) ps @ [Inr None]"
proof -
  let ?fs = "map (\<lambda>p. to_be 4 (of_nat (length p) :: u32) @ p) ps"
  have stream: "concat cs = concat ?fs"
    using assms(3) by (simp add: write_sized_buffer_def and_then_def map_err_def vec_write_def)
  have "unat (of_nat n :: u32) = n" if "n < 2 ^ 32" for n
    using that by (simp add: unat_of_nat take_bit_nat_eq_self)
  then have frames: "list_all2 (\<lambda>f m. sized_frame_len f = Inr (Some (length f)) \<and> Inr (drop 4 f) = (Inr m :: framing_error + bytes)) ?fs ps"
    using assms(1) by (auto simp: list_all2_conv_all_nth list_all_length sized_frame_len_def)
  have "read_buffers (Suc (length ps)) (map Inr cs) =
        read_frames sized_frame_len (\<lambda>bs. Inr (drop 4 bs)) (Suc (length ps)) (map Inr []) (concat ?fs)"
    unfolding read_buffers_def using assms(2) stream by (intro sized.read_frames_chunks) simp_all
  also have "\<dots> = map (\<lambda>p. Inr (Some p)) ps @ [Inr None]"
    using sized.read_frames_written [OF frames] by simp
  finally show ?thesis .
qed

theorem sized_buffers_roundtrip_witness:
  "read_buffers 3 (map Inr [[0, 0], [0, 2, 5], [6, 0, 0, 0, 0]]) = [Inr (Some [5, 6]), Inr (Some []), Inr None]"
proof -
  have "concat [[0, 0], [0, 2, 5], [6, 0, 0, 0, 0]] =
      concat (map (\<lambda>p. snd (write_sized_buffer vec_write p [])) [[5, 6], []])"
    by code_simp
  from sized_buffers_roundtrip [OF _ _ this] show ?thesis by (simp add: numeral_3_eq_3)
qed

text \<open>
  C35: The length header. A long-form length of one to 127 octets gives the header's own size plus
  the big-endian value, all modulo 2 to the power 64: the check for an overflowing length never
  fires, because a shift by eight is always in range, and a nine-octet length is cut to 64 bits.
\<close>

theorem ber_length_wraps:
  assumes "b AND 0x80 \<noteq> 0" and "unat (b AND 0x7f) = length ls" and "ls \<noteq> []"
  shows "ber_message_len (0x30 # b # ls @ rest) = Inr (Some (2 + of_nat (length ls) + of_be ls)) \<and>
         ber_message_len buf \<noteq> Inl LengthOverflow"
proof -
  have "ber_message_len (0x30 # b # ls @ rest) = Inr (Some (2 + of_nat (length ls) + of_be ls))"
    using assms by (simp add: ber_message_len_def ber_length_loop_be)
  moreover have "ber_message_len buf \<noteq> Inl LengthOverflow"
    by (simp add: ber_message_len_def ber_length_loop_be Let_def)
  ultimately show ?thesis ..
qed

theorem ber_length_wraps_witness:
  "ber_message_len [0x30, 0x89, 1, 0, 0, 0, 0, 0, 0, 0, 0] = Inr (Some 11) \<and>
   ber_message_len [] \<noteq> Inl LengthOverflow"
proof -
  have "(0x89 :: u8) AND 0x80 \<noteq> 0" "unat ((0x89 :: u8) AND 0x7f) = length [1 :: u8, 0, 0, 0, 0, 0, 0, 0, 0]"
    by code_simp+
  from ber_length_wraps [OF this, of "[]" "[]"]
  have "ber_message_len [0x30, 0x89, 1, 0, 0, 0, 0, 0, 0, 0, 0] =
          Inr (Some (2 + of_nat 9 + of_be [1, 0, 0, 0, 0, 0, 0, 0, 0]))"
    "ber_message_len [] \<noteq> Inl LengthOverflow" by simp_all
  moreover have "2 + of_nat 9 + of_be [1, 0, 0, 0, 0, 0, 0, 0, 0] = (11 :: u64)" by code_simp
  ultimately show ?thesis by simp
qed

end
