(* ===== verification/Crypto.thy ===== *)
theory Crypto
  imports Dn Etcd
begin

text \<open>
  The crypto facade (crates/crypto/src/lib.rs) and stored passwords (pbkdf2.rs). The OpenSSL calls
  are a library: the record \<open>ossl\<close> has one field for each primitive the code calls, and
  \<open>ossl_ok\<close> says what their documentation promises and the code relies on. Random bytes come from
  the outside world, so a function that draws them is a call. The code slices the library's
  outputs; the slices are in range by the promised lengths.
\<close>

section \<open>Results\<close>

text \<open>The \<open>?\<close> operator on a result.\<close>

definition bind_res :: "'e + 'a \<Rightarrow> ('a \<Rightarrow> 'e + 'b) \<Rightarrow> 'e + 'b" where
  "bind_res r f = (case r of Inl e \<Rightarrow> Inl e | Inr x \<Rightarrow> f x)"

lemma bind_res_simps [simp]: "bind_res (Inl e) f = Inl e" "bind_res (Inr x) f = f x"
  by (simp_all add: bind_res_def)

lemma bind_res_eq_Inr: "bind_res r f = Inr y \<longleftrightarrow> (\<exists>x. r = Inr x \<and> f x = Inr y)"
  by (cases r) simp_all

lemma bind_res_eq_Inl: "bind_res r f = Inl e \<longleftrightarrow> r = Inl e \<or> (\<exists>x. r = Inr x \<and> f x = Inl e)"
  by (cases r) simp_all

section \<open>The library\<close>

datatype crypto_error =
    Ossl
  | BufferSize
  | FipsProviderNotActive
  | PasswordTooShort nat nat
  | IntegrityCheckFailed

datatype digest_alg = Sha1 | Sha2_256 | Sha2_384
datatype mac_alg = HmacSha1 | HmacSha2_256 | HmacSha2_384
datatype aes_size = Aes128 | Aes256

text \<open>
  The primitives: PBKDF2 (digest, iterations, password, salt, output length), HMAC (key, data), AES
  in CBC mode without padding and in CBC mode with ciphertext stealing (the flag is true to
  encrypt; key, initial vector, data), AES in CFB8 mode, the HMAC-DRBG generator (personalisation
  string, length). \<open>None\<close> is an error of the library.
\<close>

record 'w ossl =
  ossl_pbkdf2 :: "digest_alg \<Rightarrow> nat \<Rightarrow> bytes \<Rightarrow> bytes \<Rightarrow> nat \<Rightarrow> bytes option"
  ossl_hmac :: "mac_alg \<Rightarrow> bytes \<Rightarrow> bytes \<Rightarrow> bytes option"
  ossl_aes_cbc :: "aes_size \<Rightarrow> bytes \<Rightarrow> bytes \<Rightarrow> bytes \<Rightarrow> bytes option"
  ossl_aes_cts :: "aes_size \<Rightarrow> bool \<Rightarrow> bytes \<Rightarrow> bytes \<Rightarrow> bytes \<Rightarrow> bytes option"
  ossl_aes_cfb8 :: "aes_size \<Rightarrow> bool \<Rightarrow> bytes \<Rightarrow> bytes \<Rightarrow> bytes \<Rightarrow> bytes option"
  ossl_random :: "string \<Rightarrow> nat \<Rightarrow> ('w, unit, bytes) call"

definition ossl_result :: "'a option \<Rightarrow> crypto_error + 'a" where
  "ossl_result r = (case r of None \<Rightarrow> Inl Ossl | Some x \<Rightarrow> Inr x)"

definition mac_len :: "mac_alg \<Rightarrow> nat" where
  "mac_len a = (case a of HmacSha1 \<Rightarrow> 20 | HmacSha2_256 \<Rightarrow> 32 | HmacSha2_384 \<Rightarrow> 48)"

definition aes_key_len :: "aes_size \<Rightarrow> nat" where
  "aes_key_len s = (case s of Aes128 \<Rightarrow> 16 | Aes256 \<Rightarrow> 32)"

text \<open>
  What the outputs are when a call succeeds: the length asked for, the length of the digest, the
  length of the data, and decryption undoes encryption under the same key and vector.
\<close>

definition pbkdf2_ok :: "'w ossl \<Rightarrow> bool" where
  "pbkdf2_ok S \<longleftrightarrow> (\<forall>d i pw salt n out. ossl_pbkdf2 S d i pw salt n = Some out \<longrightarrow> length out = n)"

definition hmac_ok :: "'w ossl \<Rightarrow> bool" where
  "hmac_ok S \<longleftrightarrow> (\<forall>a k m out. ossl_hmac S a k m = Some out \<longrightarrow> length out = mac_len a)"

definition aes_cbc_ok :: "'w ossl \<Rightarrow> bool" where
  "aes_cbc_ok S \<longleftrightarrow> (\<forall>z k iv m out. ossl_aes_cbc S z k iv m = Some out \<longrightarrow> length out = length m)"

definition aes_cts_ok :: "'w ossl \<Rightarrow> bool" where
  "aes_cts_ok S \<longleftrightarrow>
     (\<forall>z k iv m out. ossl_aes_cts S z True k iv m = Some out \<longrightarrow>
        length out = length m \<and> ossl_aes_cts S z False k iv out = Some m)"

definition aes_cfb8_ok :: "'w ossl \<Rightarrow> bool" where
  "aes_cfb8_ok S \<longleftrightarrow>
     (\<forall>z k iv m out. ossl_aes_cfb8 S z True k iv m = Some out \<longrightarrow>
        length out = length m \<and> ossl_aes_cfb8 S z False k iv out = Some m)"

definition random_ok :: "'w ossl \<Rightarrow> bool" where
  "random_ok S \<longleftrightarrow> (\<forall>p n w out w'. ossl_random S p n w = (Inr out, w') \<longrightarrow> length out = n)"

definition ossl_ok :: "'w ossl \<Rightarrow> bool" where
  "ossl_ok S \<longleftrightarrow> pbkdf2_ok S \<and> hmac_ok S \<and> aes_cbc_ok S \<and> aes_cts_ok S \<and> aes_cfb8_ok S \<and> random_ok S"

lemma ossl_okD:
  assumes "ossl_ok S"
  shows pbkdf2_length: "ossl_pbkdf2 S d i pw salt n = Some out \<Longrightarrow> length out = n"
    and hmac_length: "ossl_hmac S a k m = Some out \<Longrightarrow> length out = mac_len a"
    and aes_cbc_length: "ossl_aes_cbc S z k iv m = Some out \<Longrightarrow> length out = length m"
    and aes_cts_inverse: "ossl_aes_cts S z True k iv m = Some out \<Longrightarrow>
           length out = length m \<and> ossl_aes_cts S z False k iv out = Some m"
    and aes_cfb8_inverse: "ossl_aes_cfb8 S z True k iv m = Some out \<Longrightarrow>
           length out = length m \<and> ossl_aes_cfb8 S z False k iv out = Some m"
  using assms
  by (simp_all add: ossl_ok_def pbkdf2_ok_def hmac_ok_def aes_cbc_ok_def aes_cts_ok_def aes_cfb8_ok_def)

lemma random_length: "ossl_ok S \<Longrightarrow> ossl_random S p n w = (Inr out, w') \<Longrightarrow> length out = n"
  unfolding ossl_ok_def random_ok_def by blast

text \<open>Both byte comparisons of the crate run over all positions.\<close>

unbundle bit_operations_syntax

definition constant_time_eq :: "bytes \<Rightarrow> bytes \<Rightarrow> bool" where
  "constant_time_eq a b \<longleftrightarrow>
     length a = length b \<and> fold (\<lambda>(x, y) diff. diff OR (x XOR y)) (zip a b) 0 = 0"

lemma or_eq_0_word: "(a OR b = 0) \<longleftrightarrow> a = 0 \<and> b = (0 :: 'a::len word)"
  by (auto simp: bit_eq_iff bit_or_iff)

lemma xor_eq_0_word: "(a XOR b = 0) \<longleftrightarrow> a = (b :: 'a::len word)"
  by (auto simp: bit_eq_iff bit_xor_iff)

lemma diff_fold_eq_0:
  "length a = length b \<Longrightarrow>
   fold (\<lambda>(x, y) diff. diff OR (x XOR y)) (zip a b) d = (0 :: u8) \<longleftrightarrow> d = 0 \<and> a = b"
  by (induction a b arbitrary: d rule: list_induct2) (auto simp: or_eq_0_word xor_eq_0_word)

lemma constant_time_eq_iff: "constant_time_eq a b \<longleftrightarrow> a = b"
  unfolding constant_time_eq_def using diff_fold_eq_0 [of a b 0] by auto

section \<open>Stored passwords\<close>

definition DEFAULT_ITERATIONS :: nat where
  "DEFAULT_ITERATIONS = 210000"

definition MIN_PASSWORD_LEN :: nat where
  "MIN_PASSWORD_LEN = 8"

definition SALT_LEN :: nat where
  "SALT_LEN = 16"

definition HASH_LEN :: nat where
  "HASH_LEN = 32"

definition SCHEME :: string where
  "SCHEME = ''pbkdf2-sha256''"

definition hex_digit :: "nat \<Rightarrow> char" where
  "hex_digit n = (if n < 10 then digit_char n else char_of (n - 10 + of_char (CHR ''a'')))"

definition to_hex :: "bytes \<Rightarrow> string" where
  "to_hex bs = concat (map (\<lambda>b. [hex_digit (unat b div 16), hex_digit (unat b mod 16)]) bs)"

text \<open>
  \<open>u8::from_str_radix\<close> on the two characters of a pair; a leading plus sign is allowed. Slicing a
  string inside a multi-byte character is a panic, the outer \<open>None\<close>.
\<close>

definition hex_pair :: "char \<Rightarrow> char \<Rightarrow> u8 option" where
  "hex_pair a b =
     (if \<not> is_ascii_hexdigit b then None
      else if a = CHR ''+'' then Some (of_nat (hex_val b))
      else if is_ascii_hexdigit a then Some (of_nat (16 * hex_val a + hex_val b))
      else None)"

fun from_hex_pairs :: "string \<Rightarrow> bytes option option" where
  "from_hex_pairs (a # b # s) =
     (if is_cont a \<or> (s \<noteq> [] \<and> is_cont (hd s)) then None
      else
        (case hex_pair a b of
           None \<Rightarrow> Some None
         | Some x \<Rightarrow> map_option (map_option ((#) x)) (from_hex_pairs s)))"
| "from_hex_pairs _ = Some (Some [])"

definition from_hex :: "string \<Rightarrow> bytes option option" where
  "from_hex s = (if length s mod 2 \<noteq> 0 then Some None else from_hex_pairs s)"

definition derive :: "'w ossl \<Rightarrow> bytes \<Rightarrow> bytes \<Rightarrow> nat \<Rightarrow> crypto_error + bytes" where
  "derive S password salt iterations = ossl_result (ossl_pbkdf2 S Sha2_256 iterations password salt HASH_LEN)"

definition hash_password :: "'w ossl \<Rightarrow> bytes \<Rightarrow> ('w, crypto_error, string) call" where
  "hash_password S password =
     (if length password < MIN_PASSWORD_LEN then fail_call (PasswordTooShort MIN_PASSWORD_LEN (length password))
      else
        and_then (map_err (\<lambda>_. Ossl) (ossl_random S ''iron-crypto pbkdf2 salt'' SALT_LEN)) (\<lambda>salt.
        and_then (lift_call (derive S password salt DEFAULT_ITERATIONS)) (\<lambda>hash.
        ok_call (''$'' @ SCHEME @ ''$'' @ nat_str DEFAULT_ITERATIONS @ ''$'' @ to_hex salt @ ''$'' @ to_hex hash))))"

text \<open>The outer \<open>None\<close> is a panic of \<open>from_hex\<close>; both fields are decoded before either is tested.\<close>

definition verify_password :: "'w ossl \<Rightarrow> bytes \<Rightarrow> string \<Rightarrow> (crypto_error + bool) option" where
  "verify_password S password stored =
     (case split_char (CHR ''$'') stored of
        [lead, scheme, iter_str, salt_hex, hash_hex] \<Rightarrow>
          if lead \<noteq> [] \<or> scheme \<noteq> SCHEME then Some (Inr False)
          else
            (case parse_uint 64 iter_str of
               None \<Rightarrow> Some (Inr False)
             | Some iterations \<Rightarrow>
                 (case (from_hex salt_hex, from_hex hash_hex) of
                    (Some (Some salt), Some (Some expected)) \<Rightarrow>
                      if length expected \<noteq> HASH_LEN then Some (Inr False)
                      else
                        Some (map_sum id
                          (\<lambda>computed. fold (\<lambda>(a, b) diff. diff OR (a XOR b)) (zip computed expected) 0 = (0 :: u8))
                          (derive S password salt iterations))
                  | (None, _) \<Rightarrow> None
                  | (_, None) \<Rightarrow> None
                  | _ \<Rightarrow> Some (Inr False)))
      | _ \<Rightarrow> Some (Inr False))"

section \<open>The hex fields\<close>

lemma hex_digit_ok: "n < 16 \<Longrightarrow> is_ascii_hexdigit (hex_digit n) \<and> hex_val (hex_digit n) = n \<and>
    \<not> is_cont (hex_digit n) \<and> hex_digit n \<noteq> CHR ''+'' \<and> hex_digit n \<noteq> CHR ''$''"
proof -
  have "list_all (\<lambda>n. is_ascii_hexdigit (hex_digit n) \<and> hex_val (hex_digit n) = n \<and>
    \<not> is_cont (hex_digit n) \<and> hex_digit n \<noteq> CHR ''+'' \<and> hex_digit n \<noteq> CHR ''$'') [0..<16]"
    by code_simp
  then show "n < 16 \<Longrightarrow> ?thesis" by (simp add: list_all_iff)
qed

lemma hex_pair_digits: "hex_pair (hex_digit (unat b div 16)) (hex_digit (unat b mod 16)) = Some b"
proof -
  have "unat b div 16 < 16" using unat_bound [of b] by (simp add: less_mult_imp_div_less)
  moreover have "unat b mod 16 < 16" by simp
  ultimately show ?thesis
    using hex_digit_ok [of "unat b div 16"] hex_digit_ok [of "unat b mod 16"]
    by (simp add: hex_pair_def)
qed

lemma to_hex_Cons: "to_hex (b # bs) = hex_digit (unat b div 16) # hex_digit (unat b mod 16) # to_hex bs"
  by (simp add: to_hex_def)

lemma to_hex_chars: "c \<in> set (to_hex bs) \<Longrightarrow> \<not> is_cont c \<and> c \<noteq> CHR ''$''"
proof (induction bs)
  case (Cons b bs)
  have "unat b div 16 < 16" using unat_bound [of b] by (simp add: less_mult_imp_div_less)
  then show ?case
    using Cons hex_digit_ok [of "unat b div 16"] hex_digit_ok [of "unat b mod 16"] by (auto simp: to_hex_Cons)
qed (simp add: to_hex_def)

lemma from_hex_pairs_to_hex: "from_hex_pairs (to_hex bs) = Some (Some bs)"
proof (induction bs)
  case (Cons b bs)
  have "\<not> is_cont (hex_digit (unat b div 16))" using to_hex_chars [of _ "b # bs"] by (simp add: to_hex_Cons)
  moreover have "to_hex bs \<noteq> [] \<Longrightarrow> \<not> is_cont (hd (to_hex bs))" using to_hex_chars [of _ bs] by simp
  ultimately show ?case using Cons by (auto simp: to_hex_Cons hex_pair_digits)
qed (simp add: to_hex_def)

lemma length_to_hex [simp]: "length (to_hex bs) = 2 * length bs"
  by (induction bs) (simp_all add: to_hex_def)

lemma from_hex_to_hex [rust_str]: "from_hex (to_hex bs) = Some (Some bs)"
  by (simp add: from_hex_def from_hex_pairs_to_hex)

section \<open>Correctness of stored passwords\<close>

lemma split_stored:
  "split_char (CHR ''$'') (''$'' @ SCHEME @ ''$'' @ nat_str DEFAULT_ITERATIONS @ ''$'' @ to_hex salt @ ''$'' @ to_hex hash) =
   [[], SCHEME, nat_str DEFAULT_ITERATIONS, to_hex salt, to_hex hash]"
proof -
  have d: "CHR ''$'' \<notin> set (nat_str n)" for n
    using nat_str_chars [of "CHR ''$''" n] by (auto simp: is_ascii_digit_def less_eq_char_def)
  have h: "CHR ''$'' \<notin> set (to_hex bs)" for bs using to_hex_chars by blast
  have "''$'' @ SCHEME @ ''$'' @ nat_str DEFAULT_ITERATIONS @ ''$'' @ to_hex salt @ ''$'' @ to_hex hash =
      join ''$'' [[], SCHEME, nat_str DEFAULT_ITERATIONS, to_hex salt, to_hex hash]"
    by (simp add: join_Cons)
  then show ?thesis using d h by (simp only:) (rule split_char_join, auto simp: SCHEME_def)
qed

lemma hash_password_stored:
  assumes "ossl_ok S" and "hash_password S password w = (Inr stored, w')"
  obtains salt hash where
    "ossl_random S ''iron-crypto pbkdf2 salt'' SALT_LEN w = (Inr salt, w')"
    "derive S password salt DEFAULT_ITERATIONS = Inr hash" "length hash = HASH_LEN"
    "MIN_PASSWORD_LEN \<le> length password"
    "stored = ''$'' @ SCHEME @ ''$'' @ nat_str DEFAULT_ITERATIONS @ ''$'' @ to_hex salt @ ''$'' @ to_hex hash"
proof -
  from assms(2) have "MIN_PASSWORD_LEN \<le> length password"
    by (auto simp: hash_password_def split: if_splits)
  moreover from this assms(2) obtain salt hash where
    "ossl_random S ''iron-crypto pbkdf2 salt'' SALT_LEN w = (Inr salt, w')"
    "derive S password salt DEFAULT_ITERATIONS = Inr hash"
    "stored = ''$'' @ SCHEME @ ''$'' @ nat_str DEFAULT_ITERATIONS @ ''$'' @ to_hex salt @ ''$'' @ to_hex hash"
    by (auto simp: hash_password_def and_then_eq_Inr)
  moreover from this have "length hash = HASH_LEN"
    using pbkdf2_length [OF assms(1)] by (auto simp: derive_def ossl_result_def split: option.splits)
  ultimately show ?thesis using that by blast
qed

lemma verify_password_stored:
  assumes "length hash = HASH_LEN" and "pbkdf2_ok S"
  shows "verify_password S password
     (''$'' @ SCHEME @ ''$'' @ nat_str DEFAULT_ITERATIONS @ ''$'' @ to_hex salt @ ''$'' @ to_hex hash) =
     Some (map_sum id (\<lambda>computed. computed = hash) (derive S password salt DEFAULT_ITERATIONS))"
proof -
  have it: "parse_uint 64 (nat_str DEFAULT_ITERATIONS) = Some DEFAULT_ITERATIONS"
    by (simp add: parse_uint_nat_str DEFAULT_ITERATIONS_def)
  have "map_sum id (\<lambda>computed. fold (\<lambda>(a, b) diff. diff OR (a XOR b)) (zip computed hash) 0 = (0 :: u8))
          (derive S password salt DEFAULT_ITERATIONS) =
        map_sum id (\<lambda>computed. computed = hash) (derive S password salt DEFAULT_ITERATIONS)"
    using assms by (auto simp: derive_def ossl_result_def pbkdf2_ok_def diff_fold_eq_0 split: option.splits)
  then show ?thesis
    unfolding verify_password_def split_stored
    by (simp add: it from_hex_to_hex assms(1))
qed

text \<open>
  C36: A password verifies against the string \<open>hash_password\<close> stored for it, and another password
  verifies exactly when PBKDF2 derives the same 32 bytes from it under the stored salt: the scheme,
  iteration count and both hex fields survive the stored format, and nothing else is accepted. A
  password shorter than eight bytes is never stored.
\<close>

theorem stored_password_verifies:
  assumes "ossl_ok S" and "hash_password S password w = (Inr stored, w')"
  shows "verify_password S password stored = Some (Inr True) \<and>
         (\<exists>salt. ossl_random S ''iron-crypto pbkdf2 salt'' 16 w = (Inr salt, w') \<and>
            (verify_password S other stored = Some (Inr True) \<longleftrightarrow>
             derive S other salt DEFAULT_ITERATIONS = derive S password salt DEFAULT_ITERATIONS)) \<and>
         8 \<le> length password"
proof -
  from hash_password_stored [OF assms] obtain salt hash where
    r: "ossl_random S ''iron-crypto pbkdf2 salt'' SALT_LEN w = (Inr salt, w')"
    and h: "derive S password salt DEFAULT_ITERATIONS = Inr hash" "length hash = HASH_LEN"
    and len: "MIN_PASSWORD_LEN \<le> length password"
    and st: "stored = ''$'' @ SCHEME @ ''$'' @ nat_str DEFAULT_ITERATIONS @ ''$'' @ to_hex salt @ ''$'' @ to_hex hash" .
  have v: "verify_password S p stored = Some (map_sum id (\<lambda>c. c = hash) (derive S p salt DEFAULT_ITERATIONS))" for p
    using assms(1) unfolding st by (intro verify_password_stored h(2)) (simp add: ossl_ok_def)
  have "verify_password S p stored = Some (Inr True) \<longleftrightarrow> derive S p salt DEFAULT_ITERATIONS = Inr hash" for p
    unfolding v by (cases "derive S p salt DEFAULT_ITERATIONS") simp_all
  then show ?thesis
    using h(1) len r by (intro conjI exI [where x = salt]) (simp_all add: MIN_PASSWORD_LEN_def SALT_LEN_def)
qed

text \<open>An instance of the library's promises, with nothing secret about it.\<close>

definition demo_ossl :: "nat ossl" where
  "demo_ossl =
     \<lparr>ossl_pbkdf2 = (\<lambda>d i pw salt n. Some (take n (pw @ salt @ replicate n 0))),
      ossl_hmac = (\<lambda>a k m. Some (take (mac_len a) (k @ m @ replicate (mac_len a) 0))),
      ossl_aes_cbc = (\<lambda>z k iv m. Some (rev m)),
      ossl_aes_cts = (\<lambda>z enc k iv m. Some (rev m)),
      ossl_aes_cfb8 = (\<lambda>z enc k iv m. Some (rev m)),
      ossl_random = (\<lambda>p n w. (Inr (replicate n (of_nat w)), w + 1))\<rparr>"

lemma demo_ossl_ok: "ossl_ok demo_ossl"
  by (auto simp: ossl_ok_def pbkdf2_ok_def hmac_ok_def aes_cbc_ok_def aes_cts_ok_def aes_cfb8_ok_def
      random_ok_def demo_ossl_def)

theorem stored_password_verifies_witness:
  "\<exists>stored. fst (hash_password demo_ossl (as_bytes ''exactly8'') 7) = Inr stored \<and>
     verify_password demo_ossl (as_bytes ''exactly8'') stored = Some (Inr True)"
proof -
  have "\<not> isl (fst (hash_password demo_ossl (as_bytes ''exactly8'') 7))"
    by (simp add: hash_password_def derive_def ossl_result_def demo_ossl_def and_then_def map_err_def MIN_PASSWORD_LEN_def)
  then obtain stored w' where "hash_password demo_ossl (as_bytes ''exactly8'') 7 = (Inr stored, w')"
    by (metis isl_def obj_sumE prod.collapse)
  with stored_password_verifies [OF demo_ossl_ok this] show ?thesis by auto
qed

end
