(* ===== verification/Kerberos.thy ===== *)
theory Kerberos
  imports Crypto
begin

text \<open>
  Kerberos key derivation and encryption (crates/crypto/src/kerberos.rs): n-fold and the two key
  derivations of RFC 3961 and RFC 8009, string-to-key, and the encrypt, decrypt and checksum
  operations over the library's AES, HMAC and PBKDF2. The lemmas give n-fold its arithmetic meaning
  (addition modulo a power of 256 minus one) and show that decryption returns what was encrypted.
\<close>

section \<open>Encryption types\<close>

datatype enctype =
    Aes128CtsHmacSha1_96
  | Aes256CtsHmacSha1_96
  | Aes128CtsHmacSha256_128
  | Aes256CtsHmacSha384_192

definition etype_number :: "enctype \<Rightarrow> int" where
  "etype_number e =
     (case e of Aes128CtsHmacSha1_96 \<Rightarrow> 17 | Aes256CtsHmacSha1_96 \<Rightarrow> 18
      | Aes128CtsHmacSha256_128 \<Rightarrow> 19 | Aes256CtsHmacSha384_192 \<Rightarrow> 20)"

definition enctype_try_from :: "int \<Rightarrow> enctype option" where
  "enctype_try_from v =
     (if v = 17 then Some Aes128CtsHmacSha1_96
      else if v = 18 then Some Aes256CtsHmacSha1_96
      else if v = 19 then Some Aes128CtsHmacSha256_128
      else if v = 20 then Some Aes256CtsHmacSha384_192
      else None)"

definition enctype_aes_size :: "enctype \<Rightarrow> aes_size" where
  "enctype_aes_size e =
     (case e of Aes128CtsHmacSha1_96 \<Rightarrow> Aes128 | Aes128CtsHmacSha256_128 \<Rightarrow> Aes128
      | Aes256CtsHmacSha1_96 \<Rightarrow> Aes256 | Aes256CtsHmacSha384_192 \<Rightarrow> Aes256)"

definition key_len :: "enctype \<Rightarrow> nat" where
  "key_len e = (case enctype_aes_size e of Aes128 \<Rightarrow> 16 | Aes256 \<Rightarrow> 32)"

definition hmac_len :: "enctype \<Rightarrow> nat" where
  "hmac_len e =
     (case e of Aes128CtsHmacSha1_96 \<Rightarrow> 12 | Aes256CtsHmacSha1_96 \<Rightarrow> 12
      | Aes128CtsHmacSha256_128 \<Rightarrow> 16 | Aes256CtsHmacSha384_192 \<Rightarrow> 24)"

definition is_rfc8009 :: "enctype \<Rightarrow> bool" where
  "is_rfc8009 e \<longleftrightarrow> e = Aes128CtsHmacSha256_128 \<or> e = Aes256CtsHmacSha384_192"

text \<open>Only called for the RFC 8009 types; the source's other arm is unreachable.\<close>

definition rfc8009_name :: "enctype \<Rightarrow> string" where
  "rfc8009_name e =
     (case e of Aes128CtsHmacSha256_128 \<Rightarrow> ''aes128-cts-hmac-sha256-128''
      | _ \<Rightarrow> ''aes256-cts-hmac-sha384-192'')"

definition enctype_digest :: "enctype \<Rightarrow> digest_alg" where
  "enctype_digest e =
     (case e of Aes128CtsHmacSha1_96 \<Rightarrow> Sha1 | Aes256CtsHmacSha1_96 \<Rightarrow> Sha1
      | Aes128CtsHmacSha256_128 \<Rightarrow> Sha2_256 | Aes256CtsHmacSha384_192 \<Rightarrow> Sha2_384)"

definition enctype_mac_alg :: "enctype \<Rightarrow> mac_alg" where
  "enctype_mac_alg e =
     (case e of Aes128CtsHmacSha1_96 \<Rightarrow> HmacSha1 | Aes256CtsHmacSha1_96 \<Rightarrow> HmacSha1
      | Aes128CtsHmacSha256_128 \<Rightarrow> HmacSha2_256 | Aes256CtsHmacSha384_192 \<Rightarrow> HmacSha2_384)"

definition default_iterations :: "enctype \<Rightarrow> nat" where
  "default_iterations e = (if is_rfc8009 e then 32768 else 4096)"

definition MIN_SALT_LEN :: nat where
  "MIN_SALT_LEN = 16"

definition random_bytes :: "'w ossl \<Rightarrow> nat \<Rightarrow> ('w, crypto_error, bytes) call" where
  "random_bytes S n = map_err (\<lambda>_. Ossl) (ossl_random S ''iron-kdc random'' n)"

section \<open>n-fold\<close>

unbundle bit_operations_syntax

fun gcd_usize :: "nat \<Rightarrow> nat \<Rightarrow> nat" where
  "gcd_usize a b = (if b = 0 then a else gcd_usize b (a mod b))"

declare gcd_usize.simps [simp del]

definition lcm_usize :: "nat \<Rightarrow> nat \<Rightarrow> nat" where
  "lcm_usize a b = a div gcd_usize a b * b"

definition extract_bit :: "bytes \<Rightarrow> nat \<Rightarrow> bytes \<Rightarrow> nat \<Rightarrow> bytes" where
  "extract_bit buf start_bit out i =
     (let src_bit = start_bit + i;
          src_shift = 7 - src_bit mod 8;
          b = drop_bit src_shift (buf ! (src_bit div 8)) AND 1;
          dst_shift = 7 - i mod 8 in
      out[i div 8 := (out ! (i div 8)) OR push_bit dst_shift b])"

definition extract_bits :: "bytes \<Rightarrow> nat \<Rightarrow> nat \<Rightarrow> bytes" where
  "extract_bits buf start_bit nbits =
     fold (\<lambda>i out. extract_bit buf start_bit out i) [0..<nbits] (replicate ((nbits + 7) div 8) 0)"

definition rotate_right :: "bytes \<Rightarrow> nat \<Rightarrow> bytes" where
  "rotate_right buf k =
     (let total_bits = length buf * 8;
          k' = k mod total_bits in
      if k' = 0 then buf else extract_bits (buf @ buf) (total_bits - k') total_bits)"

text \<open>
  One pass of the addition from the last byte to the first: the bytes in reverse order, with the
  running carry.
\<close>

fun add_bytes_rev :: "u16 \<Rightarrow> bytes \<Rightarrow> bytes \<Rightarrow> bytes \<times> u16" where
  "add_bytes_rev carry (x # xs) (y # ys) =
     (let s = ucast x + ucast y + carry;
          (rest, c) = add_bytes_rev (drop_bit 8 s) xs ys in
      (ucast (s AND 0xFF) # rest, c))"
| "add_bytes_rev carry _ _ = ([], carry)"

text \<open>The inner loop of the end-around carry, from the last byte while there is a carry.\<close>

fun carry_rev :: "u16 \<Rightarrow> bytes \<Rightarrow> bytes \<times> u16" where
  "carry_rev carry (x # xs) =
     (if carry = 0 then (x # xs, 0)
      else
        (let s = ucast x + carry;
             (rest, c) = carry_rev (drop_bit 8 s) xs in
         (ucast (s AND 0xFF) # rest, c)))"
| "carry_rev carry [] = ([], carry)"

text \<open>The outer loop, with a bound on its rounds; \<open>ones_complement_carry\<close> shows that two are enough.\<close>

fun end_around :: "nat \<Rightarrow> bytes \<times> u16 \<Rightarrow> bytes \<times> u16" where
  "end_around 0 (r, carry) = (r, carry)"
| "end_around (Suc n) (r, carry) = (if carry = 0 then (r, carry) else end_around n (carry_rev carry r))"

definition ones_complement_add :: "bytes \<Rightarrow> bytes \<Rightarrow> bytes" where
  "ones_complement_add a b = rev (fst (end_around 2 (add_bytes_rev 0 (rev a) (rev b))))"

definition rot13 :: "bytes \<Rightarrow> bytes" where
  "rot13 bs = rotate_right bs 13"

fun rotations :: "nat \<Rightarrow> bytes \<Rightarrow> bytes" where
  "rotations 0 cur = []"
| "rotations (Suc n) cur = (let cur' = rot13 cur in cur' @ rotations n cur')"

text \<open>The source asserts that the input is not empty.\<close>

definition n_fold :: "bytes \<Rightarrow> nat \<Rightarrow> bytes" where
  "n_fold input out_bytes =
     (let in_bits = length input * 8;
          out_bits = out_bytes * 8;
          lcm_bits = lcm_usize in_bits out_bits;
          num_reps = lcm_bits div in_bits;
          big = input @ rotations (num_reps - 1) input;
          num_chunks = lcm_bits div out_bits in
      fold (\<lambda>c acc. ones_complement_add acc (take out_bytes (drop (c * out_bytes) big)))
        [0..<num_chunks] (replicate out_bytes 0))"

section \<open>Key derivation\<close>

definition aes_size_of_key :: "bytes \<Rightarrow> crypto_error + aes_size" where
  "aes_size_of_key key =
     (if length key = 16 then Inr Aes128 else if length key = 32 then Inr Aes256 else Inl BufferSize)"

definition zero_iv :: bytes where
  "zero_iv = replicate 16 0"

definition aes_cbc_encrypt_block :: "'w ossl \<Rightarrow> bytes \<Rightarrow> bytes \<Rightarrow> crypto_error + bytes" where
  "aes_cbc_encrypt_block S key block =
     bind_res (aes_size_of_key key) (\<lambda>size. ossl_result (ossl_aes_cbc S size key zero_iv block))"

text \<open>
  The loop of \<open>dr\<close>. A round appends the sixteen bytes of one block, so the length wanted is a
  bound on the rounds.
\<close>

fun dr_loop :: "'w ossl \<Rightarrow> nat \<Rightarrow> bytes \<Rightarrow> nat \<Rightarrow> bytes \<Rightarrow> bytes \<Rightarrow> crypto_error + bytes" where
  "dr_loop S 0 key klen block out = Inr out"
| "dr_loop S (Suc n) key klen block out =
     (if length out < klen then
        bind_res (aes_cbc_encrypt_block S key block) (\<lambda>block'. dr_loop S n key klen block' (out @ block'))
      else Inr out)"

definition dr :: "'w ossl \<Rightarrow> bytes \<Rightarrow> bytes \<Rightarrow> nat \<Rightarrow> crypto_error + bytes" where
  "dr S key const klen =
     bind_res (aes_cbc_encrypt_block S key (n_fold const 16)) (\<lambda>block.
     bind_res (dr_loop S klen key klen block block) (\<lambda>out. Inr (take klen out)))"

definition dk :: "'w ossl \<Rightarrow> bytes \<Rightarrow> bytes \<Rightarrow> nat \<Rightarrow> crypto_error + bytes" where
  "dk S key const klen = dr S key const klen"

definition kdf_hmac_sha2 :: "'w ossl \<Rightarrow> bytes \<Rightarrow> bytes \<Rightarrow> u32 \<Rightarrow> digest_alg \<Rightarrow> crypto_error + bytes" where
  "kdf_hmac_sha2 S key label k_bits digest =
     bind_res
       (case digest of Sha2_256 \<Rightarrow> Inr HmacSha2_256 | Sha2_384 \<Rightarrow> Inr HmacSha2_384 | _ \<Rightarrow> Inl BufferSize)
       (\<lambda>alg.
         bind_res
           (ossl_result (ossl_hmac S alg key (to_be 4 (1 :: u32) @ label @ [0] @ to_be 4 k_bits)))
           (\<lambda>out. Inr (take ((unat k_bits + 7) div 8) out)))"

definition pbkdf2 :: "'w ossl \<Rightarrow> bytes \<Rightarrow> bytes \<Rightarrow> nat \<Rightarrow> nat \<Rightarrow> digest_alg \<Rightarrow> crypto_error + bytes" where
  "pbkdf2 S passphrase saltp iterations klen digest =
     ossl_result (ossl_pbkdf2 S digest iterations passphrase saltp klen)"

definition string_to_key ::
  "'w ossl \<Rightarrow> enctype \<Rightarrow> bytes \<Rightarrow> bytes \<Rightarrow> nat option \<Rightarrow> crypto_error + bytes" where
  "string_to_key S e passphrase salt iterations =
     (let it = (case iterations of None \<Rightarrow> default_iterations e | Some i \<Rightarrow> i);
          klen = key_len e in
      if is_rfc8009 e then
        bind_res (pbkdf2 S passphrase (as_bytes (rfc8009_name e) @ [0] @ salt) it klen (enctype_digest e)) (\<lambda>tkey.
        kdf_hmac_sha2 S tkey (as_bytes ''kerberos'') (of_nat (klen * 8)) (enctype_digest e))
      else
        bind_res (pbkdf2 S passphrase salt it klen (enctype_digest e)) (\<lambda>tkey.
        dk S tkey (as_bytes ''kerberos'') klen))"

record derived_keys =
  dk_ke :: bytes
  dk_ki :: bytes

definition derive_ke_ki :: "'w ossl \<Rightarrow> enctype \<Rightarrow> bytes \<Rightarrow> u32 \<Rightarrow> crypto_error + derived_keys" where
  "derive_ke_ki S e base_key key_usage =
     (let ke_label = to_be 4 key_usage @ [0xAA];
          ki_label = to_be 4 key_usage @ [0x55] in
      if is_rfc8009 e then
        (let (ke_bits, ki_bits) = (case e of Aes128CtsHmacSha256_128 \<Rightarrow> (128, 128) | _ \<Rightarrow> (256, 192)) in
         bind_res (kdf_hmac_sha2 S base_key ke_label ke_bits (enctype_digest e)) (\<lambda>ke.
         bind_res (kdf_hmac_sha2 S base_key ki_label ki_bits (enctype_digest e)) (\<lambda>ki.
         Inr \<lparr>dk_ke = ke, dk_ki = ki\<rparr>)))
      else
        bind_res (dk S base_key ke_label (key_len e)) (\<lambda>ke.
        bind_res (dk S base_key ki_label (key_len e)) (\<lambda>ki.
        Inr \<lparr>dk_ke = ke, dk_ki = ki\<rparr>)))"

definition derive_kc :: "'w ossl \<Rightarrow> enctype \<Rightarrow> bytes \<Rightarrow> u32 \<Rightarrow> crypto_error + bytes" where
  "derive_kc S e base_key key_usage =
     (let label = to_be 4 key_usage @ [0x99] in
      if is_rfc8009 e then
        kdf_hmac_sha2 S base_key label (case e of Aes128CtsHmacSha256_128 \<Rightarrow> 128 | _ \<Rightarrow> 192) (enctype_digest e)
      else dk S base_key label (key_len e))"

section \<open>Encryption\<close>

definition hmac_full :: "'w ossl \<Rightarrow> mac_alg \<Rightarrow> bytes \<Rightarrow> bytes \<Rightarrow> crypto_error + bytes" where
  "hmac_full S alg key data = ossl_result (ossl_hmac S alg key data)"

definition aes_cts_encrypt :: "'w ossl \<Rightarrow> bytes \<Rightarrow> bytes \<Rightarrow> bytes \<Rightarrow> crypto_error + bytes \<times> bytes" where
  "aes_cts_encrypt S key iv plaintext =
     bind_res (aes_size_of_key key) (\<lambda>size.
     bind_res (ossl_result (ossl_aes_cts S size True key iv plaintext)) (\<lambda>out.
     Inr (out, drop (length out - 16) out)))"

definition aes_cts_decrypt :: "'w ossl \<Rightarrow> bytes \<Rightarrow> bytes \<Rightarrow> bytes \<Rightarrow> crypto_error + bytes" where
  "aes_cts_decrypt S key iv ciphertext =
     bind_res (aes_size_of_key key) (\<lambda>size. ossl_result (ossl_aes_cts S size False key iv ciphertext))"

definition krb_encrypt :: "'w ossl \<Rightarrow> enctype \<Rightarrow> bytes \<Rightarrow> u32 \<Rightarrow> bytes \<Rightarrow> ('w, crypto_error, bytes) call" where
  "krb_encrypt S e base_key key_usage plaintext =
     and_then (lift_call (derive_ke_ki S e base_key key_usage)) (\<lambda>keys.
     and_then (map_err (\<lambda>_. Ossl) (ossl_random S ''iron-kdc confounder'' 16)) (\<lambda>confounder.
     let conf_pt = confounder @ plaintext in
     lift_call
       (bind_res (aes_cts_encrypt S (dk_ke keys) zero_iv conf_pt) (\<lambda>(c, next_iv).
        bind_res (hmac_full S (enctype_mac_alg e) (dk_ki keys) (if is_rfc8009 e then zero_iv @ c else conf_pt)) (\<lambda>h.
        Inr (c @ take (hmac_len e) h))))))"

definition krb_decrypt :: "'w ossl \<Rightarrow> enctype \<Rightarrow> bytes \<Rightarrow> u32 \<Rightarrow> bytes \<Rightarrow> crypto_error + bytes" where
  "krb_decrypt S e base_key key_usage ciphertext =
     (let hlen = hmac_len e in
      if length ciphertext < hlen + 16 then Inl BufferSize
      else
        (let c = take (length ciphertext - hlen) ciphertext;
             h = drop (length ciphertext - hlen) ciphertext in
         bind_res (derive_ke_ki S e base_key key_usage) (\<lambda>keys.
         if is_rfc8009 e then
           bind_res (hmac_full S (enctype_mac_alg e) (dk_ki keys) (zero_iv @ c)) (\<lambda>expected.
           if \<not> constant_time_eq (take hlen expected) h then Inl IntegrityCheckFailed
           else
             bind_res (aes_cts_decrypt S (dk_ke keys) zero_iv c) (\<lambda>conf_pt. Inr (drop 16 conf_pt)))
         else
           bind_res (aes_cts_decrypt S (dk_ke keys) zero_iv c) (\<lambda>conf_pt.
           bind_res (hmac_full S (enctype_mac_alg e) (dk_ki keys) conf_pt) (\<lambda>expected.
           if \<not> constant_time_eq (take hlen expected) h then Inl IntegrityCheckFailed
           else Inr (drop 16 conf_pt))))))"

definition krb_checksum :: "'w ossl \<Rightarrow> enctype \<Rightarrow> bytes \<Rightarrow> u32 \<Rightarrow> bytes \<Rightarrow> crypto_error + bytes" where
  "krb_checksum S e base_key key_usage message =
     bind_res (derive_kc S e base_key key_usage) (\<lambda>kc.
     bind_res (hmac_full S (enctype_mac_alg e) kc message) (\<lambda>h. Inr (take (hmac_len e) h)))"

section \<open>Bits\<close>

text \<open>The bits of a byte string, the most significant bit of the first byte first.\<close>

definition bits :: "bytes \<Rightarrow> bool list" where
  "bits bs = concat (map (\<lambda>b. map (\<lambda>j. bit b (7 - j)) [0..<8]) bs)"

lemma bits_simps [simp]: "bits [] = []" "bits (xs @ ys) = bits xs @ bits ys"
  by (simp_all add: bits_def)

lemma bits_Cons: "bits (b # bs) = map (\<lambda>j. bit b (7 - j)) [0..<8] @ bits bs"
  by (simp add: bits_def)

lemma length_bits [simp]: "length (bits bs) = 8 * length bs"
  by (induction bs) (simp_all add: bits_Cons)

lemma bits_nth: "i < 8 * length bs \<Longrightarrow> bits bs ! i \<longleftrightarrow> bit (bs ! (i div 8)) (7 - i mod 8)"
proof (induction bs arbitrary: i)
  case (Cons b bs)
  show ?case
  proof (cases "i < 8")
    case True
    then show ?thesis by (simp add: bits_Cons nth_append)
  next
    case False
    then have i: "i div 8 = Suc ((i - 8) div 8)" "i mod 8 = (i - 8) mod 8"
      by (simp_all add: le_div_geq le_mod_geq)
    then show ?thesis using False Cons by (simp add: bits_Cons nth_append)
  qed
qed simp

lemma bits_inj: "bits xs = bits ys \<Longrightarrow> xs = ys"
proof (induction xs arbitrary: ys)
  case Nil
  then show ?case by (cases ys) (simp_all add: bits_Cons)
next
  case (Cons x xs)
  then obtain y zs where ys: "ys = y # zs" by (cases ys) (auto simp: bits_Cons)
  have eq: "map (\<lambda>j. bit x (7 - j)) [0..<8] = map (\<lambda>j. bit y (7 - j)) [0..<8]" "bits xs = bits zs"
    using Cons.prems unfolding ys bits_Cons by (subst (asm) append_eq_append_conv; simp)+
  have "bit x n = bit y n" if "n < 8" for n
  proof -
    have "map (\<lambda>j. bit x (7 - j)) [0..<8] ! (7 - n) = map (\<lambda>j. bit y (7 - j)) [0..<8] ! (7 - n)"
      using eq(1) by (rule arg_cong)
    then show ?thesis using that nth_upt [of 0 "7 - n" 8] by simp
  qed
  then have "x = y" by (intro bit_word_eqI) simp
  with Cons.IH [OF eq(2)] ys show ?case by simp
qed

lemma bits_extract_bit:
  assumes "m < 8 * length out" and "start + m < 8 * length buf"
  shows "bits (extract_bit buf start out m) = (bits out)[m := bits out ! m \<or> bits buf ! (start + m)]"
proof (rule nth_equalityI)
  let ?b = "drop_bit (7 - (start + m) mod 8) (buf ! ((start + m) div 8)) AND 1"
  have b: "bit ?b n \<longleftrightarrow> n = 0 \<and> bits buf ! (start + m)" for n
    using assms(2) by (auto simp: bits_nth bit_simps)
  fix i assume "i < length (bits (extract_bit buf start out m))"
  then have i: "i < 8 * length out" by (simp add: extract_bit_def Let_def)
  have split: "i = m \<longleftrightarrow> i div 8 = m div 8 \<and> 7 - i mod 8 = 7 - m mod 8"
  proof -
    have "i mod 8 < 8" "m mod 8 < 8" by simp_all
    then have "7 - i mod 8 = 7 - m mod 8 \<longleftrightarrow> i mod 8 = m mod 8" by arith
    then show ?thesis by (metis div_mult_mod_eq)
  qed
  have "m div 8 < length out" using assms(1) by (simp add: div_less_iff_less_mult mult.commute)
  moreover have "i div 8 < length out" using i by (simp add: div_less_iff_less_mult mult.commute)
  moreover have "bit (push_bit s ?b) n \<longleftrightarrow> n = s \<and> bits buf ! (start + m)" if "s < 8" for s n
    using that by (auto simp: bit_push_bit_iff b simp del: push_bit_and)
  ultimately have "bits (extract_bit buf start out m) ! i \<longleftrightarrow>
      bits out ! i \<or> i = m \<and> bits buf ! (start + m)"
    using i unfolding split
    by (simp add: extract_bit_def Let_def bits_nth nth_list_update bit_or_iff del: push_bit_and)
  then show "bits (extract_bit buf start out m) ! i = (bits out)[m := bits out ! m \<or> bits buf ! (start + m)] ! i"
    using i assms(1) by (cases "i = m") simp_all
qed (simp add: extract_bit_def Let_def)

lemma length_extract_bit [simp]: "length (extract_bit buf start out i) = length out"
  by (simp add: extract_bit_def Let_def)

lemma bits_extract_bits:
  assumes "start + n \<le> 8 * length buf" and "n mod 8 = 0"
  shows "bits (extract_bits buf start n) = map (\<lambda>i. bits buf ! (start + i)) [0..<n]"
proof -
  let ?zero = "replicate ((n + 7) div 8) 0 :: bytes"
  have z: "bits (replicate k 0) = replicate (8 * k) False" for k
    by (induction k) (simp_all add: bits_Cons map_replicate_const replicate_add [symmetric])
  have len: "8 * ((n + 7) div 8) = n" using assms(2) by presburger
  let ?f = "\<lambda>i out. extract_bit buf start out i"
  have step: "bits (fold ?f [0..<m] ?zero) = map (\<lambda>i. bits buf ! (start + i)) [0..<m] @ replicate (n - m) False \<and>
      length (fold ?f [0..<m] ?zero) = (n + 7) div 8" if "m \<le> n" for m
    using that
  proof (induction m)
    case 0
    then show ?case using z len by simp
  next
    case (Suc m)
    let ?out = "fold ?f [0..<m] ?zero"
    from Suc have IH: "bits ?out = map (\<lambda>i. bits buf ! (start + i)) [0..<m] @ replicate (n - m) False"
      and l: "length ?out = (n + 7) div 8" by simp_all
    have "bits (extract_bit buf start ?out m) = (bits ?out)[m := bits ?out ! m \<or> bits buf ! (start + m)]"
      using Suc.prems assms(1) l len by (intro bits_extract_bit) simp_all
    moreover have "n - m = Suc (n - Suc m)" using Suc.prems by simp
    ultimately show ?case using IH l by (simp add: list_update_append nth_append)
  qed
  show ?thesis using step [of n] by (simp add: extract_bits_def)
qed

lemma length_extract_bits: "length (extract_bits buf start n) = (n + 7) div 8"
proof -
  have "length (fold (\<lambda>i out. extract_bit buf start out i) xs out) = length out" for xs out
    by (induction xs arbitrary: out) simp_all
  then show ?thesis by (simp add: extract_bits_def)
qed

lemma length_rotate_right [simp]: "length (rotate_right buf k) = length buf"
proof -
  have "(length buf * 8 + 7) div 8 = length buf" by presburger
  then show ?thesis by (simp add: rotate_right_def Let_def length_extract_bits)
qed

lemma bits_rotate_right:
  assumes "buf \<noteq> []"
  shows "bits (rotate_right buf k) = rotate (8 * length buf - k mod (8 * length buf)) (bits buf)"
proof (cases "k mod (8 * length buf) = 0")
  case True
  then show ?thesis by (simp add: rotate_right_def Let_def mult.commute)
next
  case False
  let ?n = "8 * length buf"
  define d where "d = ?n - k mod ?n"
  have d: "d < ?n" "0 < d" using False assms by (auto simp: d_def)
  have "bits (rotate_right buf k) = map (\<lambda>i. bits (buf @ buf) ! (d + i)) [0..<?n]"
  proof -
    have "rotate_right buf k = extract_bits (buf @ buf) d ?n"
      using False by (simp add: rotate_right_def Let_def d_def mult.commute [of _ 8])
    then show ?thesis using d by (simp only:) (rule bits_extract_bits, simp_all)
  qed
  also have "\<dots> = rotate d (bits buf)"
  proof (rule nth_equalityI)
    fix i assume "i < length (map (\<lambda>i. bits (buf @ buf) ! (d + i)) [0..<?n])"
    then have i: "i < ?n" by simp
    show "map (\<lambda>i. bits (buf @ buf) ! (d + i)) [0..<?n] ! i = rotate d (bits buf) ! i"
    proof (cases "d + i < ?n")
      case True
      then show ?thesis using i by (simp add: nth_rotate nth_append)
    next
      case False
      then have "(d + i) mod ?n = d + i - ?n" using i d by (simp add: le_mod_geq)
      then show ?thesis using i False by (simp add: nth_rotate nth_append)
    qed
  qed simp
  finally show ?thesis by (simp add: d_def)
qed

section \<open>The arithmetic of n-fold\<close>

text \<open>A byte string as a number, least significant byte first and, in \<open>be_val\<close>, last.\<close>

fun le_val :: "bytes \<Rightarrow> nat" where
  "le_val [] = 0"
| "le_val (b # bs) = unat b + 256 * le_val bs"

definition be_val :: "bytes \<Rightarrow> nat" where
  "be_val bs = le_val (rev bs)"

lemma le_val_bound: "le_val bs < 256 ^ length bs"
proof (induction bs)
  case (Cons b bs)
  then have "le_val bs + 1 \<le> 256 ^ length bs" by simp
  then have "256 * (le_val bs + 1) \<le> 256 ^ length (b # bs)" by simp
  then show ?case using unat_bound [of b] by simp
qed simp

lemma ucast16: "unat (ucast (x :: u8) :: u16) = unat x"
  using unat_bound [of x] by (simp add: unsigned_ucast_eq take_bit_nat_eq_self)

lemma sum16:
  "unat (c :: u16) \<le> 1 \<Longrightarrow> unat (ucast (x :: u8) + ucast (y :: u8) + c) = unat x + unat y + unat c"
  using unat_bound [of x] unat_bound [of y] by (simp add: unat_word_ariths ucast16)

lemma low16: "unat (ucast ((s :: u16) AND 0xFF) :: u8) = unat s mod 256"
proof -
  have "(255 :: nat) = mask 8" by (simp add: mask_eq_exp_minus_1)
  then have "n AND 255 = n mod 256" for n :: nat
    by (simp only: take_bit_eq_mask [symmetric]) (simp add: take_bit_eq_mod)
  then show ?thesis by (simp add: unsigned_ucast_eq unsigned_and_eq take_bit_eq_mod)
qed

lemma high16: "unat (drop_bit 8 (s :: u16)) = unat s div 256"
  unfolding unat_drop_bit_eq by (simp add: drop_bit_eq_div)

lemma add_bytes_rev_val:
  assumes "length xs = length ys" and "unat c \<le> 1" and "add_bytes_rev c xs ys = (r, c')"
  shows "length r = length xs \<and> unat c' \<le> 1 \<and>
         le_val r + 256 ^ length xs * unat c' = le_val xs + le_val ys + unat c"
  using assms
proof (induction xs ys arbitrary: c r c' rule: list_induct2)
  case (Cons x xs y ys)
  define s :: u16 where "s = ucast x + ucast y + c"
  obtain r' c'' where r': "add_bytes_rev (drop_bit 8 s) xs ys = (r', c'')" by (metis surj_pair)
  have s: "unat s = unat x + unat y + unat c" unfolding s_def by (rule sum16) (rule Cons.prems)
  have "unat s \<le> 511" using s unat_bound [of x] unat_bound [of y] Cons.prems(1) by simp
  then have "unat (drop_bit 8 s) \<le> 1" by (simp add: high16)
  from Cons.IH [OF this r'] have IH: "length r' = length xs" "unat c'' \<le> 1"
    "le_val r' + 256 ^ length xs * unat c'' = le_val xs + le_val ys + unat (drop_bit 8 s)" by simp_all
  have rc: "r = ucast (s AND 0xFF) # r'" "c' = c''"
    using Cons.prems(2) r' by (simp_all add: s_def [symmetric])
  have "le_val r + 256 ^ length (x # xs) * unat c' = unat s mod 256 + 256 * (le_val r' + 256 ^ length xs * unat c'')"
    by (simp add: rc low16 algebra_simps)
  also have "\<dots> = unat s mod 256 + 256 * (unat s div 256) + 256 * (le_val xs + le_val ys)"
    by (simp only: IH(3) high16) (simp add: algebra_simps)
  finally show ?case using IH(1,2) rc s by simp
qed simp

lemma carry_rev_val:
  assumes "unat c \<le> 1" and "carry_rev c xs = (r, c')"
  shows "length r = length xs \<and> unat c' \<le> 1 \<and> le_val r + 256 ^ length xs * unat c' = le_val xs + unat c"
  using assms
proof (induction xs arbitrary: c r c')
  case (Cons x xs)
  show ?case
  proof (cases "c = 0")
    case True
    then show ?thesis using Cons.prems by auto
  next
    case False
    define s :: u16 where "s = ucast x + c"
    obtain r' c'' where r': "carry_rev (drop_bit 8 s) xs = (r', c'')" by (metis surj_pair)
    have s: "unat s = unat x + unat c" using sum16 [OF Cons.prems(1), of x 0] by (simp add: s_def)
    have "unat s \<le> 511" using s unat_bound [of x] Cons.prems(1) by simp
    then have "unat (drop_bit 8 s) \<le> 1" by (simp add: high16)
    from Cons.IH [OF this r'] have IH: "length r' = length xs" "unat c'' \<le> 1"
      "le_val r' + 256 ^ length xs * unat c'' = le_val xs + unat (drop_bit 8 s)" by simp_all
    have rc: "r = ucast (s AND 0xFF) # r'" "c' = c''"
      using Cons.prems(2) r' False by (simp_all add: s_def [symmetric])
    have "le_val r + 256 ^ length (x # xs) * unat c' = unat s mod 256 + 256 * (le_val r' + 256 ^ length xs * unat c'')"
      by (simp add: rc low16 algebra_simps)
    also have "\<dots> = unat s mod 256 + 256 * (unat s div 256) + 256 * le_val xs"
      by (simp only: IH(3) high16) (simp add: algebra_simps)
    finally show ?thesis using IH(1,2) rc s by simp
  qed
qed auto

text \<open>After the addition one pass of the end-around carry is enough.\<close>

lemma ones_complement_carry:
  assumes "length a = length b" and "end_around 2 (add_bytes_rev 0 (rev a) (rev b)) = (r, c)"
  shows "c = 0 \<and> length r = length a \<and>
    (\<exists>k \<le> 1. le_val r + k * (256 ^ length a - 1) = be_val a + be_val b)"
proof -
  obtain r1 c1 where 1: "add_bytes_rev 0 (rev a) (rev b) = (r1, c1)" by (metis surj_pair)
  have v1: "length r1 = length a" "unat c1 \<le> 1" "le_val r1 + 256 ^ length a * unat c1 = be_val a + be_val b"
    using add_bytes_rev_val [OF _ _ 1] assms(1) by (simp_all add: be_val_def)
  show ?thesis
  proof (cases "c1 = 0")
    case True
    then show ?thesis using assms(2) v1 by (auto simp: 1 numeral_2_eq_2 intro: exI [where x = 0])
  next
    case False
    then have c1: "unat c1 = 1" using v1(2) by (metis le_neq_implies_less less_one unat_eq_0)
    obtain r2 c2 where 2: "carry_rev c1 r1 = (r2, c2)" by (metis surj_pair)
    have v2: "length r2 = length a" "unat c2 \<le> 1" "le_val r2 + 256 ^ length a * unat c2 = le_val r1 + 1"
      using carry_rev_val [OF v1(2) 2] v1(1) c1 by simp_all
    have "be_val a < 256 ^ length a" "be_val b < 256 ^ length a"
      using le_val_bound [of "rev a"] le_val_bound [of "rev b"] assms(1) by (simp_all add: be_val_def)
    then have "le_val r1 + 1 < 256 ^ length a" using v1(3) c1 by simp
    then have "unat c2 = 0" using v2(2,3) by (cases "unat c2") auto
    then have c2: "c2 = 0" by (simp add: unat_eq_0)
    then have "le_val r2 = le_val r1 + 1" using v2(3) by simp
    moreover have "1 \<le> (256 :: nat) ^ length a" by simp
    ultimately have "le_val r2 + 1 * (256 ^ length a - 1) = be_val a + be_val b"
      using v1(3) [unfolded c1 mult_1_right] by linarith
    then show ?thesis using assms(2) False c2 v2(1) by (auto simp: 1 2 numeral_2_eq_2)
  qed
qed

lemma ones_complement_add_val:
  assumes "length a = length b"
  shows "length (ones_complement_add a b) = length a"
    and "be_val (ones_complement_add a b) mod (256 ^ length a - 1) = (be_val a + be_val b) mod (256 ^ length a - 1)"
proof -
  obtain r c where "end_around 2 (add_bytes_rev 0 (rev a) (rev b)) = (r, c)" by (metis surj_pair)
  from this ones_complement_carry [OF assms this] obtain k where
    "length r = length a" "ones_complement_add a b = rev r" "le_val r + k * (256 ^ length a - 1) = be_val a + be_val b"
    by (auto simp: ones_complement_add_def)
  then show "length (ones_complement_add a b) = length a"
    "be_val (ones_complement_add a b) mod (256 ^ length a - 1) = (be_val a + be_val b) mod (256 ^ length a - 1)"
    by (simp_all add: be_val_def) (metis mod_mult_self1)
qed

lemma gcd_usize_eq: "gcd_usize a b = gcd a b"
proof (induction a b rule: gcd_usize.induct)
  case (1 a b)
  then show ?case
    by (cases "b = 0") (simp_all add: gcd_usize.simps [of a b] gcd_usize.simps [of a 0] gcd_red_nat [symmetric])
qed

lemma lcm_usize_eq: "lcm_usize a b = lcm a b"
  by (simp add: lcm_usize_def gcd_usize_eq lcm_gcd dvd_div_mult)

lemma rotations_eq: "cur @ rotations n cur = concat (map (\<lambda>i. (rot13 ^^ i) cur) [0..<Suc n])"
proof (induction n arbitrary: cur)
  case (Suc n)
  have "concat (map (\<lambda>i. (rot13 ^^ i) cur) [0..<Suc (Suc n)]) =
        cur @ concat (map (\<lambda>i. (rot13 ^^ i) (rot13 cur)) [0..<Suc n])"
    by (subst upt_conv_Cons) (simp_all only: map_Suc_upt [symmetric] list.map map_map o_def funpow_swap1 funpow.simps
        concat.simps id_apply zero_less_Suc)
  then show ?case using Suc.IH [of "rot13 cur"] by (simp only: rotations.simps Let_def)
qed simp

lemma length_funpow_rot13 [simp]: "length ((rot13 ^^ i) bs) = length bs"
  by (induction i) (simp_all add: rot13_def)

definition fold_stream :: "bytes \<Rightarrow> nat \<Rightarrow> bytes" where
  "fold_stream input n = concat (map (\<lambda>i. (rot13 ^^ i) input) [0..<lcm (length input) n div length input])"

lemma sum_chunks:
  assumes "m * n \<le> length big"
  shows "length (fold (\<lambda>c acc. ones_complement_add acc (take n (drop (c * n) big))) [0..<m] (replicate n 0)) = n \<and>
    be_val (fold (\<lambda>c acc. ones_complement_add acc (take n (drop (c * n) big))) [0..<m] (replicate n 0)) mod (256 ^ n - 1) =
    (\<Sum>c < m. be_val (take n (drop (c * n) big))) mod (256 ^ n - 1)"
  using assms
proof (induction m)
  case 0
  have "le_val (replicate n 0) = 0" by (induction n) simp_all
  then show ?case by (simp add: be_val_def)
next
  case (Suc m)
  let ?acc = "fold (\<lambda>c acc. ones_complement_add acc (take n (drop (c * n) big))) [0..<m] (replicate n 0)"
  let ?c = "take n (drop (m * n) big)"
  have IH: "length ?acc = n" "be_val ?acc mod (256 ^ n - 1) = (\<Sum>c < m. be_val (take n (drop (c * n) big))) mod (256 ^ n - 1)"
    using Suc by simp_all
  have "length ?c = n" using Suc.prems by simp
  with IH(1) have "length ?acc = length ?c" by simp
  note add = ones_complement_add_val [OF this]
  have "be_val (ones_complement_add ?acc ?c) mod (256 ^ n - 1) = (be_val ?acc mod (256 ^ n - 1) + be_val ?c) mod (256 ^ n - 1)"
    using add(2) IH(1) by (simp add: mod_add_left_eq)
  also have "\<dots> = ((\<Sum>c < m. be_val (take n (drop (c * n) big))) + be_val ?c) mod (256 ^ n - 1)"
    unfolding IH(2) by (rule mod_add_left_eq)
  finally show ?case using add(1) IH(1) by simp
qed

lemma n_fold_stream:
  assumes "input \<noteq> []" and "0 < n"
  shows "n_fold input n =
    fold (\<lambda>c acc. ones_complement_add acc (take n (drop (c * n) (fold_stream input n))))
      [0..<lcm (length input) n div n] (replicate n 0)"
    and "lcm (length input) n div n * n = length (fold_stream input n)"
proof -
  have l: "lcm (length input * 8) (n * 8) = lcm (length input) n * 8"
    by (simp add: lcm_mult_right lcm.commute)
  have "0 < lcm (length input) n div length input"
    using assms by (simp add: div_greater_zero_iff dvd_imp_le lcm_pos_nat)
  then have r: "input @ rotations (lcm (length input) n div length input - 1) input = fold_stream input n"
    using rotations_eq [of input "lcm (length input) n div length input - 1"] by (simp add: fold_stream_def)
  show "n_fold input n =
    fold (\<lambda>c acc. ones_complement_add acc (take n (drop (c * n) (fold_stream input n))))
      [0..<lcm (length input) n div n] (replicate n 0)"
    unfolding n_fold_def Let_def lcm_usize_eq l by (simp add: r [unfolded One_nat_def] del: take_append drop_append)
  have "length (fold_stream input n) = lcm (length input) n div length input * length input"
    by (simp add: fold_stream_def length_concat o_def sum_list_triv)
  then show "lcm (length input) n div n * n = length (fold_stream input n)" by simp
qed

section \<open>Lengths of derived keys\<close>

lemma length_n_fold:
  assumes "input \<noteq> []" and "0 < n" shows "length (n_fold input n) = n"
  using sum_chunks [of "lcm (length input) n div n" n "fold_stream input n"] n_fold_stream [OF assms] by simp

lemma ossl_result_Inr: "ossl_result r = Inr x \<longleftrightarrow> r = Some x"
  by (cases r) (simp_all add: ossl_result_def)

lemma aes_cbc_encrypt_block_length:
  "ossl_ok S \<Longrightarrow> aes_cbc_encrypt_block S key block = Inr out \<Longrightarrow> length out = length block"
  by (auto simp: aes_cbc_encrypt_block_def bind_res_eq_Inr ossl_result_Inr dest: aes_cbc_length)

lemma dr_loop_length:
  assumes "ossl_ok S" and "length block = 16" and "klen \<le> length out + n"
    and "dr_loop S n key klen block out = Inr out'"
  shows "klen \<le> length out'"
  using assms(2-)
proof (induction n arbitrary: block out)
  case (Suc n)
  show ?case
  proof (cases "length out < klen")
    case True
    with Suc.prems obtain block' where b: "aes_cbc_encrypt_block S key block = Inr block'"
      and rest: "dr_loop S n key klen block' (out @ block') = Inr out'"
      by (auto simp: bind_res_eq_Inr)
    have "length block' = 16" using aes_cbc_encrypt_block_length [OF assms(1) b] Suc.prems(1) by simp
    with Suc.IH [OF this _ rest] Suc.prems(2) show ?thesis by simp
  qed (use Suc.prems in auto)
qed simp

text \<open>The bound on the rounds of \<open>dr\<close> is enough: the result always has the length asked for.\<close>

lemma dr_length:
  assumes "ossl_ok S" and "const \<noteq> []" and "dr S key const klen = Inr out"
  shows "length out = klen"
proof -
  obtain block out' where b: "aes_cbc_encrypt_block S key (n_fold const 16) = Inr block"
    and l: "dr_loop S klen key klen block block = Inr out'" and out: "out = take klen out'"
    using assms(3) by (auto simp: dr_def bind_res_eq_Inr)
  have "length block = 16"
    using aes_cbc_encrypt_block_length [OF assms(1) b] length_n_fold [OF assms(2), of 16] by simp
  from dr_loop_length [OF assms(1) this _ l] out show ?thesis by simp
qed

lemma kdf_hmac_sha2_length:
  assumes "ossl_ok S" and "kdf_hmac_sha2 S key label k_bits d = Inr out"
    and "d = Sha2_256 \<and> unat k_bits \<le> 256 \<or> d = Sha2_384 \<and> unat k_bits \<le> 384"
  shows "length out = (unat k_bits + 7) div 8"
proof -
  obtain alg m where "alg = (if d = Sha2_256 then HmacSha2_256 else HmacSha2_384)"
    and "ossl_hmac S alg key (to_be 4 (1 :: u32) @ label @ [0] @ to_be 4 k_bits) = Some m"
    and "out = take ((unat k_bits + 7) div 8) m"
    using assms(2,3) by (auto simp: kdf_hmac_sha2_def bind_res_eq_Inr ossl_result_Inr)
  moreover from this have "length m = mac_len alg" using hmac_length [OF assms(1)] by blast
  ultimately show ?thesis using assms(3) by (auto simp: mac_len_def)
qed

lemma string_to_key_length:
  assumes "ossl_ok S" and "string_to_key S e passphrase salt it = Inr key"
  shows "length key = key_len e"
proof (cases "is_rfc8009 e")
  case True
  then obtain tkey where
    "kdf_hmac_sha2 S tkey (as_bytes ''kerberos'') (of_nat (key_len e * 8)) (enctype_digest e) = Inr key"
    using assms(2) by (auto simp: string_to_key_def Let_def bind_res_eq_Inr)
  from kdf_hmac_sha2_length [OF assms(1) this] True show ?thesis
    by (auto simp: is_rfc8009_def key_len_def enctype_aes_size_def enctype_digest_def)
next
  case False
  then obtain tkey where "dk S tkey (as_bytes ''kerberos'') (key_len e) = Inr key"
    using assms(2) by (auto simp: string_to_key_def Let_def bind_res_eq_Inr)
  then show ?thesis unfolding dk_def by (intro dr_length [OF assms(1)]) (simp_all add: as_bytes_def)
qed

lemma derive_ke_length:
  assumes "ossl_ok S" and "derive_ke_ki S e base_key usage = Inr keys"
  shows "length (dk_ke keys) = key_len e"
proof (cases "is_rfc8009 e")
  case True
  then obtain ke where "dk_ke keys = ke"
    "kdf_hmac_sha2 S base_key (to_be 4 usage @ [0xAA])
       (case e of Aes128CtsHmacSha256_128 \<Rightarrow> 128 | _ \<Rightarrow> 256) (enctype_digest e) = Inr ke"
    using assms(2) by (auto simp: derive_ke_ki_def Let_def is_rfc8009_def bind_res_eq_Inr)
  with kdf_hmac_sha2_length [OF assms(1) this(2)] True show ?thesis
    by (auto simp: is_rfc8009_def key_len_def enctype_aes_size_def enctype_digest_def)
next
  case False
  then have "dr S base_key (to_be 4 usage @ [0xAA]) (key_len e) = Inr (dk_ke keys)"
    using assms(2) by (auto simp: derive_ke_ki_def Let_def bind_res_eq_Inr dk_def)
  then show ?thesis by (rule dr_length [OF assms(1), rotated]) simp
qed

section \<open>Decryption undoes encryption\<close>

lemma krb_encrypt_Inr:
  assumes "krb_encrypt S e base_key usage plaintext w = (Inr out, w')"
  obtains keys confounder c h where "derive_ke_ki S e base_key usage = Inr keys"
    "ossl_random S ''iron-kdc confounder'' 16 w = (Inr confounder, w')"
    "aes_cts_encrypt S (dk_ke keys) zero_iv (confounder @ plaintext) = Inr (c, drop (length c - 16) c)"
    "hmac_full S (enctype_mac_alg e) (dk_ki keys) (if is_rfc8009 e then zero_iv @ c else confounder @ plaintext) = Inr h"
    "out = c @ take (hmac_len e) h"
  using assms that
  by (fastforce simp: krb_encrypt_def and_then_eq_Inr bind_res_eq_Inr Let_def aes_cts_encrypt_def)

lemma aes_cts_roundtrip:
  assumes "ossl_ok S" and "aes_cts_encrypt S key iv m = Inr (c, n)"
  shows "aes_cts_decrypt S key iv c = Inr m" and "length c = length m"
proof -
  obtain z where z: "aes_size_of_key key = Inr z" "ossl_aes_cts S z True key iv m = Some c"
    using assms(2) by (auto simp: aes_cts_encrypt_def bind_res_eq_Inr ossl_result_Inr)
  with aes_cts_inverse [OF assms(1) z(2)]
  show "aes_cts_decrypt S key iv c = Inr m" "length c = length m"
    by (simp_all add: aes_cts_decrypt_def ossl_result_Inr)
qed

lemma hmac_len_le: "hmac_len e \<le> mac_len (enctype_mac_alg e)"
  by (cases e) (simp_all add: hmac_len_def mac_len_def enctype_mac_alg_def)

lemma krb_decrypt_encrypt:
  assumes "ossl_ok S" and "krb_encrypt S e base_key usage plaintext w = (Inr out, w')"
  shows "krb_decrypt S e base_key usage out = Inr plaintext"
proof -
  obtain keys confounder c h where keys: "derive_ke_ki S e base_key usage = Inr keys"
    and r: "ossl_random S ''iron-kdc confounder'' 16 w = (Inr confounder, w')"
    and c: "aes_cts_encrypt S (dk_ke keys) zero_iv (confounder @ plaintext) = Inr (c, drop (length c - 16) c)"
    and h: "hmac_full S (enctype_mac_alg e) (dk_ki keys) (if is_rfc8009 e then zero_iv @ c else confounder @ plaintext) = Inr h"
    and out: "out = c @ take (hmac_len e) h"
    by (rule krb_encrypt_Inr [OF assms(2)])
  have conf: "length confounder = 16" using random_length [OF assms(1) r] .
  note cts = aes_cts_roundtrip [OF assms(1) c]
  have "length h = mac_len (enctype_mac_alg e)"
    using h hmac_length [OF assms(1)] by (simp add: hmac_full_def ossl_result_Inr)
  then have len: "length out = length c + hmac_len e" using hmac_len_le [of e] by (simp add: out)
  have "take (length out - hmac_len e) out = c" "drop (length out - hmac_len e) out = take (hmac_len e) h"
    using len by (simp_all add: out)
  then show ?thesis
    using len conf cts h
    by (simp add: krb_decrypt_def Let_def keys constant_time_eq_iff split: if_splits)
qed

text \<open>
  C37: Kerberos decryption returns exactly what was encrypted, for each of the four encryption types,
  every key and key usage and every plaintext, the empty one included: the confounder is removed and
  the integrity check passes.
\<close>

theorem krb_encryption_roundtrip:
  assumes "ossl_ok S" and "krb_encrypt S e base_key usage plaintext w = (Inr out, w')"
  shows "krb_decrypt S e base_key usage out = Inr plaintext"
  using assms by (rule krb_decrypt_encrypt)

theorem krb_encryption_roundtrip_witness:
  "\<exists>out. fst (krb_encrypt demo_ossl Aes256CtsHmacSha384_192 (replicate 32 1) 2 [9, 8, 7] 5) = Inr out \<and>
     krb_decrypt demo_ossl Aes256CtsHmacSha384_192 (replicate 32 1) 2 out = Inr [9, 8, 7]"
proof -
  have "\<not> isl (fst (krb_encrypt demo_ossl Aes256CtsHmacSha384_192 (replicate 32 1) 2 [9, 8, 7] 5))"
    by code_simp
  then obtain out w' where "krb_encrypt demo_ossl Aes256CtsHmacSha384_192 (replicate 32 1) 2 [9, 8, 7] 5 = (Inr out, w')"
    by (metis isl_def obj_sumE prod.collapse)
  with krb_encryption_roundtrip [OF demo_ossl_ok this] show ?thesis by auto
qed

text \<open>
  C38: What \<open>n_fold\<close> computes (RFC 3961): the input is repeated until its length is a multiple of the
  output length, each copy rotated right by 13 bits from the one before, and the pieces of the output
  length are added as big-endian numbers with end-around carry, that is, modulo a power of 256 minus
  one. The rotation moves every bit of the string by the same distance.
\<close>

theorem n_fold_exact:
  assumes "input \<noteq> []" and "0 < n"
  shows "length (n_fold input n) = n \<and>
    be_val (n_fold input n) mod (256 ^ n - 1) =
      (\<Sum>c < lcm (length input) n div n. be_val (take n (drop (c * n) (fold_stream input n)))) mod (256 ^ n - 1) \<and>
    bits (rot13 input) = rotate (8 * length input - 13 mod (8 * length input)) (bits input)"
  using sum_chunks [of "lcm (length input) n div n" n "fold_stream input n"] n_fold_stream [OF assms]
    bits_rotate_right [OF assms(1), of 13]
  by (simp add: rot13_def)

theorem n_fold_exact_witness:
  "length (n_fold [0x30, 0x31, 0x32, 0x33, 0x34, 0x35] 8) = 8 \<and>
   n_fold [0x30, 0x31, 0x32, 0x33, 0x34, 0x35] 8 = [0xbe, 0x07, 0x26, 0x31, 0x27, 0x6b, 0x19, 0x55]"
proof -
  have "length (n_fold [0x30, 0x31, 0x32, 0x33, 0x34, 0x35] 8) = 8"
    using n_fold_exact [of "[0x30, 0x31, 0x32, 0x33, 0x34, 0x35]" 8] by simp
  moreover have "n_fold [0x30, 0x31, 0x32, 0x33, 0x34, 0x35] 8 = [0xbe, 0x07, 0x26, 0x31, 0x27, 0x6b, 0x19, 0x55]"
    by code_simp
  ultimately show ?thesis by blast
qed

text \<open>
  The keys that are derived have the length of their encryption type, so that the cipher accepts
  them: the long-term key from a password and the encryption key of every usage.
\<close>

theorem derived_key_lengths:
  assumes "ossl_ok S" and "string_to_key S e passphrase salt it = Inr key"
    and "derive_ke_ki S e key usage = Inr keys"
  shows "length key = key_len e \<and> aes_size_of_key (dk_ke keys) = Inr (enctype_aes_size e)"
proof -
  have "length (dk_ke keys) = key_len e" using derive_ke_length [OF assms(1,3)] .
  then have "aes_size_of_key (dk_ke keys) = Inr (enctype_aes_size e)"
    by (cases e) (simp_all add: aes_size_of_key_def key_len_def enctype_aes_size_def)
  then show ?thesis using string_to_key_length [OF assms(1,2)] by simp
qed

lemma demo_kdf: "d \<noteq> Sha1 \<Longrightarrow> \<exists>x. kdf_hmac_sha2 demo_ossl key label k d = Inr x"
  by (cases d) (simp_all add: kdf_hmac_sha2_def demo_ossl_def ossl_result_def)

theorem derived_key_lengths_witness:
  "\<exists>key. string_to_key demo_ossl Aes128CtsHmacSha256_128 (as_bytes ''password'') (replicate 16 3) None = Inr key \<and>
     length key = 16"
proof -
  have d: "enctype_digest Aes128CtsHmacSha256_128 \<noteq> Sha1" "is_rfc8009 Aes128CtsHmacSha256_128"
    by (simp_all add: enctype_digest_def is_rfc8009_def)
  have "\<exists>x. pbkdf2 demo_ossl p s it n g = Inr x" for p s it n g
    by (simp add: pbkdf2_def demo_ossl_def ossl_result_def)
  with demo_kdf [OF d(1)] obtain key where
    key: "string_to_key demo_ossl Aes128CtsHmacSha256_128 (as_bytes ''password'') (replicate 16 3) None = Inr key"
    unfolding string_to_key_def Let_def if_P [OF d(2)] bind_res_eq_Inr by metis
  obtain keys where "derive_ke_ki demo_ossl Aes128CtsHmacSha256_128 key 2 = Inr keys"
    using demo_kdf [OF d(1)]
    unfolding derive_ke_ki_def Let_def if_P [OF d(2)] enctype.case prod.case bind_res_eq_Inr by metis
  from derived_key_lengths [OF demo_ossl_ok key this] key show ?thesis
    by (simp add: key_len_def enctype_aes_size_def)
qed

end
