(* ===== verification/Gss.thy ===== *)
theory Gss
  imports Kerberos
begin

text \<open>
  GSS-API tokens for LDAP binds (crates/ldap/src/gssapi/token.rs and wrap.rs): the framing of a
  context token with its BER length, and Wrap tokens, sealed or only signed, with the rotation a
  sender may apply. The lemmas show that what is built is parsed back, for every length and every
  rotation.
\<close>

unbundle bit_operations_syntax

section \<open>Context tokens\<close>

definition KRB5_MECH_OID_DER :: bytes where
  "KRB5_MECH_OID_DER = [0x06, 0x09, 0x2a, 0x86, 0x48, 0x86, 0xf7, 0x12, 0x01, 0x02, 0x02]"

definition TOK_ID_AP_REQ :: bytes where
  "TOK_ID_AP_REQ = [0x01, 0x00]"

definition TOK_ID_AP_REP :: bytes where
  "TOK_ID_AP_REP = [0x02, 0x00]"

definition TOK_ID_WRAP :: bytes where
  "TOK_ID_WRAP = [0x05, 0x04]"

datatype token_error = Tok_Empty | NotInitialToken | Tok_Truncated | UnknownMechanism | Tok_WrongTokId bytes bytes

text \<open>The length and the position after it; \<open>usize\<close> is 64 bits wide.\<close>

definition read_ber_length :: "bytes \<Rightarrow> nat \<Rightarrow> token_error + nat \<times> nat" where
  "read_ber_length buf pos =
     (if length buf \<le> pos then Inl Tok_Truncated
      else
        (let first = buf ! pos in
         if first AND 0x80 = 0 then Inr (unat first, pos + 1)
         else
           (let n = unat (first AND 0x7F) in
            if n = 0 \<or> 8 < n then Inl Tok_Truncated
            else
              (case slice buf (pos + 1) (pos + 1 + n) of
                 None \<Rightarrow> Inl Tok_Truncated
               | Some bs \<Rightarrow>
                   Inr (unat (fold (\<lambda>b acc. push_bit 8 acc OR ucast b) bs (0 :: u64)), pos + 1 + n)))))"

definition write_ber_length :: "nat \<Rightarrow> bytes" where
  "write_ber_length len =
     (if len < 128 then [of_nat len]
      else
        (let bs = to_be 8 (of_nat len :: u64);
             zeros = takeWhile (\<lambda>b. b = 0) bs;
             first_nonzero = (if length zeros = 8 then 7 else length zeros);
             content = drop first_nonzero bs in
         (0x80 OR of_nat (length content)) # content))"

definition parse_initial_context_token :: "bytes \<Rightarrow> token_error + bytes" where
  "parse_initial_context_token buf =
     (if buf = [] then Inl Tok_Empty
      else if buf ! 0 \<noteq> 0x60 then Inl NotInitialToken
      else
        bind_res (read_ber_length buf 1) (\<lambda>(len, pos).
        case slice buf pos (pos + len) of
          None \<Rightarrow> Inl Tok_Truncated
        | Some body \<Rightarrow>
            if take (length KRB5_MECH_OID_DER) body \<noteq> KRB5_MECH_OID_DER then Inl UnknownMechanism
            else Inr (drop (length KRB5_MECH_OID_DER) body)))"

definition build_initial_context_token :: "bytes \<Rightarrow> bytes" where
  "build_initial_context_token inner =
     [0x60] @ write_ber_length (length KRB5_MECH_OID_DER + length inner) @ KRB5_MECH_OID_DER @ inner"

definition split_tok_id :: "bytes \<Rightarrow> bytes \<Rightarrow> token_error + bytes" where
  "split_tok_id buf expected =
     (case slice buf 0 2 of
        None \<Rightarrow> Inl Tok_Truncated
      | Some tok_id \<Rightarrow> if tok_id \<noteq> expected then Inl (Tok_WrongTokId tok_id expected) else Inr (drop 2 buf))"

section \<open>Wrap tokens\<close>

datatype wrap_error = Wrap_Truncated | Wrap_WrongTokId | BadChecksum | HeaderMismatch | Wrap_Crypto crypto_error

definition SENT_BY_ACCEPTOR :: u8 where
  "SENT_BY_ACCEPTOR = 0x01"

definition SEALED :: u8 where
  "SEALED = 0x02"

definition sign_input :: "bytes \<Rightarrow> bytes \<Rightarrow> bytes" where
  "sign_input plaintext header = plaintext @ header"

text \<open>The sixteen header bytes from their fields: flags, EC, RRC and sequence number.\<close>

definition wrap_header :: "u8 \<Rightarrow> bytes \<Rightarrow> bytes \<Rightarrow> u64 \<Rightarrow> bytes" where
  "wrap_header flags ec rrc seq = TOK_ID_WRAP @ [flags, 0xFF] @ ec @ rrc @ to_be 8 seq"

definition gss_wrap ::
  "'w ossl \<Rightarrow> enctype \<Rightarrow> bytes \<Rightarrow> u32 \<Rightarrow> bool \<Rightarrow> u64 \<Rightarrow> bytes \<Rightarrow> ('w, wrap_error, bytes) call" where
  "gss_wrap S e session_key key_usage sealed seq plaintext =
     (let flags = SENT_BY_ACCEPTOR OR (if sealed then SEALED else 0) in
      if sealed then
        (let header = wrap_header flags [0, 0] [0, 0] seq in
         and_then (map_err Wrap_Crypto (krb_encrypt S e session_key key_usage (sign_input plaintext header))) (\<lambda>body.
         ok_call (header @ body)))
      else
        (let checksum_len = hmac_len e;
             header = wrap_header flags (to_be 2 (of_nat checksum_len :: u16)) [0, 0] seq;
             header_for_checksum = wrap_header flags [0, 0] [0, 0] seq in
         lift_call
           (bind_res (map_sum Wrap_Crypto id (krb_checksum S e session_key key_usage (sign_input plaintext header_for_checksum)))
             (\<lambda>mic. Inr (header @ plaintext @ mic)))))"

text \<open>A copy of the header with two of its bytes replaced by zeros.\<close>

definition zero_at :: "nat \<Rightarrow> bytes \<Rightarrow> bytes" where
  "zero_at i header = header[i := 0, i + 1 := 0]"

definition gss_unwrap ::
  "'w ossl \<Rightarrow> enctype \<Rightarrow> bytes \<Rightarrow> u32 \<Rightarrow> bytes \<Rightarrow> wrap_error + bytes" where
  "gss_unwrap S e session_key key_usage token =
     (if length token < 16 then Inl Wrap_Truncated
      else if take 2 token \<noteq> TOK_ID_WRAP then Inl Wrap_WrongTokId
      else
        (let sealed = (token ! 2 AND SEALED \<noteq> 0);
             rrc0 = unat (of_be [token ! 6, token ! 7] :: u16);
             rest = drop 16 token;
             n = length rest;
             rrc = (if n = 0 then 0 else rrc0 mod n);
             unrotated = drop rrc rest @ take rrc rest in
         if sealed then
           bind_res (map_sum Wrap_Crypto id (krb_decrypt S e session_key key_usage unrotated)) (\<lambda>decrypted.
           if length decrypted < 16 then Inl Wrap_Truncated
           else
             (let plaintext = take (length decrypted - 16) decrypted;
                  header_copy = drop (length decrypted - 16) decrypted in
              if header_copy \<noteq> zero_at 6 (take 16 token) then Inl HeaderMismatch else Inr plaintext))
         else
           (let checksum_len = hmac_len e in
            if length unrotated < checksum_len then Inl Wrap_Truncated
            else
              (let plaintext = take (length unrotated - checksum_len) unrotated;
                   mic = drop (length unrotated - checksum_len) unrotated;
                   header_for_checksum = zero_at 6 (zero_at 4 (take 16 token)) in
               bind_res (map_sum Wrap_Crypto id (krb_checksum S e session_key key_usage (sign_input plaintext header_for_checksum)))
                 (\<lambda>expected_mic. if \<not> constant_time_eq expected_mic mic then Inl BadChecksum else Inr plaintext)))))"

section \<open>BER lengths\<close>

lemma fold_be: "fold (\<lambda>b acc. push_bit 8 acc OR ucast b) bs w = push_bit (8 * length bs) w OR of_be bs"
  for w :: u64
proof (induction bs arbitrary: w)
  case (Cons b bs)
  have "push_bit (8 * length bs) (push_bit 8 w OR ucast b) =
        push_bit (8 * length (b # bs)) w OR push_bit (8 * length bs) (ucast b)"
    by (simp add: add.commute)
  then show ?case using Cons.IH by (simp add: of_be_def of_le_snoc or.assoc or.commute)
qed (simp add: of_be_def)

lemma of_be_zeros: "(\<forall>b \<in> set zs. b = 0) \<Longrightarrow> of_be (zs @ bs) = (of_be bs :: u64)"
proof (induction zs)
  case (Cons z zs)
  then show ?case using of_le_append_zero [where ?'a = 64, of "rev bs @ rev zs"] by (simp add: of_be_def)
qed simp

lemma read_write_ber_length:
  assumes "len < 2 ^ 64"
  shows "read_ber_length (pre @ write_ber_length len @ rest) (length pre) =
         Inr (len, length pre + length (write_ber_length len))"
proof (cases "len < 128")
  case True
  have n: "unat (of_nat len :: u8) = len" using True by (simp add: unat_of_nat take_bit_nat_eq_self)
  have "\<not> bit (unat (of_nat len :: u8)) 7" unfolding n using True by (simp add: bit_iff_odd)
  then have "\<not> bit (of_nat len :: u8) 7" by (simp add: bit_unsigned_iff)
  then have "(of_nat len :: u8) AND 0x80 = 0"
    using and_exp_eq_0_iff_not_bit [of "of_nat len :: u8" 7] by simp
  then show ?thesis using True n
    by (simp add: read_ber_length_def write_ber_length_def nth_append Let_def)
next
  case False
  define bs where "bs = to_be 8 (of_nat len :: u64)"
  define zs where "zs = takeWhile (\<lambda>b. b = 0) bs"
  define content where "content = drop (length zs) bs"
  have split: "bs = zs @ content"
    unfolding zs_def content_def by (metis takeWhile_dropWhile_id dropWhile_eq_drop)
  have val: "of_be bs = (of_nat len :: u64)" by (simp add: bs_def)
  have u: "unat (of_nat len :: u64) = len" using assms by (simp add: unat_of_nat take_bit_nat_eq_self)
  have "\<forall>b \<in> set zs. b = 0" by (auto simp: zs_def dest: set_takeWhileD)
  then have c: "of_be content = (of_nat len :: u64)" using val split of_be_zeros by metis
  have "content \<noteq> []"
  proof
    assume "content = []"
    then have "(of_nat len :: u64) = 0" using c by (simp add: of_be_def)
    then show False using u False by simp
  qed
  moreover have "length bs = 8" by (simp add: bs_def)
  ultimately have len: "length zs < 8" "length content = 8 - length zs"
    using split by (metis length_append le_add2 length_greater_0_conv less_add_same_cancel1,
        metis length_append diff_add_inverse)
  then have len': "0 < length content" "length content \<le> 8" by simp_all
  with len have "length content \<in> {1, 2, 3, 4, 5, 6, 7, 8}" by auto
  then have b: "(0x80 OR of_nat (length content) :: u8) AND 0x80 \<noteq> 0"
    "unat ((0x80 OR of_nat (length content) :: u8) AND 0x7F) = length content"
    by auto
  have w: "write_ber_length len = (0x80 OR of_nat (length content)) # content"
    using False len(1)
    by (simp add: write_ber_length_def Let_def content_def zs_def [symmetric] bs_def [symmetric])
  show ?thesis
    unfolding read_ber_length_def w Let_def
    using b len' by (simp add: nth_append slice_def fold_be c u)
qed

lemma parse_build_token:
  assumes "length inner < 2 ^ 63"
  shows "parse_initial_context_token (build_initial_context_token inner) = Inr inner"
proof -
  let ?len = "length KRB5_MECH_OID_DER + length inner"
  have oid: "length KRB5_MECH_OID_DER = 11" by (simp add: KRB5_MECH_OID_DER_def)
  have "?len < 2 ^ 64" using assms by (simp add: oid)
  note r = read_write_ber_length [OF this, of "[0x60]" "KRB5_MECH_OID_DER @ inner"]
  let ?hdr = "[0x60] @ write_ber_length ?len"
  have "slice (?hdr @ KRB5_MECH_OID_DER @ inner) (length ?hdr) (length ?hdr + ?len) = Some (KRB5_MECH_OID_DER @ inner)"
    by (simp add: slice_def)
  then show ?thesis
    using r by (simp add: parse_initial_context_token_def build_initial_context_token_def)
qed

section \<open>Unwrapping\<close>

text \<open>The right rotation of a token's body by \<open>k\<close>, announced in its RRC field.\<close>

definition rotate_token :: "u16 \<Rightarrow> bytes \<Rightarrow> bytes" where
  "rotate_token k token =
     (let rest = drop 16 token;
          n = length rest;
          m = n - (if n = 0 then 0 else unat k mod n) in
      take 6 token @ to_be 2 k @ take 8 (drop 8 token) @ drop m rest @ take m rest)"

lemma length2: "length xs = 2 \<Longrightarrow> \<exists>a b. xs = [a, b]"
  by (cases xs; cases "tl xs") auto

lemma wrap_header_fields:
  assumes "length ec = 2" and "length rrc = 2"
  shows "length (wrap_header flags ec rrc seq) = 16"
    and "take 2 (wrap_header flags ec rrc seq @ rest) = TOK_ID_WRAP"
    and "(wrap_header flags ec rrc seq @ rest) ! 2 = flags"
    and "[(wrap_header flags ec rrc seq @ rest) ! 6, (wrap_header flags ec rrc seq @ rest) ! 7] = rrc"
    and "zero_at 6 (wrap_header flags ec rrc seq) = wrap_header flags ec [0, 0] seq"
    and "zero_at 4 (wrap_header flags ec rrc seq) = wrap_header flags [0, 0] rrc seq"
    and "take 6 (wrap_header flags ec rrc seq @ rest) = TOK_ID_WRAP @ [flags, 0xFF] @ ec"
    and "drop 8 (wrap_header flags ec rrc seq) = to_be 8 seq"
  using length2 [OF assms(1)] length2 [OF assms(2)]
  by (auto simp: wrap_header_def TOK_ID_WRAP_def zero_at_def)

lemma rotate_header:
  assumes "length ec = 2" and "length rrc = 2"
  shows "rotate_token k (wrap_header flags ec rrc seq @ rest) =
    wrap_header flags ec (to_be 2 k) seq @
      (let m = length rest - (if rest = [] then 0 else unat k mod length rest) in drop m rest @ take m rest)"
  using wrap_header_fields [OF assms]
  by (simp add: rotate_token_def Let_def wrap_header_def TOK_ID_WRAP_def)

lemma unrotate:
  fixes rest :: bytes and j :: nat
  defines "m \<equiv> length rest - (if rest = [] then 0 else j mod length rest)"
  shows "(let r = drop m rest @ take m rest; n = length r; i = (if n = 0 then 0 else j mod n) in drop i r @ take i r) = rest"
proof (cases "rest = []")
  case False
  then have "j mod length rest < length rest" by simp
  then have d: "length (drop m rest) = j mod length rest" and "m \<le> length rest" using False by (simp_all add: m_def)
  then have n: "length (drop m rest @ take m rest) = length rest" by simp
  have "drop (j mod length rest) (drop m rest @ take m rest) = take m rest"
    "take (j mod length rest) (drop m rest @ take m rest) = drop m rest"
    unfolding d [symmetric] by simp_all
  then show ?thesis unfolding Let_def n using False by simp
qed simp

lemma unwrap_header:
  assumes "length ec = 2" and "length rrc = 2"
  shows "gss_unwrap S e key usage (wrap_header flags ec rrc seq @ r) =
    (let n = length r; i = (if n = 0 then 0 else unat (of_be rrc :: u16) mod n); unrotated = drop i r @ take i r in
     if flags AND SEALED \<noteq> 0 then
       bind_res (map_sum Wrap_Crypto id (krb_decrypt S e key usage unrotated)) (\<lambda>decrypted.
       if length decrypted < 16 then Inl Wrap_Truncated
       else if drop (length decrypted - 16) decrypted \<noteq> wrap_header flags ec [0, 0] seq then Inl HeaderMismatch
       else Inr (take (length decrypted - 16) decrypted))
     else if length unrotated < hmac_len e then Inl Wrap_Truncated
     else
       bind_res (map_sum Wrap_Crypto id (krb_checksum S e key usage
           (sign_input (take (length unrotated - hmac_len e) unrotated) (wrap_header flags [0, 0] [0, 0] seq))))
         (\<lambda>mic. if \<not> constant_time_eq mic (drop (length unrotated - hmac_len e) unrotated) then Inl BadChecksum
                else Inr (take (length unrotated - hmac_len e) unrotated)))"
proof -
  note f = wrap_header_fields [OF assms]
  have z: "zero_at 6 (zero_at 4 (wrap_header flags ec rrc seq)) = wrap_header flags [0, 0] [0, 0] seq"
    using wrap_header_fields(5) [of "[0, 0]" rrc] assms f(6) by simp
  have t16: "take 16 (wrap_header flags ec rrc seq @ r) = wrap_header flags ec rrc seq"
    "drop 16 (wrap_header flags ec rrc seq @ r) = r" "length (wrap_header flags ec rrc seq @ r) < 16 \<longleftrightarrow> False"
    using f(1) by simp_all
  show ?thesis
    unfolding gss_unwrap_def Let_def f(2,3,4) t16 f(5) z
    by (simp only: f(1) t16(3) refl if_False not_True_eq_False)
qed

lemma gss_unwrap_wrap:
  assumes "ossl_ok S" and "gss_wrap S e key usage sealed seq plaintext w = (Inr token, w')"
  shows "gss_unwrap S e key usage (rotate_token k token) = Inr plaintext"
proof -
  have two: "length [0, 0 :: u8] = 2" and be2: "length (to_be 2 x) = 2" for x :: u16 by simp_all
  have le: "LENGTH(16) \<le> 8 * 2" by simp
  show ?thesis
  proof (cases sealed)
    case True
    let ?h = "wrap_header (SENT_BY_ACCEPTOR OR SEALED) [0, 0] [0, 0] seq"
    obtain body where enc: "krb_encrypt S e key usage (sign_input plaintext ?h) w = (Inr body, w')"
      and t: "token = ?h @ body"
      using assms(2) True by (auto simp: gss_wrap_def Let_def and_then_eq_Inr)
    have dec: "krb_decrypt S e key usage body = Inr (sign_input plaintext ?h)"
      using assms(1) enc by (rule krb_decrypt_encrypt)
    have flag: "((SENT_BY_ACCEPTOR OR SEALED) AND SEALED \<noteq> 0) = True" by (simp add: SENT_BY_ACCEPTOR_def SEALED_def)
    have "length ?h = 16" by (simp add: wrap_header_fields)
    then show ?thesis
      unfolding t rotate_header [OF two two] unwrap_header [OF two be2] of_be_to_be_id [OF le] Let_def flag
        unrotate [of body "unat k", unfolded Let_def] dec
      by (simp add: sign_input_def)
  next
    case False
    let ?ec = "to_be 2 (of_nat (hmac_len e) :: u16)"
    let ?h = "wrap_header SENT_BY_ACCEPTOR ?ec [0, 0] seq"
    obtain mic where mic: "krb_checksum S e key usage (sign_input plaintext (wrap_header SENT_BY_ACCEPTOR [0, 0] [0, 0] seq)) = Inr mic"
      and t: "token = ?h @ (plaintext @ mic)"
      using assms(2) False by (auto simp: gss_wrap_def Let_def bind_res_eq_Inr map_sum_def split: sum.splits)
    have len: "length mic = hmac_len e"
      using mic hmac_length [OF assms(1)] hmac_len_le [of e]
      by (auto simp: krb_checksum_def hmac_full_def bind_res_eq_Inr ossl_result_Inr)
    have flag: "(SENT_BY_ACCEPTOR AND SEALED \<noteq> 0) = False" by (simp add: SENT_BY_ACCEPTOR_def SEALED_def)
    have body: "length (plaintext @ mic) - hmac_len e = length plaintext" "(length (plaintext @ mic) < hmac_len e) = False"
      using len by simp_all
    show ?thesis
      unfolding t rotate_header [OF be2 two] unwrap_header [OF be2 be2] of_be_to_be_id [OF le] Let_def flag
        unrotate [of "plaintext @ mic" "unat k", unfolded Let_def] body
      by (simp add: mic constant_time_eq_iff)
  qed
qed

section \<open>Correctness of the tokens\<close>

text \<open>
  C40: Protected LDAP traffic arrives as sent. A Wrap token, sealed or only signed, under every
  encryption type, key usage and sequence number, unwraps to the plaintext, whatever right rotation
  the sender applied to its body and announced in the RRC field. A context token, for every length
  a buffer can have, is parsed back to the inner token it was built from.
\<close>

theorem gss_tokens_roundtrip:
  assumes "ossl_ok S" and "gss_wrap S e key usage sealed seq plaintext w = (Inr token, w')"
    and "length inner < 2 ^ 63"
  shows "gss_unwrap S e key usage (rotate_token k token) = Inr plaintext \<and>
         parse_initial_context_token (build_initial_context_token inner) = Inr inner"
  using gss_unwrap_wrap [OF assms(1,2)] parse_build_token [OF assms(3)] by simp

theorem gss_tokens_roundtrip_witness:
  "\<exists>token. fst (gss_wrap demo_ossl Aes256CtsHmacSha384_192 (replicate 32 1) 22 True 1 [1, 2, 3] 5) = Inr token \<and>
     gss_unwrap demo_ossl Aes256CtsHmacSha384_192 (replicate 32 1) 22 (rotate_token 3 token) = Inr [1, 2, 3]"
proof -
  have "\<not> isl (fst (gss_wrap demo_ossl Aes256CtsHmacSha384_192 (replicate 32 1) 22 True 1 [1, 2, 3] 5))"
    by code_simp
  then obtain token w' where
    "gss_wrap demo_ossl Aes256CtsHmacSha384_192 (replicate 32 1) 22 True 1 [1, 2, 3] 5 = (Inr token, w')"
    by (metis isl_def obj_sumE prod.collapse)
  with gss_tokens_roundtrip [OF demo_ossl_ok this, of "[]" 3] show ?thesis by auto
qed

end
