(* ===== verification/Md4.thy ===== *)
theory Md4
  imports Prelude
begin

text \<open>
  MD4 and the NT hash (crates/crypto/src/md4.rs), written in the program itself. The lemmas give the
  shape of the padding and the length of the digest.
\<close>

unbundle bit_operations_syntax

definition md4_f :: "u32 \<Rightarrow> u32 \<Rightarrow> u32 \<Rightarrow> u32" where
  "md4_f x y z = (x AND y) OR (NOT x AND z)"

definition md4_g :: "u32 \<Rightarrow> u32 \<Rightarrow> u32 \<Rightarrow> u32" where
  "md4_g x y z = (x AND y) OR (x AND z) OR (y AND z)"

definition md4_h :: "u32 \<Rightarrow> u32 \<Rightarrow> u32 \<Rightarrow> u32" where
  "md4_h x y z = x XOR y XOR z"

definition rotate_left :: "nat \<Rightarrow> u32 \<Rightarrow> u32" where
  "rotate_left n w = push_bit n w OR drop_bit (32 - n) w"

record md4_state =
  st_a :: u32
  st_b :: u32
  st_c :: u32
  st_d :: u32

text \<open>
  One step of a round: the round function, its constant, the shift and the word of the block. The
  four registers move round by one place.
\<close>

definition md4_step ::
  "(u32 \<Rightarrow> u32 \<Rightarrow> u32 \<Rightarrow> u32) \<Rightarrow> u32 \<Rightarrow> nat \<Rightarrow> u32 \<Rightarrow> md4_state \<Rightarrow> md4_state" where
  "md4_step fn k s x st =
     (let t = st_a st + fn (st_b st) (st_c st) (st_d st) + x + k in
      \<lparr>st_a = st_d st, st_b = rotate_left s t, st_c = st_b st, st_d = st_c st\<rparr>)"

definition md4_round ::
  "(u32 \<Rightarrow> u32 \<Rightarrow> u32 \<Rightarrow> u32) \<Rightarrow> u32 \<Rightarrow> nat list \<Rightarrow> nat list \<Rightarrow> u32 list \<Rightarrow> md4_state \<Rightarrow> md4_state" where
  "md4_round fn k shifts order xs st =
     fold (\<lambda>i st. md4_step fn k (shifts ! (i mod 4)) (xs ! (order ! i)) st) [0..<16] st"

definition ROUND2_ORDER :: "nat list" where
  "ROUND2_ORDER = [0, 4, 8, 12, 1, 5, 9, 13, 2, 6, 10, 14, 3, 7, 11, 15]"

definition ROUND3_ORDER :: "nat list" where
  "ROUND3_ORDER = [0, 8, 4, 12, 2, 10, 6, 14, 1, 9, 5, 13, 3, 11, 7, 15]"

definition md4_block :: "md4_state \<Rightarrow> bytes \<Rightarrow> md4_state" where
  "md4_block st0 block =
     (let x = map of_le (chunks_exact 4 block);
          st1 = md4_round md4_f 0 [3, 7, 11, 19] [0..<16] x st0;
          st2 = md4_round md4_g 0x5A827999 [3, 5, 9, 13] ROUND2_ORDER x st1;
          st3 = md4_round md4_h 0x6ED9EBA1 [3, 9, 11, 15] ROUND3_ORDER x st2 in
      \<lparr>st_a = st_a st0 + st_a st3, st_b = st_b st0 + st_b st3,
       st_c = st_c st0 + st_c st3, st_d = st_d st0 + st_d st3\<rparr>)"

lemma pad_step:
  assumes "n mod 64 \<noteq> 56"
  shows "(120 - n mod 64) mod 64 = Suc ((120 - Suc n mod 64) mod 64)"
proof -
  define r where "r = n mod 64"
  have r: "r < 64" "r \<noteq> 56" using assms by (simp_all add: r_def)
  have s: "Suc n mod 64 = (if Suc r = 64 then 0 else Suc r)" by (simp add: r_def mod_Suc)
  have low: "(120 - k) mod 64 = 56 - k" if "k \<le> 56" for k :: nat using that by (simp add: le_mod_geq)
  have high: "(120 - k) mod 64 = 120 - k" if "56 < k" for k :: nat using that by simp
  show ?thesis
    unfolding s r_def [symmetric] using r low [of r] low [of "Suc r"] high [of r] high [of "Suc r"] low [of 0]
    by (cases "r < 56") auto
qed

function md4_pad_loop :: "bytes \<Rightarrow> bytes" where
  "md4_pad_loop p = (if length p mod 64 \<noteq> 56 then md4_pad_loop (p @ [0]) else p)"
  by pat_completeness auto
termination
  by (relation "measure (\<lambda>p. (120 - length p mod 64) mod 64)") (simp_all add: pad_step)

declare md4_pad_loop.simps [simp del]

definition md4_padded :: "bytes \<Rightarrow> bytes" where
  "md4_padded message =
     (let bit_len = (of_nat (length message) :: u64) * 8 in
      md4_pad_loop (message @ [0x80]) @ to_le 8 bit_len)"

definition md4_init :: md4_state where
  "md4_init = \<lparr>st_a = 0x67452301, st_b = 0xefcdab89, st_c = 0x98badcfe, st_d = 0x10325476\<rparr>"

definition md4 :: "bytes \<Rightarrow> bytes" where
  "md4 message =
     (let st = fold (\<lambda>block st. md4_block st block) (chunks_exact 64 (md4_padded message)) md4_init in
      to_le 4 (st_a st) @ to_le 4 (st_b st) @ to_le 4 (st_c st) @ to_le 4 (st_d st))"

section \<open>The NT hash\<close>

text \<open>
  \<open>str::encode_utf16\<close>: the code points of the UTF-8 text, those above the basic plane as a
  surrogate pair.
\<close>

definition cont_bits :: "char \<Rightarrow> nat" where
  "cont_bits c = of_char c mod 64"

fun code_points :: "string \<Rightarrow> nat list" where
  "code_points (a # b # c # d # s) =
     (case utf8_width a of
        Suc (Suc 0) \<Rightarrow> (of_char a mod 32 * 64 + cont_bits b) # code_points (c # d # s)
      | Suc (Suc (Suc 0)) \<Rightarrow> (of_char a mod 16 * 4096 + cont_bits b * 64 + cont_bits c) # code_points (d # s)
      | Suc (Suc (Suc (Suc 0))) \<Rightarrow>
          (of_char a mod 8 * 262144 + cont_bits b * 4096 + cont_bits c * 64 + cont_bits d) # code_points s
      | _ \<Rightarrow> of_char a # code_points (b # c # d # s))"
| "code_points [a, b, c] =
     (case utf8_width a of
        Suc (Suc 0) \<Rightarrow> (of_char a mod 32 * 64 + cont_bits b) # code_points [c]
      | Suc (Suc (Suc 0)) \<Rightarrow> [of_char a mod 16 * 4096 + cont_bits b * 64 + cont_bits c]
      | _ \<Rightarrow> of_char a # code_points [b, c])"
| "code_points [a, b] =
     (case utf8_width a of
        Suc (Suc 0) \<Rightarrow> [of_char a mod 32 * 64 + cont_bits b]
      | _ \<Rightarrow> of_char a # code_points [b])"
| "code_points [a] = [of_char a]"
| "code_points [] = []"

definition utf16_units :: "nat \<Rightarrow> u16 list" where
  "utf16_units p =
     (if p < 0x10000 then [of_nat p]
      else [0xD800 + of_nat ((p - 0x10000) div 0x400), 0xDC00 + of_nat ((p - 0x10000) mod 0x400)])"

definition encode_utf16 :: "string \<Rightarrow> u16 list" where
  "encode_utf16 s = concat (map utf16_units (code_points s))"

definition ntowf :: "string \<Rightarrow> bytes" where
  "ntowf password = md4 (concat (map (to_le 2) (encode_utf16 password)))"

section \<open>Shape\<close>

lemma md4_pad_loop_shape:
  "\<exists>k < 64. md4_pad_loop p = p @ replicate k 0 \<and> length (md4_pad_loop p) mod 64 = 56"
proof -
  have "md4_pad_loop p = p @ replicate ((120 - length p mod 64) mod 64) 0 \<and> length (md4_pad_loop p) mod 64 = 56"
  proof (induction p rule: md4_pad_loop.induct)
    case (1 p)
    show ?case
    proof (cases "length p mod 64 = 56")
      case True
      then show ?thesis by (simp add: md4_pad_loop.simps [of p])
    next
      case False
      have "(120 - length p mod 64) mod 64 = Suc ((120 - length (p @ [0]) mod 64) mod 64)"
        using pad_step [OF False] by simp
      moreover have e: "md4_pad_loop p = md4_pad_loop (p @ [0])" using False by (simp add: md4_pad_loop.simps [of p])
      ultimately have "md4_pad_loop p = p @ replicate ((120 - length p mod 64) mod 64) 0"
        using conjunct1 [OF 1 [OF False]] by simp
      then show ?thesis using conjunct2 [OF 1 [OF False]] unfolding e [symmetric] by blast
    qed
  qed
  then show ?thesis by (metis mod_less_divisor zero_less_numeral)
qed

lemma length_md4_padded: "length (md4_padded m) mod 64 = 0"
proof -
  have "length (md4_pad_loop (m @ [0x80])) mod 64 = 56" using md4_pad_loop_shape by blast
  then have "(length (md4_pad_loop (m @ [0x80])) + 8) mod 64 = 0" by presburger
  then show ?thesis by (simp add: md4_padded_def Let_def)
qed

lemma length_md4 [simp]: "length (md4 m) = 16"
  by (simp add: md4_def Let_def)

end
