(* ===== verification/Jose.thy ===== *)
theory Jose
  imports Crypto
begin

text \<open>
  The two encodings of an ECDSA signature (crates/crypto/src/sign.rs): OpenSSL's DER sequence of two
  integers and the fixed-size concatenation that JSON web signatures use. Key generation, signing
  and verification are library calls; the functions around them take their results.
\<close>

unbundle bit_operations_syntax

definition P256_COMPONENT_LEN :: nat where
  "P256_COMPONENT_LEN = 32"

definition public_xy :: "bytes \<Rightarrow> crypto_error + bytes \<times> bytes" where
  "public_xy pubkey_uncompressed =
     (if length pubkey_uncompressed \<noteq> 1 + 2 * P256_COMPONENT_LEN \<or> pubkey_uncompressed ! 0 \<noteq> 0x04 then Inl Ossl
      else
        (let xy = drop 1 pubkey_uncompressed in
         Inr (take P256_COMPONENT_LEN xy, drop P256_COMPONENT_LEN xy)))"

text \<open>The closures \<open>next\<close> and \<open>read_integer\<close>: the bytes and the rest after the position.\<close>

definition der_next :: "bytes \<Rightarrow> nat \<Rightarrow> crypto_error + bytes \<times> bytes" where
  "der_next rest n = (if n \<le> length rest then Inr (take n rest, drop n rest) else Inl Ossl)"

definition read_integer :: "nat \<Rightarrow> bytes \<Rightarrow> crypto_error + bytes \<times> bytes" where
  "read_integer component_len rest =
     bind_res (der_next rest 1) (\<lambda>(tag, rest1).
     if tag \<noteq> [0x02] then Inl Ossl
     else
       bind_res (der_next rest1 1) (\<lambda>(len, rest2).
       bind_res (der_next rest2 (unat (len ! 0))) (\<lambda>(bs, rest3).
       let bs' = (if component_len < length bs \<and> bs ! 0 = 0 then drop 1 bs else bs) in
       if component_len < length bs' then Inl Ossl
       else Inr (replicate (component_len - length bs') 0 @ bs', rest3))))"

definition der_to_jose :: "bytes \<Rightarrow> nat \<Rightarrow> crypto_error + bytes" where
  "der_to_jose der component_len =
     bind_res (der_next der 1) (\<lambda>(tag, rest1).
     if tag \<noteq> [0x30] then Inl Ossl
     else
       bind_res (der_next rest1 1) (\<lambda>(seq_len, rest2).
       bind_res (read_integer component_len rest2) (\<lambda>(r, rest3).
       bind_res (read_integer component_len rest3) (\<lambda>(s, rest4).
       Inr (r @ s)))))"

fun trim_zeros :: "bytes \<Rightarrow> bytes" where
  "trim_zeros (x # y # bs) = (if x = 0 then trim_zeros (y # bs) else x # y # bs)"
| "trim_zeros bs = bs"

definition encode_integer :: "bytes \<Rightarrow> bytes" where
  "encode_integer component =
     (let trimmed = trim_zeros component;
          v = (if trimmed ! 0 AND 0x80 \<noteq> 0 then [0] else []) @ trimmed in
      [0x02, of_nat (length v)] @ v)"

definition jose_to_der :: "bytes \<Rightarrow> nat \<Rightarrow> bytes" where
  "jose_to_der raw component_len =
     (let r_der = encode_integer (take component_len raw);
          s_der = encode_integer (drop component_len raw) in
      [0x30, of_nat (length r_der + length s_der)] @ r_der @ s_der)"

text \<open>\<open>EcKeyPair::sign_es256\<close> and \<open>verify_es256\<close>, over the library's DER signature and verdict.\<close>

definition sign_es256 :: "crypto_error + bytes \<Rightarrow> crypto_error + bytes" where
  "sign_es256 der_signature = bind_res der_signature (\<lambda>der. der_to_jose der P256_COMPONENT_LEN)"

definition verify_es256 :: "(bytes \<Rightarrow> bytes \<Rightarrow> bool) \<Rightarrow> bytes \<Rightarrow> bytes \<Rightarrow> bool" where
  "verify_es256 verify message jose_signature =
     (if length jose_signature \<noteq> 2 * P256_COMPONENT_LEN then False
      else verify message (jose_to_der jose_signature P256_COMPONENT_LEN))"

section \<open>Integers\<close>

lemma trim_zeros_Nil [simp]: "trim_zeros bs = [] \<longleftrightarrow> bs = []"
  by (induction bs rule: trim_zeros.induct) simp_all

lemma trim_zeros_pad: "\<exists>k. bs = replicate k 0 @ trim_zeros bs"
proof (induction bs rule: trim_zeros.induct)
  case (1 x y bs)
  show ?case
  proof (cases "x = 0")
    case True
    with 1 obtain k where "y # bs = replicate k 0 @ trim_zeros (y # bs)" by blast
    then have "x # y # bs = replicate (Suc k) 0 @ trim_zeros (x # y # bs)" using True by simp
    then show ?thesis by blast
  qed (auto intro: exI [where x = 0])
qed (auto intro: exI [where x = 0])

lemma trim_zeros_length: "length (trim_zeros bs) \<le> length bs"
  by (induction bs rule: trim_zeros.induct) (auto intro: le_SucI)

lemma trim_zeros_repad: "replicate (length bs - length (trim_zeros bs)) 0 @ trim_zeros bs = bs"
proof -
  obtain k where k: "bs = replicate k 0 @ trim_zeros bs" using trim_zeros_pad by blast
  then have "length bs = k + length (trim_zeros bs)" by (metis length_append length_replicate)
  then show ?thesis using k by simp
qed

lemma der_next_append [simp]: "length xs = n \<Longrightarrow> der_next (xs @ ys) n = Inr (xs, ys)"
  by (simp add: der_next_def)

lemma der_next_Cons [simp]: "der_next (x # xs) (Suc 0) = Inr ([x], xs)"
  by (simp add: der_next_def)

lemma read_encode_integer:
  assumes "c \<noteq> []" and "length c \<le> 126"
  shows "read_integer (length c) (encode_integer c @ rest) = Inr (c, rest)"
proof -
  define t where "t = trim_zeros c"
  define v where "v = (if t ! 0 AND 0x80 \<noteq> 0 then [0] else []) @ t"
  have t: "t \<noteq> []" "length t \<le> length c" "replicate (length c - length t) 0 @ t = c"
    using assms(1) by (simp_all add: t_def trim_zeros_length trim_zeros_repad)
  have vl: "length v < 256" using t(2) assms(2) by (simp add: v_def)
  then have n: "unat (of_nat (length v) :: u8) = length v" by (simp add: unat_of_nat take_bit_nat_eq_self)
  have enc: "encode_integer c @ rest = [0x02] @ [of_nat (length v)] @ v @ rest"
    by (simp add: encode_integer_def Let_def t_def v_def)
  have strip: "(if length c < length v \<and> v ! 0 = 0 then drop 1 v else v) =
      (if length c < length v then t else v)"
    using t(2) by (auto simp: v_def)
  have "replicate (length c - length v) 0 @ v = c" if "length v \<le> length c"
  proof (cases "v = t")
    case False
    then have "v = 0 # t" by (simp add: v_def split: if_splits)
    moreover from this that have "length c - length t = Suc (length c - length v)" by simp
    ultimately show ?thesis using t(3) by (simp add: replicate_app_Cons_same)
  qed (use t in simp)
  then show ?thesis
    unfolding enc read_integer_def using n t
    by (simp add: strip Let_def del: replicate_append_same)
qed

text \<open>
  C39: Signature encodings. The fixed-size form of a signature with components of at most 126 bytes
  (32 for ES256) survives the conversion to DER and back: leading zero bytes, the sign byte and the
  padding are all restored, so a signature made by \<open>sign_es256\<close> is verified over the very DER bytes
  it stands for.
\<close>

theorem jose_der_roundtrip:
  assumes "length raw = 2 * n" and "0 < n" and "n \<le> 126"
  shows "der_to_jose (jose_to_der raw n) n = Inr raw"
proof -
  have r: "take n raw \<noteq> []" "length (take n raw) = n" and s: "drop n raw \<noteq> []" "length (drop n raw) = n"
    using assms by auto
  have 1: "read_integer n (encode_integer (take n raw) @ rest) = Inr (take n raw, rest)" for rest
    using read_encode_integer [OF r(1), of rest] r(2) assms(3) by simp
  have 2: "read_integer n (encode_integer (drop n raw)) = Inr (drop n raw, [])"
    using read_encode_integer [OF s(1), of "[]"] s(2) assms(3) by simp
  show ?thesis by (simp add: der_to_jose_def jose_to_der_def Let_def 1 2)
qed

theorem jose_der_roundtrip_witness:
  "der_to_jose (jose_to_der (replicate 31 0 @ [0x80] @ replicate 32 0xFF) 32) 32 =
   Inr (replicate 31 0 @ [0x80] @ replicate 32 0xFF)"
  using jose_der_roundtrip [of "replicate 31 0 @ [0x80] @ replicate 32 0xFF" 32] by simp

end
