(* ===== verification/Principal.thy ===== *)
theory Principal
  imports Entry_Model Kerberos
begin

text \<open>
  Kerberos principals in the directory: names and flags (crates/kdc/src/lib.rs), timestamps (time.rs)
  and the keys stored on an entry (principal.rs). Setting a password stores one key per default
  encryption type; the lemmas show that exactly those keys are read back and that a client deriving
  from the stored salt arrives at them.
\<close>

section \<open>Names\<close>

text \<open>A \<open>GeneralString\<close> is a byte string; the LDAP and Kerberos libraries define the message types.\<close>

type_synonym gstring = bytes

record principal_name =
  pn_type :: int
  pn_string :: "gstring list"

definition TICKET_LIFETIME_SECS :: int where
  "TICKET_LIFETIME_SECS = 10 * 3600"

definition RENEWABLE_LIFETIME_SECS :: int where
  "RENEWABLE_LIFETIME_SECS = 7 * 24 * 3600"

definition CLOCK_SKEW_SECS :: int where
  "CLOCK_SKEW_SECS = 300"

definition gstring_to_string :: "gstring \<Rightarrow> string" where
  "gstring_to_string gs = from_utf8_lossy gs"

definition string_to_gstring :: "string \<Rightarrow> gstring" where
  "string_to_gstring s = map (\<lambda>b. if b \<le> 0x7F \<or> 0xA0 \<le> b then b else 0x3F) (as_bytes s)"

definition realm_to_string :: "gstring \<Rightarrow> string" where
  "realm_to_string r = gstring_to_string r"

definition string_to_principal_name :: "string \<Rightarrow> principal_name" where
  "string_to_principal_name name =
     (let parts = map string_to_gstring (split_char (CHR ''/'') name) in
      \<lparr>pn_type = (if 1 < length parts then 2 else 1), pn_string = parts\<rparr>)"

definition principal_name_to_string :: "principal_name \<Rightarrow> string" where
  "principal_name_to_string pn = join ''/'' (map gstring_to_string (pn_string pn))"

definition krbtgt_principal_name :: "string \<Rightarrow> principal_name" where
  "krbtgt_principal_name rlm = string_to_principal_name (''krbtgt/'' @ rlm)"

definition is_changepw :: "principal_name \<Rightarrow> bool" where
  "is_changepw pn \<longleftrightarrow> eq_ignore_ascii_case (principal_name_to_string pn) ''kadmin/changepw''"

definition flag_INITIAL :: nat where
  "flag_INITIAL = 9"

definition flag_PRE_AUTHENT :: nat where
  "flag_PRE_AUTHENT = 10"

text \<open>Ticket flags are a bit string; setting a bit outside it would panic, and only 9 and 10 are set.\<close>

definition ticket_flags :: "nat list \<Rightarrow> bool list" where
  "ticket_flags bs = fold (\<lambda>i b. b[i := True]) bs (replicate 32 False)"

definition has_flag :: "bool list \<Rightarrow> nat \<Rightarrow> bool" where
  "has_flag flags b \<longleftrightarrow> b < length flags \<and> flags ! b"

section \<open>Time\<close>

text \<open>
  A timestamp counts nanoseconds. The code keeps whole seconds; \<open>num_seconds\<close> of a difference
  rounds towards zero. The clock is outside.
\<close>

type_synonym ktime = int

definition whole_seconds :: "int \<Rightarrow> ktime" where
  "whole_seconds ns = ns div 1000000000 * 1000000000"

definition time_now :: "int \<Rightarrow> ktime \<times> int" where
  "time_now clock = (whole_seconds clock, clock mod 1000000000 div 1000)"

definition plus_seconds :: "int \<Rightarrow> int \<Rightarrow> ktime" where
  "plus_seconds clock seconds = whole_seconds (clock + seconds * 1000000000)"

definition diff_seconds :: "ktime \<Rightarrow> ktime \<Rightarrow> int" where
  "diff_seconds a b = sgn (b - a) * (\<bar>b - a\<bar> div 1000000000)"

section \<open>Keys on an entry\<close>

definition ATTR_PRINCIPAL_NAME :: string where
  "ATTR_PRINCIPAL_NAME = ''krbprincipalname''"

definition ATTR_SALT :: string where
  "ATTR_SALT = ''krbsalt''"

definition ATTR_KEY :: string where
  "ATTR_KEY = ''krbkey''"

definition DEFAULT_ENCTYPES :: "enctype list" where
  "DEFAULT_ENCTYPES = [Aes256CtsHmacSha384_192, Aes256CtsHmacSha1_96]"

datatype principal_error =
    Principal_Crypto crypto_error
  | MissingAttr string
  | Malformed string string
  | NoKeyForEtype int

record principal_key =
  pk_enctype :: enctype
  pk_kvno :: nat
  pk_key :: bytes

text \<open>The loop over the default encryption types, and the three attributes.\<close>

fun key_values :: "'w ossl \<Rightarrow> bytes \<Rightarrow> string \<Rightarrow> enctype list \<Rightarrow> principal_error + string list" where
  "key_values S secret salt [] = Inr []"
| "key_values S secret salt (e # es) =
     bind_res (map_sum Principal_Crypto id (string_to_key S e secret (as_bytes salt) None)) (\<lambda>key.
     bind_res (key_values S secret salt es) (\<lambda>rest.
     Inr ((nat_str (nat (etype_number e)) @ '':1:'' @ to_hex key) # rest)))"

definition store_keys :: "entry \<Rightarrow> string \<Rightarrow> string \<Rightarrow> string list \<Rightarrow> entry" where
  "store_keys e principal_name salt kvs =
     entry_set (entry_set (entry_set e ATTR_PRINCIPAL_NAME [principal_name]) ATTR_SALT [salt]) ATTR_KEY kvs"

definition set_password ::
  "'w ossl \<Rightarrow> entry \<Rightarrow> string \<Rightarrow> bytes \<Rightarrow> ('w, principal_error, entry) call" where
  "set_password S e principal_name password =
     and_then (map_err Principal_Crypto (random_bytes S MIN_SALT_LEN)) (\<lambda>r.
     let salt = to_hex r in
     and_then (lift_call (key_values S password salt DEFAULT_ENCTYPES)) (\<lambda>kvs.
     ok_call (store_keys e principal_name salt kvs)))"

definition set_shared_key :: "'w ossl \<Rightarrow> entry \<Rightarrow> string \<Rightarrow> bytes \<Rightarrow> principal_error + entry" where
  "set_shared_key S e principal_name secret =
     (let salt = to_hex (as_bytes principal_name) in
      bind_res (key_values S secret salt DEFAULT_ENCTYPES) (\<lambda>kvs.
      Inr (store_keys e principal_name salt kvs)))"

definition first_value :: "entry \<Rightarrow> string \<Rightarrow> string option" where
  "first_value e a = (case entry_get e a of Some (v # _) \<Rightarrow> Some v | _ \<Rightarrow> None)"

definition principal_name_of :: "entry \<Rightarrow> principal_error + string" where
  "principal_name_of e =
     (case first_value e ATTR_PRINCIPAL_NAME of None \<Rightarrow> Inl (MissingAttr ATTR_PRINCIPAL_NAME) | Some n \<Rightarrow> Inr n)"

text \<open>\<open>str::splitn\<close>: at most \<open>n\<close> parts, the last one unsplit.\<close>

fun splitn :: "nat \<Rightarrow> char \<Rightarrow> string \<Rightarrow> string list" where
  "splitn 0 d s = []"
| "splitn (Suc 0) d s = [s]"
| "splitn (Suc (Suc n)) d s =
     (let pre = takeWhile (\<lambda>c. c \<noteq> d) s in
      if length pre = length s then [s] else pre # splitn (Suc n) d (drop (length pre + 1) s))"

text \<open>One stored value; the outer \<open>None\<close> is the panic of \<open>from_hex\<close>.\<close>

definition parse_key :: "string \<Rightarrow> (principal_error + principal_key) option" where
  "parse_key v =
     (let bad = Inl (Malformed ATTR_KEY v) in
      case splitn 3 (CHR '':'') v of
        [etype_str, kvno_str, hex_key] \<Rightarrow>
          (case parse_sint 32 etype_str of
             None \<Rightarrow> Some bad
           | Some etype_num \<Rightarrow>
               (case enctype_try_from etype_num of
                  None \<Rightarrow> Some bad
                | Some e \<Rightarrow>
                    (case parse_uint 32 kvno_str of
                       None \<Rightarrow> Some bad
                     | Some kvno \<Rightarrow>
                         (case from_hex hex_key of
                            None \<Rightarrow> None
                          | Some None \<Rightarrow> Some bad
                          | Some (Some key) \<Rightarrow> Some (Inr \<lparr>pk_enctype = e, pk_kvno = kvno, pk_key = key\<rparr>)))))
      | _ \<Rightarrow> Some bad)"

fun parse_keys :: "string list \<Rightarrow> (principal_error + principal_key list) option" where
  "parse_keys [] = Some (Inr [])"
| "parse_keys (v # vs) =
     (case parse_key v of
        None \<Rightarrow> None
      | Some (Inl e) \<Rightarrow> Some (Inl e)
      | Some (Inr k) \<Rightarrow> map_option (map_sum id ((#) k)) (parse_keys vs))"

definition keys :: "entry \<Rightarrow> (principal_error + principal_key list) option" where
  "keys e = (case entry_get e ATTR_KEY of None \<Rightarrow> Some (Inl (MissingAttr ATTR_KEY)) | Some vs \<Rightarrow> parse_keys vs)"

definition key_for_enctype :: "entry \<Rightarrow> enctype \<Rightarrow> (principal_error + principal_key) option" where
  "key_for_enctype e et =
     map_option (\<lambda>r. bind_res r (\<lambda>ks.
       case find (\<lambda>k. pk_enctype k = et) ks of
         None \<Rightarrow> Inl (NoKeyForEtype (etype_number et))
       | Some k \<Rightarrow> Inr k)) (keys e)"

definition salt_of :: "entry \<Rightarrow> principal_error + bytes" where
  "salt_of e = (case first_value e ATTR_SALT of None \<Rightarrow> Inl (MissingAttr ATTR_SALT) | Some s \<Rightarrow> Inr (as_bytes s))"

section \<open>Reading back\<close>

lemma etype_try_from_number [simp]: "enctype_try_from (etype_number e) = Some e"
  by (cases e) (simp_all add: enctype_try_from_def etype_number_def)

lemma nat_etype: "etype_number e = int (nat (etype_number e))" "nat (etype_number e) < 2 ^ 31"
  by (cases e; simp add: etype_number_def)+

lemma parse_sint_nat_str: "n < 2 ^ (w - 1) \<Longrightarrow> parse_sint w (nat_str n) = Some (int n)"
proof -
  have "\<not> starts_with (nat_str n) ''-''"
    using nat_str_chars [of "CHR ''-''" n]
    by (cases "nat_str n") (auto simp: starts_with_def is_ascii_digit_def less_eq_char_def)
  then show "n < 2 ^ (w - 1) \<Longrightarrow> ?thesis" using nat_str_no_plus [of n] by (simp add: parse_sint_def)
qed

lemma splitn3_join:
  assumes "CHR '':'' \<notin> set a" and "CHR '':'' \<notin> set b"
  shows "splitn 3 (CHR '':'') (a @ '':'' @ b @ '':'' @ c) = [a, b, c]"
proof -
  have "takeWhile (\<lambda>x. x \<noteq> CHR '':'') (p @ CHR '':'' # r) = p" if "CHR '':'' \<notin> set p" for p r
    using that by (induction p) auto
  then show ?thesis using assms by (simp add: numeral_3_eq_3)
qed

lemma colon_free_nat_str: "CHR '':'' \<notin> set (nat_str n)"
  using nat_str_chars [of "CHR '':''" n] by (auto simp: is_ascii_digit_def less_eq_char_def)

lemma parse_key_stored:
  "parse_key (nat_str (nat (etype_number e)) @ '':1:'' @ to_hex key) =
     Some (Inr \<lparr>pk_enctype = e, pk_kvno = 1, pk_key = key\<rparr>)"
proof -
  have one: "''1'' = nat_str 1" by code_simp
  have "splitn 3 (CHR '':'') (nat_str (nat (etype_number e)) @ '':1:'' @ to_hex key) =
      [nat_str (nat (etype_number e)), ''1'', to_hex key]"
    using splitn3_join [OF colon_free_nat_str, of "''1''" "nat (etype_number e)" "to_hex key"] by simp
  moreover have "parse_sint 32 (nat_str (nat (etype_number e))) = Some (etype_number e)"
    using nat_etype [of e] parse_sint_nat_str [of "nat (etype_number e)" 32] by simp
  moreover have "parse_uint 32 ''1'' = Some 1" unfolding one by (rule parse_uint_nat_str) simp
  ultimately show ?thesis by (simp add: parse_key_def from_hex_to_hex)
qed

lemma key_values_parse:
  assumes "key_values S secret salt es = Inr kvs"
  shows "\<exists>ks. parse_keys kvs = Some (Inr ks) \<and> map pk_enctype ks = es \<and>
    (\<forall>k \<in> set ks. pk_kvno k = 1 \<and> string_to_key S (pk_enctype k) secret (as_bytes salt) None = Inr (pk_key k))"
  using assms
proof (induction es arbitrary: kvs)
  case (Cons e es)
  then obtain key rest where key: "string_to_key S e secret (as_bytes salt) None = Inr key"
    and rest: "key_values S secret salt es = Inr rest"
    and kvs: "kvs = (nat_str (nat (etype_number e)) @ '':1:'' @ to_hex key) # rest"
    by (auto simp: bind_res_eq_Inr map_sum_def split: sum.splits)
  from Cons.IH [OF rest] obtain ks where ks: "parse_keys rest = Some (Inr ks)" "map pk_enctype ks = es"
    "\<forall>k \<in> set ks. pk_kvno k = 1 \<and> string_to_key S (pk_enctype k) secret (as_bytes salt) None = Inr (pk_key k)"
    by blast
  then show ?case
    unfolding kvs parse_keys.simps parse_key_stored
    by (intro exI [where x = "\<lparr>pk_enctype = e, pk_kvno = 1, pk_key = key\<rparr> # ks"]) (simp add: key)
qed simp

lemma store_keys_get:
  shows "entry_get (store_keys e name salt kvs) ATTR_KEY = Some kvs"
    and "first_value (store_keys e name salt kvs) ATTR_SALT = Some salt"
    and "first_value (store_keys e name salt kvs) ATTR_PRINCIPAL_NAME = Some name"
proof -
  have ne: "\<not> eq_ignore_ascii_case ATTR_SALT ATTR_KEY" "\<not> eq_ignore_ascii_case ATTR_PRINCIPAL_NAME ATTR_KEY"
    "\<not> eq_ignore_ascii_case ATTR_PRINCIPAL_NAME ATTR_SALT"
    by code_simp+
  show "entry_get (store_keys e name salt kvs) ATTR_KEY = Some kvs"
    "first_value (store_keys e name salt kvs) ATTR_SALT = Some salt"
    "first_value (store_keys e name salt kvs) ATTR_PRINCIPAL_NAME = Some name"
    using ne
    by (simp_all add: store_keys_def first_value_def entry_get_set eq_ignore_ascii_case_sym)
qed

text \<open>
  C13: Setting a password stores, for each default encryption type in order of preference, exactly the
  key that string-to-key derives from the password and the stored salt, with version 1: every stored
  key is read back, and a client that is told the salt derives the same keys.
\<close>

theorem password_keys_read_back:
  assumes "set_password S e name password w = (Inr e', w')"
  shows "\<exists>salt ks. salt_of e' = Inr salt \<and> keys e' = Some (Inr ks) \<and> map pk_enctype ks = DEFAULT_ENCTYPES \<and>
    principal_name_of e' = Inr name \<and>
    (\<forall>k \<in> set ks. pk_kvno k = 1 \<and> string_to_key S (pk_enctype k) password salt None = Inr (pk_key k))"
proof -
  obtain r kvs where kvs: "key_values S password (to_hex r) DEFAULT_ENCTYPES = Inr kvs"
    and e': "e' = store_keys e name (to_hex r) kvs"
    using assms by (auto simp: set_password_def and_then_eq_Inr Let_def)
  from key_values_parse [OF kvs] obtain ks where "parse_keys kvs = Some (Inr ks)" "map pk_enctype ks = DEFAULT_ENCTYPES"
    "\<forall>k \<in> set ks. pk_kvno k = 1 \<and> string_to_key S (pk_enctype k) password (as_bytes (to_hex r)) None = Inr (pk_key k)"
    by blast
  then show ?thesis
    by (intro exI [where x = "as_bytes (to_hex r)"] exI [where x = ks])
       (simp add: e' keys_def salt_of_def principal_name_of_def store_keys_get)
qed

lemma demo_dr:
  assumes "length key = 16 \<or> length key = 32"
  shows "\<exists>out. dr demo_ossl key const klen = Inr out"
proof -
  have block: "aes_cbc_encrypt_block demo_ossl key b = Inr (rev b)" for b
    using assms by (auto simp: aes_cbc_encrypt_block_def aes_size_of_key_def demo_ossl_def ossl_result_def)
  have "\<exists>out'. dr_loop demo_ossl n key klen b out = Inr out'" for n b out
    by (induction n arbitrary: b out) (simp_all add: block)
  then show ?thesis by (simp add: dr_def block bind_res_eq_Inr)
qed

lemma demo_string_to_key: "\<exists>key. string_to_key demo_ossl e p s it = Inr key"
proof -
  have p: "pbkdf2 demo_ossl p s i n g = Inr (take n (p @ s @ replicate n 0))" for p s i n g
    by (simp add: pbkdf2_def demo_ossl_def ossl_result_def)
  have "length (take (key_len e) (p @ s @ replicate (key_len e) 0)) = key_len e" by (subst length_take) simp
  then have "length (take (key_len e) (p @ s @ replicate (key_len e) 0)) \<in> {16, 32}"
    by (simp only:) (cases e; simp add: key_len_def enctype_aes_size_def)
  then have d: "\<exists>out. dr demo_ossl (take (key_len e) (p @ s @ replicate (key_len e) 0)) c k = Inr out" for c k
    using demo_dr by simp
  have "is_rfc8009 e \<Longrightarrow> enctype_digest e \<noteq> Sha1" by (auto simp: is_rfc8009_def enctype_digest_def)
  then have "is_rfc8009 e \<Longrightarrow> \<exists>x. kdf_hmac_sha2 demo_ossl key label k (enctype_digest e) = Inr x" for key label k
    using demo_kdf by blast
  with d show ?thesis
    unfolding string_to_key_def Let_def p dk_def by (cases "is_rfc8009 e") simp_all
qed

theorem password_keys_read_back_witness:
  "\<exists>e' salt ks. fst (set_password demo_ossl entry_new ''alice@IRON.LO'' (as_bytes ''correcthorse'') 4) = Inr e' \<and>
     salt_of e' = Inr salt \<and> keys e' = Some (Inr ks) \<and> length ks = 2"
proof -
  have "\<not> isl (fst (set_password demo_ossl entry_new ''alice@IRON.LO'' (as_bytes ''correcthorse'') 4))"
  proof -
    obtain k1 k2 where
      "string_to_key demo_ossl Aes256CtsHmacSha384_192 (as_bytes ''correcthorse'') (as_bytes (to_hex (replicate 16 4))) None = Inr k1"
      "string_to_key demo_ossl Aes256CtsHmacSha1_96 (as_bytes ''correcthorse'') (as_bytes (to_hex (replicate 16 4))) None = Inr k2"
      using demo_string_to_key by meson
    moreover have "random_bytes demo_ossl MIN_SALT_LEN 4 = (Inr (replicate 16 4), 5)"
      by (simp add: random_bytes_def demo_ossl_def map_err_def MIN_SALT_LEN_def)
    ultimately show ?thesis
      by (simp add: set_password_def DEFAULT_ENCTYPES_def and_then_def map_err_def Let_def)
  qed
  then obtain e' w' where "set_password demo_ossl entry_new ''alice@IRON.LO'' (as_bytes ''correcthorse'') 4 = (Inr e', w')"
    by (metis isl_def obj_sumE prod.collapse)
  with password_keys_read_back [OF this] show ?thesis
    by (auto simp: DEFAULT_ENCTYPES_def dest!: arg_cong [where f = length])
qed

end
