(* ===== verification/Proc.thy ===== *)
theory Proc
  imports Etcd
begin

text \<open>
  Procedures of the request handlers: state passing over a world, with the two ways a handler may
  fail to answer kept apart. \<open>None\<close> is a loop that does not end; \<open>Panicked\<close> is a panic, which leaves
  the world as it was at that point. The world is a pair: the store's clusters on the left, the
  random generator of the cryptographic library on the right.
\<close>

datatype 'a outcome = Panicked | Returned 'a

type_synonym ('w, 'a) proc = "'w \<Rightarrow> ('a outcome \<times> 'w) option"

definition return_proc :: "'a \<Rightarrow> ('w, 'a) proc" where
  "return_proc x w = Some (Returned x, w)"

definition bind_proc :: "('w, 'a) proc \<Rightarrow> ('a \<Rightarrow> ('w, 'b) proc) \<Rightarrow> ('w, 'b) proc" where
  "bind_proc m f w =
     (case m w of
        None \<Rightarrow> None
      | Some (Panicked, w') \<Rightarrow> Some (Panicked, w')
      | Some (Returned x, w') \<Rightarrow> f x w')"

text \<open>A value whose computation may panic.\<close>

definition or_panic :: "'a option \<Rightarrow> ('w, 'a) proc" where
  "or_panic r w = (case r of None \<Rightarrow> Some (Panicked, w) | Some x \<Rightarrow> Some (Returned x, w))"

definition in_store :: "('w, 'e, 'a) call \<Rightarrow> ('w \<times> 'v, 'e + 'a) proc" where
  "in_store c = (\<lambda>(w, v). case c w of (r, w') \<Rightarrow> Some (Returned r, w', v))"

definition in_store_loop :: "('w \<Rightarrow> ('a \<times> 'w) option) \<Rightarrow> ('w \<times> 'v, 'a) proc" where
  "in_store_loop c = (\<lambda>(w, v). case c w of None \<Rightarrow> None | Some (r, w') \<Rightarrow> Some (Returned r, w', v))"

definition in_crypto :: "('v, 'e, 'a) call \<Rightarrow> ('w \<times> 'v, 'e + 'a) proc" where
  "in_crypto c = (\<lambda>(w, v). case c v of (r, v') \<Rightarrow> Some (Returned r, w, v'))"

section \<open>Inversion\<close>

lemma return_proc_eq [simp]: "return_proc x w = Some (r, w') \<longleftrightarrow> r = Returned x \<and> w' = w"
  by (auto simp: return_proc_def)

lemma bind_proc_eq:
  "bind_proc m f w = Some (Returned y, w') \<longleftrightarrow> (\<exists>x v. m w = Some (Returned x, v) \<and> f x v = Some (Returned y, w'))"
  by (auto simp: bind_proc_def split: option.splits outcome.splits)

lemma bind_procE:
  assumes "bind_proc m f w = Some (Returned y, w')"
  obtains x v where "m w = Some (Returned x, v)" "f x v = Some (Returned y, w')"
  using assms by (auto simp: bind_proc_eq)

lemma or_panic_eq [simp]: "or_panic r w = Some (Returned x, w') \<longleftrightarrow> r = Some x \<and> w' = w"
  by (auto simp: or_panic_def split: option.splits)

lemma in_store_eq [simp]: "in_store c w = Some (Returned r, w') \<longleftrightarrow> (\<exists>u. c (fst w) = (r, u) \<and> w' = (u, snd w))"
  by (cases w) (auto simp: in_store_def split: prod.splits)

lemma in_store_loop_eq [simp]:
  "in_store_loop c w = Some (Returned r, w') \<longleftrightarrow> (\<exists>u. c (fst w) = Some (r, u) \<and> w' = (u, snd w))"
  by (cases w) (auto simp: in_store_loop_def split: prod.splits option.splits)

lemma in_crypto_eq [simp]: "in_crypto c w = Some (Returned r, w') \<longleftrightarrow> (\<exists>u. c (snd w) = (r, u) \<and> w' = (fst w, u))"
  by (cases w) (auto simp: in_crypto_def split: prod.splits)

section \<open>Ending\<close>

text \<open>A procedure that always answers, by returning or by a panic.\<close>

definition ends :: "('w, 'a) proc \<Rightarrow> bool" where
  "ends m \<longleftrightarrow> (\<forall>w. m w \<noteq> None)"

named_theorems ends_intros

lemma ends_return [ends_intros]: "ends (return_proc x)"
  by (simp add: ends_def return_proc_def)

lemma ends_bind [ends_intros]: "ends m \<Longrightarrow> (\<And>x. ends (f x)) \<Longrightarrow> ends (bind_proc m f)"
  by (fastforce simp: ends_def bind_proc_def split: option.splits outcome.splits)

lemma ends_or_panic [ends_intros]: "ends (or_panic r)"
  by (simp add: ends_def or_panic_def split: option.split)

lemma ends_in_store [ends_intros]: "ends (in_store c)"
  by (auto simp: ends_def in_store_def split: prod.split)

lemma ends_in_crypto [ends_intros]: "ends (in_crypto c)"
  by (auto simp: ends_def in_crypto_def split: prod.split)

lemma ends_in_store_loop: "(\<And>w. c w \<noteq> None) \<Longrightarrow> ends (in_store_loop c)"
  by (auto simp: ends_def in_store_loop_def split: prod.split option.split)

lemma ends_splits [ends_intros]:
  "(\<And>a. x = Inl a \<Longrightarrow> ends (f a)) \<Longrightarrow> (\<And>b. x = Inr b \<Longrightarrow> ends (g b)) \<Longrightarrow> ends (case x of Inl a \<Rightarrow> f a | Inr b \<Rightarrow> g b)"
  "(y = None \<Longrightarrow> ends m) \<Longrightarrow> (\<And>z. y = Some z \<Longrightarrow> ends (h z)) \<Longrightarrow> ends (case y of None \<Rightarrow> m | Some z \<Rightarrow> h z)"
  "(b \<Longrightarrow> ends p) \<Longrightarrow> (\<not> b \<Longrightarrow> ends q) \<Longrightarrow> ends (if b then p else q)"
  by (auto split: sum.split option.split)

end
