(* ===== verification/Krb_Types.thy ===== *)
theory Krb_Types
  imports Principal Store Proc
begin

text \<open>
  The Kerberos messages the servers exchange, with the fields the code reads or writes, and the DER
  codec for them. The message types and the codec belong to a library; the codec is a parameter.
\<close>

record encrypted_data =
  ed_etype :: int
  ed_kvno :: "nat option"
  ed_cipher :: bytes

record encryption_key =
  ek_type :: int
  ek_value :: bytes

record ticket =
  tkt_vno :: int
  tkt_realm :: gstring
  tkt_sname :: principal_name
  tkt_enc_part :: encrypted_data

record host_address =
  ha_type :: int
  ha_address :: bytes

record authorization_value =
  ad_type :: int
  ad_data :: bytes

record enc_ticket_part =
  etp_flags :: "bool list"
  etp_key :: encryption_key
  etp_crealm :: gstring
  etp_cname :: principal_name
  etp_transited :: "int \<times> bytes"
  etp_auth_time :: ktime
  etp_start_time :: "ktime option"
  etp_end_time :: ktime
  etp_renew_till :: "ktime option"
  etp_caddr :: "host_address list option"
  etp_authorization_data :: "authorization_value list option"

record checksum_value =
  ck_type :: int
  ck_bytes :: bytes

record authenticator =
  au_crealm :: gstring
  au_cname :: principal_name
  au_cksum :: "checksum_value option"
  au_cusec :: int
  au_ctime :: ktime
  au_subkey :: "encryption_key option"
  au_seq :: "nat option"

record ap_req =
  apq_ticket :: ticket
  apq_authenticator :: encrypted_data

record enc_ap_rep_part =
  erp_ctime :: ktime
  erp_cusec :: int
  erp_subkey :: "encryption_key option"
  erp_seq :: "nat option"

record ap_rep =
  apr_pvno :: int
  apr_msg_type :: int
  apr_enc_part :: encrypted_data

record pa_data =
  pad_type :: int
  pad_value :: bytes

record kdc_req =
  kq_padata :: "pa_data list option"
  kq_cname :: "principal_name option"
  kq_realm :: gstring
  kq_sname :: "principal_name option"
  kq_nonce :: nat
  kq_etype :: "int list"

record enc_kdc_rep_part =
  ekr_key :: encryption_key
  ekr_nonce :: nat
  ekr_flags :: "bool list"
  ekr_auth_time :: ktime
  ekr_end_time :: ktime
  ekr_srealm :: gstring
  ekr_sname :: principal_name

record kdc_rep =
  kp_pvno :: int
  kp_msg_type :: int
  kp_crealm :: gstring
  kp_cname :: principal_name
  kp_ticket :: ticket
  kp_enc_part :: encrypted_data

record etype_info2_entry =
  ei_etype :: int
  ei_salt :: gstring

record krb_priv =
  kv_pvno :: int
  kv_msg_type :: int
  kv_enc_part :: encrypted_data

record enc_krb_priv_part =
  epp_user_data :: bytes
  epp_timestamp :: "ktime option"
  epp_usec :: "int option"
  epp_seq :: "nat option"
  epp_s_address :: "host_address option"
  epp_r_address :: "host_address option"

record chg_pwd_data =
  cp_newpasswd :: bytes
  cp_targname :: "principal_name option"
  cp_targrealm :: "gstring option"

text \<open>
  The text of an error of another layer, as \<open>to_string\<close> prints it, stands as the error itself; a
  literal text is the string the code writes.
\<close>

datatype cause =
    Cause_store store_error
  | Cause_crypto crypto_error
  | Cause_principal principal_error
  | Cause_der string

datatype message_text = Literal string | Printed string cause

record krb_error =
  ke_pvno :: int
  ke_msg_type :: int
  ke_stime :: ktime
  ke_susec :: int
  ke_error_code :: int
  ke_realm :: gstring
  ke_sname :: principal_name
  ke_e_text :: "message_text option"
  ke_e_data :: "bytes option"

type_synonym 'm decoder = "bytes \<Rightarrow> string + 'm"
type_synonym 'm encoder = "'m \<Rightarrow> string + bytes"

record krb_der =
  dec_ap_req :: "ap_req decoder"
  dec_enc_ticket :: "enc_ticket_part decoder"
  enc_enc_ticket :: "enc_ticket_part encoder"
  dec_authenticator :: "authenticator decoder"
  enc_rep_part :: "enc_ap_rep_part encoder"
  enc_ap_rep :: "ap_rep encoder"
  dec_enc_data :: "encrypted_data decoder"
  dec_pa_enc_ts :: "ktime decoder"
  enc_etype_info2 :: "etype_info2_entry list encoder"
  enc_method_data :: "pa_data list encoder"
  enc_auth_data :: "authorization_value list encoder"
  enc_as_part :: "enc_kdc_rep_part encoder"
  enc_tgs_part :: "enc_kdc_rep_part encoder"

text \<open>Encoding and decoding invert each other on what is encoded.\<close>

definition codec_ok :: "'m encoder \<Rightarrow> 'm decoder \<Rightarrow> bool" where
  "codec_ok enc dec \<longleftrightarrow> (\<forall>m bs. enc m = Inr bs \<longrightarrow> dec bs = Inr m)"

lemma find_SomeD: "find P xs = Some x \<Longrightarrow> x \<in> set xs \<and> P x"
  by (auto simp: find_Some_iff)

lemma bind_resE:
  assumes "bind_res r f = Inr y"
  obtains x where "r = Inr x" "f x = Inr y"
  using assms by (auto simp: bind_res_eq_Inr)

lemma map_sum_eq_Inr [simp]: "map_sum f g r = Inr y \<longleftrightarrow> (\<exists>x. r = Inr x \<and> y = g x)"
  by (cases r) auto

text \<open>A time on the wire has whole seconds.\<close>

definition whole :: "ktime \<Rightarrow> bool" where
  "whole t \<longleftrightarrow> t mod 1000000000 = 0"

lemma whole_seconds_whole [simp]: "whole (whole_seconds t)"
  by (simp add: whole_def whole_seconds_def)

lemma whole_plus_seconds [simp]: "whole (plus_seconds c s)"
  by (simp add: plus_seconds_def)

lemma diff_seconds_whole: "whole a \<Longrightarrow> whole b \<Longrightarrow> diff_seconds a b * 1000000000 = b - a"
proof -
  assume "whole a" "whole b"
  then have "(1000000000 :: int) dvd b - a" by (simp add: whole_def mod_eq_0_iff_dvd)
  then have "(1000000000 :: int) dvd \<bar>b - a\<bar>" by simp
  then have "\<bar>b - a\<bar> div 1000000000 * 1000000000 = \<bar>b - a\<bar>" by (rule dvd_div_mult_self)
  then have "diff_seconds a b * 1000000000 = sgn (b - a) * \<bar>b - a\<bar>"
    by (simp only: diff_seconds_def mult.assoc)
  then show ?thesis by (simp add: sgn_mult_abs)
qed

end
