(* ===== verification/Accept.thy ===== *)
theory Accept
  imports Gss Krb_Types
begin

text \<open>
  Accepting a Kerberos security context (crates/ldap/src/gssapi/accept.rs): the presented ticket is
  opened with the service's key, the authenticator with the session key inside it, and the reply
  proves that the server could do so.
\<close>

datatype accept_error =
    Acc_Token token_error
  | Acc_Decode string
  | Acc_Encode string
  | NoServiceKey
  | UnsupportedEnctype int
  | TicketDecryptFailed
  | AuthenticatorDecryptFailed
  | AuthenticatorMismatch
  | ClockSkew
  | TicketExpired
  | MalformedGssChecksum
  | Acc_Crypto crypto_error

definition ACCEPT_CLOCK_SKEW_SECS :: int where
  "ACCEPT_CLOCK_SKEW_SECS = 300"

definition GSS_CHECKSUM_TYPE :: int where
  "GSS_CHECKSUM_TYPE = 0x8003"

definition GSS_C_MUTUAL_FLAG :: u32 where
  "GSS_C_MUTUAL_FLAG = 2"

record accepted_context =
  acc_client_principal :: string
  acc_session_key :: bytes
  acc_enctype :: enctype
  acc_output_token :: "bytes option"

definition gss_checksum_flags :: "bytes \<Rightarrow> accept_error + u32" where
  "gss_checksum_flags bs =
     (if length bs < 24 then Inl MalformedGssChecksum else Inr (of_le (take 4 (drop 20 bs))))"

text \<open>The checks up to the base key: pure, once the service's keys are known.\<close>

record verified_request =
  vr_ticket :: enc_ticket_part
  vr_authenticator :: authenticator
  vr_enctype :: enctype
  vr_flags :: u32

definition open_request ::
  "'v ossl \<Rightarrow> krb_der \<Rightarrow> int \<Rightarrow> ap_req \<Rightarrow> principal_key list \<Rightarrow> accept_error + verified_request" where
  "open_request S D clock req service_keys =
     bind_res
       (case enctype_try_from (ed_etype (tkt_enc_part (apq_ticket req))) of
          None \<Rightarrow> Inl (UnsupportedEnctype (ed_etype (tkt_enc_part (apq_ticket req))))
        | Some e \<Rightarrow> Inr e) (\<lambda>tkt_enctype.
     bind_res
       (case find (\<lambda>k. pk_enctype k = tkt_enctype) service_keys of None \<Rightarrow> Inl NoServiceKey | Some k \<Rightarrow> Inr k) (\<lambda>service_key.
     bind_res
       (map_sum (\<lambda>_. TicketDecryptFailed) id
         (krb_decrypt S tkt_enctype (pk_key service_key) 2 (ed_cipher (tkt_enc_part (apq_ticket req))))) (\<lambda>enc_ticket_bytes.
     bind_res (map_sum Acc_Decode id (dec_enc_ticket D enc_ticket_bytes)) (\<lambda>tgt.
     let now = fst (time_now clock) in
     if 0 < diff_seconds (etp_end_time tgt) now then Inl TicketExpired
     else
       bind_res
         (map_sum (\<lambda>_. AuthenticatorDecryptFailed) id
           (krb_decrypt S tkt_enctype (ek_value (etp_key tgt)) 11 (ed_cipher (apq_authenticator req)))) (\<lambda>auth_bytes.
       bind_res (map_sum Acc_Decode id (dec_authenticator D auth_bytes)) (\<lambda>authn.
       if au_crealm authn \<noteq> etp_crealm tgt \<or> au_cname authn \<noteq> etp_cname tgt then Inl AuthenticatorMismatch
       else if ACCEPT_CLOCK_SKEW_SECS < \<bar>diff_seconds (au_ctime authn) now\<bar> then Inl ClockSkew
       else
         (case au_cksum authn of
            None \<Rightarrow> Inl MalformedGssChecksum
          | Some cksum \<Rightarrow>
              if ck_type cksum \<noteq> GSS_CHECKSUM_TYPE then Inl MalformedGssChecksum
              else
                bind_res (gss_checksum_flags (ck_bytes cksum)) (\<lambda>flags.
                Inr \<lparr>vr_ticket = tgt, vr_authenticator = authn, vr_enctype = tkt_enctype, vr_flags = flags\<rparr>))))))))"

text \<open>The mutual-authentication reply, sealed with the session key of the ticket.\<close>

definition mutual_reply :: "'v ossl \<Rightarrow> krb_der \<Rightarrow> verified_request \<Rightarrow> ('v, accept_error, bytes) call" where
  "mutual_reply S D v =
     (let authn = vr_authenticator v;
          part = \<lparr>erp_ctime = au_ctime authn, erp_cusec = au_cusec authn, erp_subkey = None, erp_seq = None\<rparr> in
      and_then (lift_call (map_sum Acc_Encode id (enc_rep_part D part))) (\<lambda>enc_bytes.
      and_then (map_err Acc_Crypto
        (krb_encrypt S (vr_enctype v) (ek_value (etp_key (vr_ticket v))) 12 enc_bytes)) (\<lambda>cipher.
      and_then (lift_call (map_sum Acc_Encode id
        (enc_ap_rep D
          \<lparr>apr_pvno = 5, apr_msg_type = 15,
           apr_enc_part = \<lparr>ed_etype = etype_number (vr_enctype v), ed_kvno = None, ed_cipher = cipher\<rparr>\<rparr>))) (\<lambda>rep_bytes.
      ok_call (build_initial_context_token (TOK_ID_AP_REP @ rep_bytes))))))"

definition base_key :: "verified_request \<Rightarrow> bytes" where
  "base_key v =
     (case au_subkey (vr_authenticator v) of Some k \<Rightarrow> ek_value k | None \<Rightarrow> ek_value (etp_key (vr_ticket v)))"

definition client_principal_of :: "enc_ticket_part \<Rightarrow> string" where
  "client_principal_of tgt = principal_name_to_string (etp_cname tgt) @ ''@'' @ realm_to_string (etp_crealm tgt)"

definition parse_ap_req :: "krb_der \<Rightarrow> bytes \<Rightarrow> accept_error + ap_req" where
  "parse_ap_req D input_token =
     bind_res (map_sum Acc_Token id (parse_initial_context_token input_token)) (\<lambda>inner.
     bind_res (map_sum Acc_Token id (split_tok_id inner TOK_ID_AP_REQ)) (\<lambda>ap_req_bytes.
     map_sum Acc_Decode id (dec_ap_req D ap_req_bytes)))"

text \<open>\<open>lookup_key\<close> finds the keys of the service named in the ticket.\<close>

definition accept ::
  "'v ossl \<Rightarrow> krb_der \<Rightarrow> int \<Rightarrow> bytes \<Rightarrow> (principal_name \<Rightarrow> string \<Rightarrow> ('w \<times> 'v, principal_key list option) proc) \<Rightarrow>
   ('w \<times> 'v, accept_error + accepted_context) proc" where
  "accept S D clock input_token lookup_key =
     (case parse_ap_req D input_token of
        Inl e \<Rightarrow> return_proc (Inl e)
      | Inr req \<Rightarrow>
          bind_proc (lookup_key (tkt_sname (apq_ticket req)) (realm_to_string (tkt_realm (apq_ticket req)))) (\<lambda>found.
            case found of
              None \<Rightarrow> return_proc (Inl NoServiceKey)
            | Some service_keys \<Rightarrow>
                (case open_request S D clock req service_keys of
                   Inl e \<Rightarrow> return_proc (Inl e)
                 | Inr v \<Rightarrow>
                     bind_proc
                       (if vr_flags v AND GSS_C_MUTUAL_FLAG \<noteq> 0
                        then in_crypto (and_then (mutual_reply S D v) (\<lambda>t. ok_call (Some t)))
                        else return_proc (Inr None)) (\<lambda>r.
                       case r of
                         Inl e \<Rightarrow> return_proc (Inl e)
                       | Inr output_token \<Rightarrow>
                           return_proc (Inr
                             \<lparr>acc_client_principal = client_principal_of (vr_ticket v),
                              acc_session_key = base_key v,
                              acc_enctype = vr_enctype v,
                              acc_output_token = output_token\<rparr>)))))"

section \<open>What an accepted context shows\<close>

lemma ends_accept [ends_intros]: "(\<And>n r. ends (look n r)) \<Longrightarrow> ends (accept S D clock tok look)"
  unfolding accept_def by (intro ends_intros) auto

text \<open>
  The client's name comes from a ticket sealed with a key of the service, unexpired, whose holder
  could seal an authenticator of the same name, made within five minutes.
\<close>

definition request_genuine ::
  "'v ossl \<Rightarrow> krb_der \<Rightarrow> int \<Rightarrow> ap_req \<Rightarrow> principal_key list \<Rightarrow> verified_request \<Rightarrow> bool" where
  "request_genuine S D clock req ks v \<longleftrightarrow>
     (\<exists>k \<in> set ks. \<exists>tb ab.
        pk_enctype k = vr_enctype v \<and>
        krb_decrypt S (vr_enctype v) (pk_key k) 2 (ed_cipher (tkt_enc_part (apq_ticket req))) = Inr tb \<and>
        dec_enc_ticket D tb = Inr (vr_ticket v) \<and>
        krb_decrypt S (vr_enctype v) (ek_value (etp_key (vr_ticket v))) 11 (ed_cipher (apq_authenticator req)) = Inr ab \<and>
        dec_authenticator D ab = Inr (vr_authenticator v) \<and>
        au_crealm (vr_authenticator v) = etp_crealm (vr_ticket v) \<and>
        au_cname (vr_authenticator v) = etp_cname (vr_ticket v) \<and>
        diff_seconds (etp_end_time (vr_ticket v)) (fst (time_now clock)) \<le> 0 \<and>
        \<bar>diff_seconds (au_ctime (vr_authenticator v)) (fst (time_now clock))\<bar> \<le> 300)"

lemma open_request_genuine:
  assumes "open_request S D clock req ks = Inr v"
  shows "request_genuine S D clock req ks v"
  using assms
  unfolding open_request_def Let_def
  by (auto simp: request_genuine_def ACCEPT_CLOCK_SKEW_SECS_def not_less
      elim!: bind_resE dest!: find_SomeD split: option.splits if_splits) metis+

end
