(* ===== verification/Rootdse.thy ===== *)
theory Rootdse
  imports Partition
begin

text \<open>
  The root entry a client reads first (crates/ldap/src/rootdse.rs), built from the partition
  registry. The values of an attribute are a set on the wire; the list keeps the order they are
  given in.
\<close>

record partial_attribute =
  pa_type :: string
  pa_vals :: "bytes list"

record search_result_entry =
  sre_name :: string
  sre_attributes :: "partial_attribute list"

definition dse_attr :: "string \<Rightarrow> string list \<Rightarrow> partial_attribute" where
  "dse_attr name values = \<lparr>pa_type = name, pa_vals = map as_bytes values\<rparr>"

definition single_domain_partition :: "registry \<Rightarrow> partition option" where
  "single_domain_partition reg = exactly_one (filter (\<lambda>p. kind p = Domain) (registry_iter reg))"

text \<open>An attribute pushed only when there is a value.\<close>

definition opt_attrs :: "'a option \<Rightarrow> ('a \<Rightarrow> partial_attribute list) \<Rightarrow> partial_attribute list" where
  "opt_attrs x f = (case x of None \<Rightarrow> [] | Some y \<Rightarrow> f y)"

definition domain_attrs :: "registry \<Rightarrow> partition \<Rightarrow> partial_attribute list" where
  "domain_attrs reg dp =
     [dse_attr ''supportedCapabilities'' [''1.2.840.113556.1.4.800''],
      dse_attr ''defaultNamingContext'' [dn_string (base_dn dp)]] @
     opt_attrs (config_partition reg (forest dp)) (\<lambda>cfg.
       [dse_attr ''configurationNamingContext'' [dn_string (base_dn cfg)]]) @
     opt_attrs (schema_partition reg (forest dp)) (\<lambda>sch.
       [dse_attr ''schemaNamingContext'' [dn_string (base_dn sch)]]) @
     opt_attrs (root_domain_partition reg (forest dp)) (\<lambda>rt.
       [dse_attr ''rootDomainNamingContext'' [dn_string (base_dn rt)]]) @
     [dse_attr ''domainFunctionality'' [''7''],
      dse_attr ''forestFunctionality'' [''7''],
      dse_attr ''domainControllerFunctionality'' [''10''],
      dse_attr ''isSynchronized'' [''TRUE''],
      dse_attr ''highestCommittedUSN'' [''1'']] @
     opt_attrs (realm dp) (\<lambda>r.
       [dse_attr ''dnsHostName'' [''iron-ldapd.'' @ to_ascii_lowercase r],
        dse_attr ''ldapServiceName'' [to_ascii_lowercase r @ '':iron-ldapd@'' @ r],
        dse_attr ''serverName'' [''cn=iron-ldapd,'' @ dn_string (base_dn dp)],
        dse_attr ''dsServiceName'' [''cn=iron-ldapd,'' @ dn_string (base_dn dp)]]) @
     opt_attrs (schema_partition reg (forest dp)) (\<lambda>sch.
       [dse_attr ''subschemaSubentry'' [''cn=aggregate,'' @ dn_string (base_dn sch)]])"

definition build_rootdse :: "registry \<Rightarrow> bool \<Rightarrow> search_result_entry" where
  "build_rootdse reg fips_active =
     \<lparr>sre_name = [],
      sre_attributes =
        [dse_attr ''objectClass'' [''top''],
         dse_attr ''supportedLDAPVersion'' [''3''],
         dse_attr ''vendorName'' [''irondirectory'']] @
        (if fips_active then [dse_attr ''supportedSASLMechanisms'' [''GSSAPI'', ''GSS-SPNEGO'']] else []) @
        (let contexts = map (\<lambda>p. dn_string (base_dn p)) (registry_iter reg) in
         if contexts = [] then [] else [dse_attr ''namingContexts'' contexts]) @
        opt_attrs (single_domain_partition reg) (domain_attrs reg)\<rparr>"

section \<open>What a client reads\<close>

definition dse_values :: "search_result_entry \<Rightarrow> string \<Rightarrow> bytes list option" where
  "dse_values e n = map_of (map (\<lambda>a. (pa_type a, pa_vals a)) (sre_attributes e)) n"

lemma set_opt_attrs [simp]: "set (opt_attrs x f) = (case x of None \<Rightarrow> {} | Some y \<Rightarrow> set (f y))"
  by (simp add: opt_attrs_def split: option.split)

lemma domain_attr_names:
  "pa_type ` set (domain_attrs reg dp) \<subseteq>
   {''supportedCapabilities'', ''defaultNamingContext'', ''configurationNamingContext'', ''schemaNamingContext'',
    ''rootDomainNamingContext'', ''domainFunctionality'', ''forestFunctionality'', ''domainControllerFunctionality'',
    ''isSynchronized'', ''highestCommittedUSN'', ''dnsHostName'', ''ldapServiceName'', ''serverName'',
    ''dsServiceName'', ''subschemaSubentry''}"
  by (auto simp: domain_attrs_def dse_attr_def split: option.splits)

lemma map_of_dse_none:
  "n \<notin> pa_type ` set as \<Longrightarrow> map_of (map (\<lambda>a. (pa_type a, pa_vals a)) as) n = None"
  by (auto simp: map_of_eq_None_iff image_image)

lemma domain_attrs_none:
  "n \<in> {''namingContexts'', ''supportedSASLMechanisms''} \<Longrightarrow>
   map_of (map (\<lambda>a. (pa_type a, pa_vals a)) (domain_attrs reg dp)) n = None"
  using domain_attr_names [of reg dp] by (intro map_of_dse_none) auto

lemma rootdse_naming_contexts:
  "registry_iter reg \<noteq> [] \<Longrightarrow>
   dse_values (build_rootdse reg fips) ''namingContexts'' = Some (map (as_bytes \<circ> dn_string) (naming_contexts reg))"
  by (auto simp: dse_values_def build_rootdse_def dse_attr_def naming_contexts_def opt_attrs_def map_add_def
      comp_def domain_attrs_none Let_def split: option.split)

lemma rootdse_sasl:
  "dse_values (build_rootdse reg fips) ''supportedSASLMechanisms'' =
   (if fips then Some [as_bytes ''GSSAPI'', as_bytes ''GSS-SPNEGO''] else None)"
  by (auto simp: dse_values_def build_rootdse_def dse_attr_def opt_attrs_def map_add_def domain_attrs_none Let_def
      split: option.split)

lemma exactly_one_iff: "exactly_one xs = Some x \<longleftrightarrow> xs = [x]"
  by (auto simp: exactly_one_def split: list.splits)

lemma domain_attrs_default:
  "map_of (map (\<lambda>a. (pa_type a, pa_vals a)) (domain_attrs reg dp)) ''defaultNamingContext'' =
   Some [as_bytes (dn_string (base_dn dp))]"
  by (simp add: domain_attrs_def dse_attr_def)

lemma rootdse_default_context:
  "dse_values (build_rootdse reg fips) ''defaultNamingContext'' =
   (case filter (\<lambda>p. kind p = Domain) (registry_iter reg) of
      [p] \<Rightarrow> Some [as_bytes (dn_string (base_dn p))]
    | _ \<Rightarrow> None)"
  by (simp add: dse_values_def build_rootdse_def dse_attr_def opt_attrs_def domain_attrs_default map_add_def Let_def
      single_domain_partition_def exactly_one_def split: option.split list.split)

end
