(* ===== verification/Ldap_Messages.thy ===== *)
theory Ldap_Messages
  imports Accept Ldap_Filter Framing Rootdse
begin

text \<open>
  The LDAP messages a session exchanges, with the fields the code reads or writes, and the libraries
  it calls. The message types and their codec belong to a library; the codec is a parameter.
\<close>

datatype result_code =
    Success | OperationsError | ProtocolError | SizeLimitExceeded | CompareFalse | CompareTrue
  | AuthMethodNotSupported | Referral | SaslBindInProgress | ConstraintViolation | NoSuchObject
  | InvalidDnSyntax | InvalidCredentials | UnwillingToPerform | ObjectClassViolation
  | NotAllowedOnNonLeaf | Other_code

text \<open>
  A diagnostic is a text the code writes, or what another layer's error prints, after a prefix; such
  an error stands as itself.
\<close>

datatype diagnostic =
    Text string
  | Store_text string store_error
  | Accept_text accept_error
  | Wrap_text wrap_error
  | Principal_text principal_error
  | Ber_text string string

record ldap_result =
  lr_code :: result_code
  lr_matched :: string
  lr_diagnostic :: diagnostic
  lr_referral :: "string list option"

datatype auth_choice = Simple bytes | Sasl string "bytes option" | Auth_unrecognized

record bind_request =
  bq_version :: nat
  bq_name :: string
  bq_auth :: auth_choice

record bind_response =
  br_code :: result_code
  br_matched :: string
  br_diagnostic :: diagnostic
  br_sasl_creds :: "bytes option"

datatype search_scope = BaseObject | SingleLevel | WholeSubtree | Scope_unrecognized

record search_request =
  sq_base :: string
  sq_scope :: search_scope
  sq_size_limit :: u32
  sq_types_only :: bool
  sq_filter :: ldap_filter
  sq_attributes :: "string list"

record add_request =
  aq_entry :: string
  aq_attributes :: "partial_attribute list"

datatype change_operation = Op_add | Op_delete | Op_replace

record modify_change =
  mc_operation :: change_operation
  mc_modification :: partial_attribute

record modify_request =
  mq_object :: string
  mq_changes :: "modify_change list"

record compare_request =
  cq_entry :: string
  cq_ava :: ava_assertion

record moddn_request =
  dq_entry :: string
  dq_new_rdn :: string
  dq_delete_old_rdn :: bool
  dq_new_superior :: "string option"

record extended_request =
  xq_name :: bytes
  xq_value :: "bytes option"

record extended_response =
  xr_code :: result_code
  xr_matched :: string
  xr_diagnostic :: diagnostic
  xr_name :: "bytes option"
  xr_value :: "bytes option"

datatype protocol_op =
    UnbindRequest
  | BindRequest bind_request
  | BindResponse bind_response
  | SearchRequest search_request
  | SearchResEntry search_result_entry
  | SearchResDone ldap_result
  | AddRequest add_request
  | AddResponse ldap_result
  | DelRequest string
  | DelResponse ldap_result
  | ModifyRequest modify_request
  | ModifyResponse ldap_result
  | CompareRequest compare_request
  | CompareResponse ldap_result
  | ModDnRequest moddn_request
  | ModDnResponse ldap_result
  | ExtendedReq extended_request
  | ExtendedResp extended_response
  | Op_unhandled

record ldap_message =
  msg_id :: u32
  msg_op :: protocol_op

text \<open>The value of a password-modify request.\<close>

record passwd_modify =
  pm_user_identity :: "bytes option"
  pm_old_passwd :: "bytes option"
  pm_new_passwd :: "bytes option"

text \<open>The libraries: etcd client, JSON, base64, Unicode tables and the codecs.\<close>

record ('w, 'h) libs =
  lib_etcd :: "('w, 'h) etcd"
  lib_json :: json
  lib_base64 :: base64
  lib_unicode :: unicode
  lib_krb :: krb_der
  lib_passwd :: "passwd_modify decoder"
  lib_ldap :: "ldap_message ber"

end
