(* ===== verification/Schema_Rules.thy ===== *)
theory Schema_Rules
  imports Entry_Model
begin

text \<open>
  The built-in schema (crates/ldap/src/schema.rs): which attributes an entry must carry for the
  object classes it declares. Classes outside the table are not checked.
\<close>

record object_class =
  oc_name :: string
  oc_must :: "string list"

definition CLASSES :: "object_class list" where
  "CLASSES =
     [\<lparr>oc_name = ''top'', oc_must = []\<rparr>,
      \<lparr>oc_name = ''person'', oc_must = [''cn'']\<rparr>,
      \<lparr>oc_name = ''organizationalPerson'', oc_must = [''cn'']\<rparr>,
      \<lparr>oc_name = ''inetOrgPerson'', oc_must = [''cn'']\<rparr>,
      \<lparr>oc_name = ''organizationalUnit'', oc_must = [''ou'']\<rparr>,
      \<lparr>oc_name = ''groupOfNames'', oc_must = [''cn'', ''member'']\<rparr>,
      \<lparr>oc_name = ''user'', oc_must = [''cn'']\<rparr>,
      \<lparr>oc_name = ''computer'', oc_must = [''cn'']\<rparr>,
      \<lparr>oc_name = ''group'', oc_must = [''cn'']\<rparr>,
      \<lparr>oc_name = ''posixAccount'', oc_must = [''cn'', ''uid'', ''uidNumber'', ''gidNumber'', ''homeDirectory'']\<rparr>,
      \<lparr>oc_name = ''posixGroup'', oc_must = [''cn'', ''gidNumber'']\<rparr>]"

definition has_values :: "entry \<Rightarrow> string \<Rightarrow> bool" where
  "has_values e must = (case entry_get e must of None \<Rightarrow> False | Some v \<Rightarrow> v \<noteq> [])"

fun check_must :: "entry \<Rightarrow> string \<Rightarrow> string list \<Rightarrow> string + unit" where
  "check_must e oc [] = Inr ()"
| "check_must e oc (must # ms) =
     (if has_values e must then check_must e oc ms
      else Inl (''objectClass '' @ oc @ '' requires attribute '' @ must))"

fun check_classes :: "entry \<Rightarrow> string list \<Rightarrow> string + unit" where
  "check_classes e [] = Inr ()"
| "check_classes e (oc # ocs) =
     (case find (\<lambda>c. eq_ignore_ascii_case (oc_name c) oc) CLASSES of
        None \<Rightarrow> check_classes e ocs
      | Some d \<Rightarrow> (case check_must e oc (oc_must d) of Inl msg \<Rightarrow> Inl msg | Inr u \<Rightarrow> check_classes e ocs))"

definition validate :: "entry \<Rightarrow> string + unit" where
  "validate e = (case entry_get e ''objectclass'' of None \<Rightarrow> Inr () | Some classes \<Rightarrow> check_classes e classes)"

section \<open>What the checks decide\<close>

text \<open>The entry has every attribute that each class it declares requires.\<close>

definition schema_complete :: "entry \<Rightarrow> bool" where
  "schema_complete e \<longleftrightarrow>
     (\<forall>classes oc d must.
        entry_get e ''objectclass'' = Some classes \<longrightarrow> oc \<in> set classes \<longrightarrow> d \<in> set CLASSES \<longrightarrow>
        eq_ignore_ascii_case (oc_name d) oc \<longrightarrow> must \<in> set (oc_must d) \<longrightarrow>
        (\<exists>v vs. entry_get e must = Some (v # vs)))"

lemma has_values_iff: "has_values e m \<longleftrightarrow> (\<exists>v vs. entry_get e m = Some (v # vs))"
  by (auto simp: has_values_def neq_Nil_conv split: option.splits)

lemma check_must_ok: "check_must e oc ms = Inr u \<longleftrightarrow> (\<forall>m \<in> set ms. has_values e m)"
  by (induction ms) auto

lemma check_must_error:
  "check_must e oc ms = Inl msg \<Longrightarrow>
   \<exists>m \<in> set ms. \<not> has_values e m \<and> msg = ''objectClass '' @ oc @ '' requires attribute '' @ m"
  by (induction ms) (auto split: if_splits)

lemma classes_distinct:
  "c \<in> set CLASSES \<Longrightarrow> d \<in> set CLASSES \<Longrightarrow> to_ascii_lowercase (oc_name c) = to_ascii_lowercase (oc_name d) \<Longrightarrow> c = d"
proof -
  have "distinct (map (\<lambda>c. to_ascii_lowercase (oc_name c)) CLASSES)" by code_simp
  then show "c \<in> set CLASSES \<Longrightarrow> d \<in> set CLASSES \<Longrightarrow>
      to_ascii_lowercase (oc_name c) = to_ascii_lowercase (oc_name d) \<Longrightarrow> c = d"
    unfolding distinct_map inj_on_def by blast
qed

lemma find_class:
  "find (\<lambda>c. eq_ignore_ascii_case (oc_name c) oc) CLASSES = Some d \<longleftrightarrow>
   d \<in> set CLASSES \<and> eq_ignore_ascii_case (oc_name d) oc"
proof
  show "find (\<lambda>c. eq_ignore_ascii_case (oc_name c) oc) CLASSES = Some d \<Longrightarrow>
    d \<in> set CLASSES \<and> eq_ignore_ascii_case (oc_name d) oc"
    by (auto simp: find_Some_iff)
next
  assume d: "d \<in> set CLASSES \<and> eq_ignore_ascii_case (oc_name d) oc"
  then obtain c where c: "find (\<lambda>c. eq_ignore_ascii_case (oc_name c) oc) CLASSES = Some c"
    by (metis (no_types, lifting) find_None_iff option.exhaust)
  then have "c \<in> set CLASSES" "eq_ignore_ascii_case (oc_name c) oc" by (auto simp: find_Some_iff)
  with d have "c = d" by (intro classes_distinct) (auto simp: eq_ignore_ascii_case_def)
  with c show "find (\<lambda>c. eq_ignore_ascii_case (oc_name c) oc) CLASSES = Some d" by simp
qed

lemma check_classes_ok:
  "check_classes e ocs = Inr u \<longleftrightarrow>
   (\<forall>oc \<in> set ocs. \<forall>d \<in> set CLASSES. eq_ignore_ascii_case (oc_name d) oc \<longrightarrow> (\<forall>m \<in> set (oc_must d). has_values e m))"
proof (induction ocs)
  case (Cons oc ocs)
  show ?case
  proof (cases "find (\<lambda>c. eq_ignore_ascii_case (oc_name c) oc) CLASSES")
    case None
    then have "\<forall>d \<in> set CLASSES. \<not> eq_ignore_ascii_case (oc_name d) oc" by (simp add: find_None_iff)
    then show ?thesis using None Cons.IH by simp
  next
    case (Some d)
    then have d: "\<And>d'. d' \<in> set CLASSES \<and> eq_ignore_ascii_case (oc_name d') oc \<longleftrightarrow> d' = d"
      using find_class by (metis option.inject)
    show ?thesis using Some Cons.IH d
      by (auto simp: check_must_ok split: sum.splits) (metis Inl_Inr_False check_must_ok sum.exhaust unit.exhaust)+
  qed
qed simp

text \<open>
  Validation accepts exactly the entries that are complete for the classes they declare.
\<close>

lemma validate_ok: "validate e = Inr u \<longleftrightarrow> schema_complete e"
  by (auto simp: validate_def schema_complete_def check_classes_ok has_values_iff split: option.splits)

lemma validate_error:
  assumes "validate e = Inl msg"
  shows "\<exists>classes oc d must. entry_get e ''objectclass'' = Some classes \<and> oc \<in> set classes \<and> d \<in> set CLASSES \<and>
    eq_ignore_ascii_case (oc_name d) oc \<and> must \<in> set (oc_must d) \<and> \<not> has_values e must \<and>
    msg = ''objectClass '' @ oc @ '' requires attribute '' @ must"
proof -
  obtain classes where c: "entry_get e ''objectclass'' = Some classes" and err: "check_classes e classes = Inl msg"
    using assms by (auto simp: validate_def split: option.splits)
  have "\<exists>oc d must. oc \<in> set classes \<and> d \<in> set CLASSES \<and> eq_ignore_ascii_case (oc_name d) oc \<and> must \<in> set (oc_must d) \<and>
      \<not> has_values e must \<and> msg = ''objectClass '' @ oc @ '' requires attribute '' @ must"
    using err
  proof (induction classes)
    case (Cons oc ocs)
    then show ?case
      by (auto split: option.splits sum.splits simp: find_class dest!: check_must_error) blast+
  qed simp
  with c show ?thesis by blast
qed

end
