(* ===== verification/Security.thy ===== *)
theory Security
  imports Store Secdesc Proc
begin

text \<open>
  Security principals (crates/ldap/src/security.rs): a new user, computer or group gets a security
  identifier from its domain's pool of relative identifiers, and a default security descriptor.
\<close>

definition SECURITY_PRINCIPAL_CLASSES :: "string list" where
  "SECURITY_PRINCIPAL_CLASSES = [''user'', ''computer'', ''group'']"

definition declares_security_principal_class :: "entry \<Rightarrow> bool" where
  "declares_security_principal_class e =
     (case entry_get e ''objectclass'' of
        None \<Rightarrow> False
      | Some classes \<Rightarrow>
          list_ex (\<lambda>c. list_ex (\<lambda>sc. eq_ignore_ascii_case sc c) SECURITY_PRINCIPAL_CLASSES) classes)"

definition stamped :: "base64 \<Rightarrow> sid \<Rightarrow> u32 \<Rightarrow> entry \<Rightarrow> entry" where
  "stamped B dsid rid e =
     entry_set
       (entry_set e OBJECT_SID_ATTR [encode_binary_attr B (sid_encode (with_sub_authority dsid rid))])
       NT_SECURITY_DESCRIPTOR_ATTR [encode_binary_attr B (default_descriptor dsid)]"

definition stamp_security_principal ::
  "('w, 'h) etcd \<Rightarrow> base64 \<Rightarrow> 'h store \<Rightarrow> registry option \<Rightarrow> dn \<Rightarrow> entry \<Rightarrow>
   ('w \<times> 'v, store_error + entry) proc" where
  "stamp_security_principal E B st topology d e =
     (if \<not> declares_security_principal_class e then return_proc (Inr e)
      else
        (let reg = (case topology of Some t \<Rightarrow> t | None \<Rightarrow> st_registry st) in
         case Option.bind (resolve reg d) domain_sid of
           None \<Rightarrow> return_proc (Inr e)
         | Some domain_sid_str \<Rightarrow>
             (case sid_parse domain_sid_str of
                None \<Rightarrow> return_proc (Inr e)
              | Some dsid \<Rightarrow>
                  bind_proc (in_store_loop (store_allocate_rid E st d)) (\<lambda>r.
                    case r of
                      Inl err \<Rightarrow> return_proc (Inl err)
                    | Inr rid \<Rightarrow> return_proc (Inr (stamped B dsid rid e))))))"

section \<open>What is stamped\<close>

lemma store_allocate_rid_ends: "etcd_ok E cont \<Longrightarrow> store_allocate_rid E st d w \<noteq> None"
  by (auto simp: store_allocate_rid_def split: sum.splits) (metis allocate_rid_ok)

lemma stamp_ends [ends_intros]: "etcd_ok E cont \<Longrightarrow> ends (stamp_security_principal E B st topology d e)"
  unfolding stamp_security_principal_def Let_def
  by (intro ends_intros ends_in_store_loop) (simp add: store_allocate_rid_ends)

lemma binary_attrs_lower [simp]:
  "to_ascii_lowercase OBJECT_SID_ATTR = OBJECT_SID_ATTR"
  "to_ascii_lowercase NT_SECURITY_DESCRIPTOR_ATTR = NT_SECURITY_DESCRIPTOR_ATTR"
  "OBJECT_SID_ATTR \<noteq> NT_SECURITY_DESCRIPTOR_ATTR"
  by code_simp+

lemma stamped_ok: "entry_ok e \<Longrightarrow> entry_ok (stamped B s rid e)"
  by (simp add: stamped_def entry_ok_ops)

lemma stamped_get:
  "entry_get (stamped B s rid e) OBJECT_SID_ATTR = Some [b64_encode B (sid_encode (with_sub_authority s rid))]"
  "entry_get (stamped B s rid e) NT_SECURITY_DESCRIPTOR_ATTR = Some [b64_encode B (default_descriptor s)]"
  "\<not> is_binary_attr a \<Longrightarrow> entry_get (stamped B s rid e) a = entry_get e a"
  by (simp_all add: stamped_def entry_get_set is_binary_attr_def encode_binary_attr_def eq_ignore_ascii_case_def)

text \<open>
  Either the entry is left alone, or the pool of the partition that stores it gave a number, which is
  the new entry's relative identifier, and the pool has moved past it.
\<close>

lemma stamp_result:
  assumes "etcd_ok E cont"
    and "stamp_security_principal E B st topology d e w = Some (Returned (Inr e'), w')"
  obtains (unchanged) "e' = e" "w' = w"
    | (stamped) p h dsid rid where
        "declares_security_principal_class e" "resolve (st_registry st) d = Some p" "client_mut st (part_id p) = Inr h"
        "e' = stamped B dsid rid e" "snd w' = snd w"
        "rid_counter (part_id p) (cont (fst w) h) = Some rid"
        "rid_counter (part_id p) (cont (fst w') h) = Some (rid + 1)"
        "\<forall>k. k \<noteq> pool_key (part_id p) \<longrightarrow> cont (fst w') h k = cont (fst w) h k"
proof -
  have "e' = e \<and> w' = w \<or>
    (\<exists>dsid rid u. declares_security_principal_class e \<and> e' = stamped B dsid rid e \<and> w' = (u, snd w) \<and>
      store_allocate_rid E st d (fst w) = Some (Inr rid, u))"
    using assms(2)
    by (auto simp: stamp_security_principal_def Let_def elim!: bind_procE split: if_splits option.splits sum.splits)
  then consider "e' = e" "w' = w"
    | dsid rid u where "declares_security_principal_class e" "e' = stamped B dsid rid e" "w' = (u, snd w)"
        "store_allocate_rid E st d (fst w) = Some (Inr rid, u)"
    by blast
  then show thesis
  proof cases
    case 1
    then show thesis by (rule unchanged)
  next
    case (2 dsid rid u)
    then obtain p h where p: "resolve (st_registry st) d = Some p" "client_mut st (part_id p) = Inr h"
      and a: "allocate_rid E h (part_id p) (fst w) = Some (Inr rid, u)"
      by (auto simp: store_allocate_rid_def store_resolve_def split: sum.splits option.splits)
    show thesis
      by (rule allocate_rid_ok [OF assms(1), of h "part_id p" "fst w"], rule stamped [OF _ p])
        (use 2 a in auto)
  qed
qed

end
