(* ===== verification/Session.thy ===== *)
theory Session
  imports Ldap_Messages Schema_Rules Security
begin

text \<open>
  The request handlers of an LDAP session (crates/ldap/src/session.rs): one definition per handler,
  over the store, the cryptographic library and the message types. The connection loop is in the
  theory Connection.
\<close>

section \<open>Results and referrals\<close>

definition USER_PASSWORD_ATTR :: string where
  "USER_PASSWORD_ATTR = ''userpassword''"

definition ldap_result_new :: "result_code \<Rightarrow> string \<Rightarrow> diagnostic \<Rightarrow> ldap_result" where
  "ldap_result_new code matched diag =
     \<lparr>lr_code = code, lr_matched = matched, lr_diagnostic = diag, lr_referral = None\<rparr>"

definition unwilling :: "string \<Rightarrow> ldap_result" where
  "unwilling diag = ldap_result_new UnwillingToPerform [] (Text diag)"

definition success :: ldap_result where
  "success = ldap_result_new Success [] (Text [])"

definition operations_error :: "diagnostic \<Rightarrow> ldap_result" where
  "operations_error diag = ldap_result_new OperationsError [] diag"

definition invalid_dn :: ldap_result where
  "invalid_dn = ldap_result_new InvalidDnSyntax [] (Text ''invalid DN'')"

definition no_such_object :: ldap_result where
  "no_such_object = ldap_result_new NoSuchObject [] (Text [])"

record referrals =
  rf_topology :: "registry option"
  rf_static :: "(dn \<times> string) list"
  rf_own :: "partition_id option"

definition referral_for :: "referrals \<Rightarrow> dn \<Rightarrow> string option" where
  "referral_for refs d =
     (case Option.bind (Option.bind (rf_topology refs) (\<lambda>t. resolve t d)) ldap_url of
        Some url \<Rightarrow> Some url
      | None \<Rightarrow> map_option snd (find (\<lambda>(base, _). is_within d base) (rf_static refs)))"

definition trim_end_slash :: "string \<Rightarrow> string" where
  "trim_end_slash s = rev (dropWhile (\<lambda>c. c = CHR ''/'') (rev s))"

definition referral_result :: "string \<Rightarrow> dn \<Rightarrow> ldap_result" where
  "referral_result url d =
     (ldap_result_new Referral [] (Text []))\<lparr>lr_referral := Some [trim_end_slash url @ ''/'' @ dn_string d]\<rparr>"

definition proactive_referral :: "referrals \<Rightarrow> dn \<Rightarrow> ldap_result option" where
  "proactive_referral refs d =
     Option.bind (rf_topology refs) (\<lambda>topology.
     Option.bind (rf_own refs) (\<lambda>own_id.
     Option.bind (resolve topology d) (\<lambda>owner.
     if part_id owner = own_id then None
     else Option.bind (ldap_url owner) (\<lambda>url. Some (referral_result url d)))))"

definition store_error_result :: "store_error \<Rightarrow> referrals \<Rightarrow> dn \<Rightarrow> ldap_result" where
  "store_error_result e refs d =
     (case (case e of NoPartitionFor _ \<Rightarrow> referral_for refs d | _ \<Rightarrow> None) of
        Some url \<Rightarrow> referral_result url d
      | None \<Rightarrow> operations_error (Store_text [] e))"

section \<open>Store calls\<close>

definition get_entry_at :: "('w, 'h) libs \<Rightarrow> 'h store \<Rightarrow> dn \<Rightarrow> ('w \<times> 'v, store_error + entry option) proc" where
  "get_entry_at L st d = in_store (store_get_entry (lib_etcd L) (lib_json L) st d)"

definition put_entry_at ::
  "('w, 'h) libs \<Rightarrow> 'h store \<Rightarrow> dn \<Rightarrow> entry \<Rightarrow> index_spec \<Rightarrow> ('w \<times> 'v, store_error + unit) proc" where
  "put_entry_at L st d e spec = in_store (store_put_entry (lib_etcd L) (lib_json L) st d e spec)"

definition delete_entry_at ::
  "('w, 'h) libs \<Rightarrow> 'h store \<Rightarrow> dn \<Rightarrow> index_spec \<Rightarrow> ('w \<times> 'v, store_error + unit) proc" where
  "delete_entry_at L st d spec = in_store (store_delete_entry (lib_etcd L) (lib_json L) st d spec)"

definition scan_subtree_at ::
  "('w, 'h) libs \<Rightarrow> 'h store \<Rightarrow> dn \<Rightarrow> ('w \<times> 'v, store_error + (dn \<times> entry) list) proc" where
  "scan_subtree_at L st d = in_store (store_scan_subtree (lib_etcd L) (lib_json L) st d)"

definition lookup_at ::
  "('w, 'h) libs \<Rightarrow> 'h store \<Rightarrow> dn \<Rightarrow> string \<Rightarrow> string \<Rightarrow> ('w \<times> 'v, store_error + dn list) proc" where
  "lookup_at L st d a v = in_store (store_lookup_by_index (lib_etcd L) st d a v)"

section \<open>Bind\<close>

text \<open>
  The states of a SASL negotiation. The sequence number of the next wrapped response belongs to the
  active layer.
\<close>

datatype sasl_state =
    Sasl_None
  | AwaitingApRepAck bytes enctype string
  | AwaitingSecurityLayerAck bytes enctype string
  | SecurityLayerActive bytes enctype bool u64

definition authenticate_simple ::
  "('w, 'h) libs \<Rightarrow> 'h store \<Rightarrow> 'v ossl option \<Rightarrow> string \<Rightarrow> bytes \<Rightarrow> ('w \<times> 'v, result_code) proc" where
  "authenticate_simple L st fips name password =
     (case fips of
        None \<Rightarrow> return_proc InvalidCredentials
      | Some S \<Rightarrow>
          (case dn_parse name of
             Inl _ \<Rightarrow> return_proc InvalidCredentials
           | Inr d \<Rightarrow>
               bind_proc (get_entry_at L st d) (\<lambda>r.
                 case r of
                   Inl _ \<Rightarrow> return_proc InvalidCredentials
                 | Inr None \<Rightarrow> return_proc InvalidCredentials
                 | Inr (Some e) \<Rightarrow>
                     (case first_value e USER_PASSWORD_ATTR of
                        None \<Rightarrow> return_proc InvalidCredentials
                      | Some stored \<Rightarrow>
                          bind_proc (or_panic (verify_password S password stored)) (\<lambda>ok.
                            return_proc (if ok = Inr True then Success else InvalidCredentials))))))"

definition bind_response_new :: "result_code \<Rightarrow> diagnostic \<Rightarrow> bytes option \<Rightarrow> bind_response" where
  "bind_response_new code diag creds =
     \<lparr>br_code = code, br_matched = [], br_diagnostic = diag, br_sasl_creds = creds\<rparr>"

definition OFFERED_LAYERS :: u8 where
  "OFFERED_LAYERS = 0x01 OR 0x02 OR 0x04"

definition MAX_BUFFER :: u32 where
  "MAX_BUFFER = 0x00FFFFFF"

definition security_layer_challenge :: "'v ossl \<Rightarrow> enctype \<Rightarrow> bytes \<Rightarrow> ('v, wrap_error, bytes) call" where
  "security_layer_challenge S e session_key =
     gss_wrap S e session_key 22 False 0 (OFFERED_LAYERS # drop 1 (to_be 4 MAX_BUFFER))"

text \<open>The keys of the service a ticket names, found by its principal name.\<close>

definition lookup_service_keys ::
  "('w, 'h) libs \<Rightarrow> 'h store \<Rightarrow> dn \<Rightarrow> principal_name \<Rightarrow> string \<Rightarrow> ('w \<times> 'v, principal_key list option) proc" where
  "lookup_service_keys L st any_dn sname rlm =
     bind_proc (lookup_at L st any_dn ATTR_PRINCIPAL_NAME (principal_name_to_string sname @ ''@'' @ rlm)) (\<lambda>r.
       case r of
         Inl _ \<Rightarrow> return_proc None
       | Inr [] \<Rightarrow> return_proc None
       | Inr (d # _) \<Rightarrow>
           bind_proc (get_entry_at L st d) (\<lambda>r.
             case r of
               Inl _ \<Rightarrow> return_proc None
             | Inr None \<Rightarrow> return_proc None
             | Inr (Some e) \<Rightarrow>
                 bind_proc (or_panic (keys e)) (\<lambda>ks.
                   return_proc (case ks of Inl _ \<Rightarrow> None | Inr ks \<Rightarrow> Some ks))))"

type_synonym bind_outcome = "bind_response \<times> string option \<times> sasl_state"

text \<open>The challenge that opens the negotiation of a layer.\<close>

definition send_challenge ::
  "'v ossl \<Rightarrow> bytes \<Rightarrow> enctype \<Rightarrow> string \<Rightarrow> ('w \<times> 'v, bind_outcome) proc" where
  "send_challenge S session_key e client_principal =
     bind_proc (in_crypto (security_layer_challenge S e session_key)) (\<lambda>r.
       return_proc
         (case r of
            Inr challenge \<Rightarrow>
              (bind_response_new SaslBindInProgress (Text []) (Some challenge), None,
               AwaitingSecurityLayerAck session_key e client_principal)
          | Inl err \<Rightarrow> (bind_response_new OperationsError (Wrap_text err) None, None, Sasl_None)))"

definition accept_token ::
  "('w, 'h) libs \<Rightarrow> 'h store \<Rightarrow> 'v ossl \<Rightarrow> int \<Rightarrow> bytes option \<Rightarrow> ('w \<times> 'v, bind_outcome) proc" where
  "accept_token L st S clock credentials =
     (case credentials of
        None \<Rightarrow>
          return_proc (bind_response_new AuthMethodNotSupported (Text ''GSSAPI bind requires an initial token'') None,
            None, Sasl_None)
      | Some input_token \<Rightarrow>
          (case registry_iter (st_registry st) of
             [] \<Rightarrow> return_proc (bind_response_new Other_code (Text ''no partition configured'') None, None, Sasl_None)
           | p # _ \<Rightarrow>
               bind_proc (accept S (lib_krb L) clock input_token (lookup_service_keys L st (base_dn p))) (\<lambda>r.
                 case r of
                   Inl err \<Rightarrow> return_proc (bind_response_new InvalidCredentials (Accept_text err) None, None, Sasl_None)
                 | Inr acc \<Rightarrow>
                     (case acc_output_token acc of
                        Some tok \<Rightarrow>
                          return_proc (bind_response_new SaslBindInProgress (Text []) (Some tok), None,
                            AwaitingApRepAck (acc_session_key acc) (acc_enctype acc) (acc_client_principal acc))
                      | None \<Rightarrow> send_challenge S (acc_session_key acc) (acc_enctype acc) (acc_client_principal acc)))))"

text \<open>The client's choice of a layer: none, integrity or confidentiality.\<close>

definition choose_layer :: "'v ossl \<Rightarrow> bytes \<Rightarrow> enctype \<Rightarrow> string \<Rightarrow> bytes option \<Rightarrow> bind_outcome" where
  "choose_layer S session_key e client_principal credentials =
     (case credentials of
        None \<Rightarrow> (bind_response_new ProtocolError (Text ''missing security-layer response'') None, None, Sasl_None)
      | Some response \<Rightarrow>
          (let granted = bind_response_new Success (Text []) None; user = Some (''u:'' @ client_principal) in
           case gss_unwrap S e session_key 24 response of
             Inl err \<Rightarrow> (bind_response_new InvalidCredentials (Wrap_text err) None, None, Sasl_None)
           | Inr plain \<Rightarrow>
               if plain \<noteq> [] \<and> hd plain = 0x01 then (granted, user, Sasl_None)
               else if plain \<noteq> [] \<and> hd plain = 0x02 then (granted, user, SecurityLayerActive session_key e False 1)
               else if plain \<noteq> [] \<and> hd plain = 0x04 then (granted, user, SecurityLayerActive session_key e True 1)
               else (bind_response_new UnwillingToPerform
                       (Text ''client selected an unsupported security layer'') None, None, Sasl_None)))"

definition handle_sasl_bind ::
  "('w, 'h) libs \<Rightarrow> 'h store \<Rightarrow> 'v ossl option \<Rightarrow> int \<Rightarrow> string \<Rightarrow> bytes option \<Rightarrow> sasl_state \<Rightarrow>
   ('w \<times> 'v, bind_outcome) proc" where
  "handle_sasl_bind L st fips clock mechanism credentials state =
     (if mechanism \<noteq> ''GSSAPI'' then
        return_proc (bind_response_new AuthMethodNotSupported
          (Text ''only the GSSAPI SASL mechanism is supported'') None, None, Sasl_None)
      else
        (case fips of
           None \<Rightarrow>
             return_proc (bind_response_new UnwillingToPerform
               (Text ''FIPS provider not active -- SASL/GSSAPI unavailable'') None, None, Sasl_None)
         | Some S \<Rightarrow>
             (case state of
                Sasl_None \<Rightarrow> accept_token L st S clock credentials
              | AwaitingApRepAck session_key e client_principal \<Rightarrow> send_challenge S session_key e client_principal
              | AwaitingSecurityLayerAck session_key e client_principal \<Rightarrow>
                  return_proc (choose_layer S session_key e client_principal credentials)
              | SecurityLayerActive session_key e sealed send_seq \<Rightarrow>
                  return_proc (bind_response_new UnwillingToPerform
                    (Text ''re-bind on a connection with an active security layer is not supported'') None, None, state))))"

definition handle_bind ::
  "('w, 'h) libs \<Rightarrow> 'h store \<Rightarrow> 'v ossl option \<Rightarrow> int \<Rightarrow> bind_request \<Rightarrow> sasl_state \<Rightarrow> ('w \<times> 'v, bind_outcome) proc" where
  "handle_bind L st fips clock req state =
     (if bq_version req \<noteq> 3 then
        return_proc (bind_response_new ProtocolError (Text ''only LDAPv3 is supported'') None, None, Sasl_None)
      else
        (case bq_auth req of
           Simple password \<Rightarrow>
             if bq_name req = [] \<and> password = [] then
               return_proc (bind_response_new Success (Text []) None, None, Sasl_None)
             else
               bind_proc (authenticate_simple L st fips (bq_name req) password) (\<lambda>code.
                 return_proc (bind_response_new code (Text []) None,
                   (if code = Success then Some (''dn:'' @ bq_name req) else None), Sasl_None))
         | Sasl mechanism credentials \<Rightarrow> handle_sasl_bind L st fips clock mechanism credentials state
         | Auth_unrecognized \<Rightarrow>
             return_proc (bind_response_new AuthMethodNotSupported
               (Text ''unrecognized authentication choice'') None, None, Sasl_None)))"

section \<open>Passwords in entries\<close>

definition password_error_result :: "crypto_error \<Rightarrow> ldap_result" where
  "password_error_result e =
     (case e of
        PasswordTooShort least actual \<Rightarrow>
          ldap_result_new ConstraintViolation []
            (Text (''password is '' @ nat_str actual @ '' bytes, shorter than the required minimum of '' @ nat_str least))
      | FipsProviderNotActive \<Rightarrow> unwilling ''FIPS provider not active -- cannot hash userPassword''
      | _ \<Rightarrow> unwilling ''failed to hash userPassword'')"

fun hash_all :: "'v ossl \<Rightarrow> string list \<Rightarrow> ('v, crypto_error, string list) call" where
  "hash_all S [] = ok_call []"
| "hash_all S (v # vs) =
     and_then (hash_password S (as_bytes v)) (\<lambda>h.
     and_then (hash_all S vs) (\<lambda>hs. ok_call (h # hs)))"

definition hash_password_values :: "'v ossl option \<Rightarrow> string list \<Rightarrow> ('v, crypto_error, string list) call" where
  "hash_password_values fips values =
     (case fips of None \<Rightarrow> fail_call FipsProviderNotActive | Some S \<Rightarrow> hash_all S values)"

fun entry_from_attributes_loop ::
  "'v ossl option \<Rightarrow> entry \<Rightarrow> partial_attribute list \<Rightarrow> ('v, crypto_error, entry) call" where
  "entry_from_attributes_loop fips e [] = ok_call e"
| "entry_from_attributes_loop fips e (a # as) =
     (let values = map from_utf8_lossy (pa_vals a) in
      if eq_ignore_ascii_case (pa_type a) USER_PASSWORD_ATTR then
        and_then (hash_password_values fips values) (\<lambda>hs.
          entry_from_attributes_loop fips (entry_set e (pa_type a) hs) as)
      else entry_from_attributes_loop fips (entry_set e (pa_type a) values) as)"

definition entry_from_attributes ::
  "'v ossl option \<Rightarrow> partial_attribute list \<Rightarrow> ('v, crypto_error, entry) call" where
  "entry_from_attributes fips as = entry_from_attributes_loop fips entry_new as"

section \<open>Add and delete\<close>

definition schema_violation :: "string \<Rightarrow> ldap_result" where
  "schema_violation msg = ldap_result_new ObjectClassViolation [] (Text msg)"

definition put_result ::
  "('w, 'h) libs \<Rightarrow> 'h store \<Rightarrow> dn \<Rightarrow> entry \<Rightarrow> index_spec \<Rightarrow> referrals \<Rightarrow> ('w \<times> 'v, ldap_result) proc" where
  "put_result L st d e spec refs =
     bind_proc (put_entry_at L st d e spec) (\<lambda>r.
       return_proc (case r of Inr _ \<Rightarrow> success | Inl err \<Rightarrow> store_error_result err refs d))"

definition handle_add ::
  "('w, 'h) libs \<Rightarrow> 'h store \<Rightarrow> 'v ossl option \<Rightarrow> add_request \<Rightarrow> index_spec \<Rightarrow> referrals \<Rightarrow>
   ('w \<times> 'v, ldap_result) proc" where
  "handle_add L st fips req spec refs =
     (case dn_parse (aq_entry req) of
        Inl _ \<Rightarrow> return_proc invalid_dn
      | Inr d \<Rightarrow>
          (case proactive_referral refs d of
             Some result \<Rightarrow> return_proc result
           | None \<Rightarrow>
               bind_proc (in_crypto (entry_from_attributes fips (aq_attributes req))) (\<lambda>r.
                 case r of
                   Inl err \<Rightarrow> return_proc (password_error_result err)
                 | Inr e \<Rightarrow>
                     (case validate e of
                        Inl msg \<Rightarrow> return_proc (schema_violation msg)
                      | Inr _ \<Rightarrow>
                          bind_proc (stamp_security_principal (lib_etcd L) (lib_base64 L) st (rf_topology refs) d e) (\<lambda>r.
                            case r of
                              Inl err \<Rightarrow> return_proc (store_error_result err refs d)
                            | Inr e' \<Rightarrow> put_result L st d e' spec refs)))))"

definition handle_delete ::
  "('w, 'h) libs \<Rightarrow> 'h store \<Rightarrow> string \<Rightarrow> index_spec \<Rightarrow> referrals \<Rightarrow> ('w \<times> 'v, ldap_result) proc" where
  "handle_delete L st req spec refs =
     (case dn_parse req of
        Inl _ \<Rightarrow> return_proc invalid_dn
      | Inr d \<Rightarrow>
          (case proactive_referral refs d of
             Some result \<Rightarrow> return_proc result
           | None \<Rightarrow>
               bind_proc (delete_entry_at L st d spec) (\<lambda>r.
                 return_proc (case r of Inr _ \<Rightarrow> success | Inl err \<Rightarrow> store_error_result err refs d))))"

section \<open>Password modify\<close>

record password_modify_error =
  pme_code :: result_code
  pme_message :: diagnostic

definition pm_error :: "result_code \<Rightarrow> diagnostic \<Rightarrow> password_modify_error" where
  "pm_error code message = \<lparr>pme_code = code, pme_message = message\<rparr>"

definition resolve_password_target :: "string \<Rightarrow> password_modify_error + dn" where
  "resolve_password_target identity =
     (let dn_str = (if starts_with identity ''dn:'' then drop 3 identity else identity) in
      map_sum (\<lambda>_. pm_error InvalidDnSyntax (Text ''userIdentity is not a valid DN'')) id (dn_parse dn_str))"

definition principal_fqn_for :: "entry \<Rightarrow> string \<Rightarrow> string option" where
  "principal_fqn_for e rlm =
     (case principal_name_of e of
        Inr existing \<Rightarrow> Some existing
      | Inl _ \<Rightarrow>
          map_option (\<lambda>name. name @ ''@'' @ rlm)
            (case first_value e ''samaccountname'' of Some n \<Rightarrow> Some n | None \<Rightarrow> first_value e ''cn''))"

text \<open>What the request asks for: the target and the new password.\<close>

definition password_request ::
  "passwd_modify decoder \<Rightarrow> bytes option \<Rightarrow> string option \<Rightarrow> password_modify_error + dn \<times> bytes" where
  "password_request dec request_value bound_identity =
     (case request_value of
        None \<Rightarrow> Inl (pm_error ProtocolError (Text ''missing request value''))
      | Some bs \<Rightarrow>
          bind_res (map_sum (\<lambda>e. pm_error ProtocolError (Ber_text ''malformed PasswdModifyRequestValue: '' e)) id (dec bs)) (\<lambda>req.
          case pm_new_passwd req of
            None \<Rightarrow>
              Inl (pm_error UnwillingToPerform
                (Text ''server-generated passwords are not supported -- newPasswd is required''))
          | Some new_passwd \<Rightarrow>
              bind_res
                (case map_option from_utf8_lossy (pm_user_identity req) of
                   Some i \<Rightarrow> Inr i
                 | None \<Rightarrow>
                     (case bound_identity of
                        Some i \<Rightarrow> Inr i
                      | None \<Rightarrow>
                          Inl (pm_error ProtocolError
                            (Text ''no userIdentity and no bound identity to fall back to'')))) (\<lambda>identity.
              map_sum id (\<lambda>d. (d, new_passwd)) (resolve_password_target identity))))"

text \<open>Set the keys on the entry that was read, and store it.\<close>

definition store_new_password ::
  "('w, 'h) libs \<Rightarrow> 'h store \<Rightarrow> 'v ossl \<Rightarrow> index_spec \<Rightarrow> dn \<Rightarrow> bytes \<Rightarrow> string \<Rightarrow> entry \<Rightarrow>
   ('w \<times> 'v, password_modify_error + bytes option) proc" where
  "store_new_password L st S spec d new_passwd rlm e =
     (case principal_fqn_for e rlm of
        None \<Rightarrow>
          return_proc (Inl (pm_error UnwillingToPerform
            (Text ''entry has no sAMAccountName/cn to derive a principal name from'')))
      | Some fqn \<Rightarrow>
          bind_proc (in_crypto (set_password S e fqn new_passwd)) (\<lambda>r.
            case r of
              Inl err \<Rightarrow> return_proc (Inl (pm_error OperationsError (Principal_text err)))
            | Inr e' \<Rightarrow>
                bind_proc (put_entry_at L st d e' spec) (\<lambda>r.
                  return_proc
                    (case r of
                       Inl err \<Rightarrow> Inl (pm_error OperationsError (Store_text [] err))
                     | Inr _ \<Rightarrow> Inr None))))"

definition handle_password_modify ::
  "('w, 'h) libs \<Rightarrow> 'h store \<Rightarrow> 'v ossl option \<Rightarrow> bytes option \<Rightarrow> string option \<Rightarrow> index_spec \<Rightarrow>
   ('w \<times> 'v, password_modify_error + bytes option) proc" where
  "handle_password_modify L st fips request_value bound_identity spec =
     (case fips of
        None \<Rightarrow>
          return_proc (Inl (pm_error UnwillingToPerform
            (Text ''FIPS provider not active -- cannot set a Kerberos key'')))
      | Some S \<Rightarrow>
          (case password_request (lib_passwd L) request_value bound_identity of
             Inl err \<Rightarrow> return_proc (Inl err)
           | Inr (d, new_passwd) \<Rightarrow>
               (case List.map_filter realm (registry_iter (st_registry st)) of
                  [] \<Rightarrow> return_proc (Inl (pm_error Other_code (Text ''no realm configured for this partition'')))
                | rlm # _ \<Rightarrow>
                    bind_proc (get_entry_at L st d) (\<lambda>r.
                      case r of
                        Inl err \<Rightarrow> return_proc (Inl (pm_error OperationsError (Store_text [] err)))
                      | Inr None \<Rightarrow> return_proc (Inl (pm_error NoSuchObject (Text [])))
                      | Inr (Some e) \<Rightarrow> store_new_password L st S spec d new_passwd rlm e))))"

section \<open>Modify and compare\<close>

definition apply_change ::
  "'v ossl option \<Rightarrow> modify_change \<Rightarrow> entry \<Rightarrow> ('v, crypto_error, entry) call" where
  "apply_change fips c e =
     (let a = pa_type (mc_modification c);
          values = map from_utf8_lossy (pa_vals (mc_modification c));
          is_password = eq_ignore_ascii_case a USER_PASSWORD_ATTR in
      case mc_operation c of
        Op_add \<Rightarrow>
          if is_password
          then and_then (hash_password_values fips values) (\<lambda>hs. ok_call (entry_add_values e a hs))
          else ok_call (entry_add_values e a values)
      | Op_delete \<Rightarrow> ok_call (entry_delete_values e a values)
      | Op_replace \<Rightarrow>
          if values = [] then ok_call (entry_delete_values e a [])
          else if is_password
          then and_then (hash_password_values fips values) (\<lambda>hs. ok_call (entry_set e a hs))
          else ok_call (entry_set e a values))"

fun apply_changes :: "'v ossl option \<Rightarrow> modify_change list \<Rightarrow> entry \<Rightarrow> ('v, crypto_error, entry) call" where
  "apply_changes fips [] e = ok_call e"
| "apply_changes fips (c # cs) e = and_then (apply_change fips c e) (apply_changes fips cs)"

definition handle_modify ::
  "('w, 'h) libs \<Rightarrow> 'h store \<Rightarrow> 'v ossl option \<Rightarrow> modify_request \<Rightarrow> index_spec \<Rightarrow> referrals \<Rightarrow>
   ('w \<times> 'v, ldap_result) proc" where
  "handle_modify L st fips req spec refs =
     (case dn_parse (mq_object req) of
        Inl _ \<Rightarrow> return_proc invalid_dn
      | Inr d \<Rightarrow>
          (case proactive_referral refs d of
             Some result \<Rightarrow> return_proc result
           | None \<Rightarrow>
               bind_proc (get_entry_at L st d) (\<lambda>r.
                 case r of
                   Inl err \<Rightarrow> return_proc (store_error_result err refs d)
                 | Inr None \<Rightarrow> return_proc no_such_object
                 | Inr (Some e) \<Rightarrow>
                     bind_proc (in_crypto (apply_changes fips (mq_changes req) e)) (\<lambda>r.
                       case r of
                         Inl err \<Rightarrow> return_proc (password_error_result err)
                       | Inr e' \<Rightarrow>
                           (case validate e' of
                              Inl msg \<Rightarrow> return_proc (schema_violation msg)
                            | Inr _ \<Rightarrow> put_result L st d e' spec refs)))))"

definition handle_compare ::
  "('w, 'h) libs \<Rightarrow> 'h store \<Rightarrow> compare_request \<Rightarrow> referrals \<Rightarrow> ('w \<times> 'v, ldap_result) proc" where
  "handle_compare L st req refs =
     (case dn_parse (cq_entry req) of
        Inl _ \<Rightarrow> return_proc invalid_dn
      | Inr d \<Rightarrow>
          (case proactive_referral refs d of
             Some result \<Rightarrow> return_proc result
           | None \<Rightarrow>
               bind_proc (get_entry_at L st d) (\<lambda>r.
                 return_proc
                   (case r of
                      Inl err \<Rightarrow> store_error_result err refs d
                    | Inr None \<Rightarrow> no_such_object
                    | Inr (Some e) \<Rightarrow>
                        (let want = from_utf8_lossy (assertion_value (cq_ava req));
                             matched =
                               (case entry_get e (attribute_desc (cq_ava req)) of
                                  None \<Rightarrow> False
                                | Some vals \<Rightarrow> list_ex (\<lambda>v. eq_ignore_ascii_case v want) vals) in
                         ldap_result_new (if matched then CompareTrue else CompareFalse) [] (Text []))))))"

section \<open>Modify DN\<close>

text \<open>The new name of the entry, or the error it is refused with.\<close>

definition new_name :: "moddn_request \<Rightarrow> dn \<Rightarrow> ldap_result + rdn \<times> dn" where
  "new_name req old_dn =
     bind_res
       (case dn_parse (dq_new_rdn req) of
          Inr d \<Rightarrow>
            if depth d = 1 then Inr d
            else Inl (ldap_result_new InvalidDnSyntax [] (Text ''newrdn must be exactly one RDN''))
        | Inl _ \<Rightarrow> Inl (ldap_result_new InvalidDnSyntax [] (Text ''newrdn must be exactly one RDN''))) (\<lambda>new_rdn_dn.
     bind_res
       (case dq_new_superior req of
          Some s \<Rightarrow> map_sum (\<lambda>_. invalid_dn) id (dn_parse s)
        | None \<Rightarrow> Inr (case parent old_dn of Some p \<Rightarrow> p | None \<Rightarrow> root)) (\<lambda>new_parent.
     let new_dn_str =
       (if is_empty new_parent then dq_new_rdn req else dq_new_rdn req @ '','' @ dn_string new_parent) in
     map_sum (\<lambda>_. invalid_dn) (\<lambda>new_dn. (rdns new_rdn_dn ! 0, new_dn)) (dn_parse new_dn_str)))"

definition rename_values :: "bool \<Rightarrow> rdn \<Rightarrow> rdn \<Rightarrow> entry \<Rightarrow> entry" where
  "rename_values delete_old old_rdn new_rdn e =
     (let e1 = fold (\<lambda>a e. entry_add_values e (attr a) [val a]) (avas new_rdn) e in
      if delete_old then
        fold (\<lambda>a e.
            if list_ex (\<lambda>b. attr b = attr a \<and> eq_ignore_ascii_case (val b) (val a)) (avas new_rdn) then e
            else entry_delete_values e (attr a) [val a])
          (avas old_rdn) e1
      else e1)"

definition move_entry ::
  "('w, 'h) libs \<Rightarrow> 'h store \<Rightarrow> dn \<Rightarrow> dn \<Rightarrow> entry \<Rightarrow> index_spec \<Rightarrow> referrals \<Rightarrow> ('w \<times> 'v, ldap_result) proc" where
  "move_entry L st old_dn new_dn e spec refs =
     bind_proc (put_entry_at L st new_dn e spec) (\<lambda>r.
       case r of
         Inl err \<Rightarrow> return_proc (store_error_result err refs new_dn)
       | Inr _ \<Rightarrow>
           if dn_eq old_dn new_dn then return_proc success
           else
             bind_proc (delete_entry_at L st old_dn spec) (\<lambda>r.
               return_proc
                 (case r of
                    Inl err \<Rightarrow>
                      operations_error
                        (Store_text ''entry moved to the new DN but the old DN could not be removed: '' err)
                  | Inr _ \<Rightarrow> success)))"

definition handle_moddn ::
  "('w, 'h) libs \<Rightarrow> 'h store \<Rightarrow> moddn_request \<Rightarrow> index_spec \<Rightarrow> referrals \<Rightarrow> ('w \<times> 'v, ldap_result) proc" where
  "handle_moddn L st req spec refs =
     (case dn_parse (dq_entry req) of
        Inl _ \<Rightarrow> return_proc invalid_dn
      | Inr old_dn \<Rightarrow>
          if is_empty old_dn then return_proc invalid_dn
          else
            (case proactive_referral refs old_dn of
               Some result \<Rightarrow> return_proc result
             | None \<Rightarrow>
                 (case new_name req old_dn of
                    Inl result \<Rightarrow> return_proc result
                  | Inr (new_rdn, new_dn) \<Rightarrow>
                      bind_proc (scan_subtree_at L st old_dn) (\<lambda>r.
                        case r of
                          Inl err \<Rightarrow> return_proc (store_error_result err refs old_dn)
                        | Inr rows \<Rightarrow>
                            if 1 < length rows then
                              return_proc (ldap_result_new NotAllowedOnNonLeaf []
                                (Text ''moving a non-leaf entry (subtree rename) is not supported yet''))
                            else
                              bind_proc (get_entry_at L st old_dn) (\<lambda>r.
                                case r of
                                  Inl err \<Rightarrow> return_proc (store_error_result err refs old_dn)
                                | Inr None \<Rightarrow> return_proc no_such_object
                                | Inr (Some e) \<Rightarrow>
                                    move_entry L st old_dn new_dn
                                      (rename_values (dq_delete_old_rdn req) (rdns old_dn ! 0) new_rdn e) spec refs)))))"

section \<open>Search\<close>

definition done_op :: "result_code \<Rightarrow> string \<Rightarrow> protocol_op list" where
  "done_op code diag = [SearchResDone (ldap_result_new code [] (Text diag))]"

definition done_store_error :: "store_error \<Rightarrow> referrals \<Rightarrow> dn \<Rightarrow> protocol_op list" where
  "done_store_error e refs d = [SearchResDone (store_error_result e refs d)]"

definition done_result :: "ldap_result \<Rightarrow> protocol_op list" where
  "done_result result = [SearchResDone result]"

definition explicitly_requested :: "string list \<Rightarrow> string \<Rightarrow> bool" where
  "explicitly_requested requested name \<longleftrightarrow> list_ex (\<lambda>a. eq_ignore_ascii_case a name) requested"

definition attribute_selected :: "string list \<Rightarrow> string \<Rightarrow> bool" where
  "attribute_selected requested name \<longleftrightarrow>
     (if eq_ignore_ascii_case name USER_PASSWORD_ATTR then explicitly_requested requested name
      else requested = [] \<or> list_ex (\<lambda>a. a = ''*'') requested \<or> explicitly_requested requested name)"

definition attribute_bytes :: "base64 \<Rightarrow> entry \<Rightarrow> bool \<Rightarrow> string \<Rightarrow> bytes list" where
  "attribute_bytes B e types_only name =
     (if types_only then []
      else
        (case entry_get e name of
           None \<Rightarrow> []
         | Some vs \<Rightarrow> if is_binary_attr name then map (decode_binary_attr B) vs else map as_bytes vs))"

definition project_attributes :: "base64 \<Rightarrow> entry \<Rightarrow> string list \<Rightarrow> bool \<Rightarrow> partial_attribute list" where
  "project_attributes B e requested types_only =
     map (\<lambda>name. \<lparr>pa_type = name, pa_vals = attribute_bytes B e types_only name\<rparr>)
       (filter (attribute_selected requested) (attr_names e))"

text \<open>The entries a scope names, before the filter.\<close>

definition search_candidates ::
  "('w, 'h) libs \<Rightarrow> 'h store \<Rightarrow> search_scope \<Rightarrow> dn \<Rightarrow> referrals \<Rightarrow>
   ('w \<times> 'v, protocol_op list + (dn \<times> entry) list) proc" where
  "search_candidates L st scope base refs =
     (case scope of
        BaseObject \<Rightarrow>
          bind_proc (get_entry_at L st base) (\<lambda>r.
            return_proc
              (case r of
                 Inl err \<Rightarrow> Inl (done_store_error err refs base)
               | Inr None \<Rightarrow> Inl (done_op NoSuchObject [])
               | Inr (Some e) \<Rightarrow> Inr [(base, e)]))
      | Scope_unrecognized \<Rightarrow> return_proc (Inl (done_op ProtocolError ''unrecognized search scope''))
      | _ \<Rightarrow>
          bind_proc (scan_subtree_at L st base) (\<lambda>r.
            return_proc
              (case r of
                 Inl err \<Rightarrow> Inl (done_store_error err refs base)
               | Inr rows \<Rightarrow>
                   Inr (if scope = SingleLevel then filter (\<lambda>(d, _). depth d = depth base + 1) rows else rows))))"

definition result_entry :: "base64 \<Rightarrow> search_request \<Rightarrow> dn \<Rightarrow> entry \<Rightarrow> protocol_op" where
  "result_entry B req d e =
     SearchResEntry
       \<lparr>sre_name = dn_string d, sre_attributes = project_attributes B e (sq_attributes req) (sq_types_only req)\<rparr>"

fun search_loop ::
  "(entry \<Rightarrow> bool) \<Rightarrow> (dn \<Rightarrow> entry \<Rightarrow> protocol_op) \<Rightarrow> nat \<Rightarrow> nat \<Rightarrow> protocol_op list \<Rightarrow> (dn \<times> entry) list \<Rightarrow>
   protocol_op list" where
  "search_loop m f limit sent ops [] = ops @ done_op Success []"
| "search_loop m f limit sent ops ((d, e) # rest) =
     (if \<not> m e then search_loop m f limit sent ops rest
      else if sent = limit then ops @ done_op SizeLimitExceeded []
      else search_loop m f limit (sent + 1) (ops @ [f d e]) rest)"

definition search_limit :: "u32 \<Rightarrow> nat" where
  "search_limit size_limit = (if size_limit = 0 then 2 ^ 64 - 1 else unat size_limit)"

definition handle_search ::
  "('w, 'h) libs \<Rightarrow> 'h store \<Rightarrow> search_request \<Rightarrow> referrals \<Rightarrow> bool \<Rightarrow> ('w \<times> 'v, protocol_op list) proc" where
  "handle_search L st req refs fips_active =
     (case dn_parse (sq_base req) of
        Inl _ \<Rightarrow> return_proc (done_op InvalidDnSyntax ''invalid base DN'')
      | Inr base \<Rightarrow>
          if is_empty base \<and> sq_scope req = BaseObject then
            (let reg = (case rf_topology refs of Some t \<Rightarrow> t | None \<Rightarrow> st_registry st) in
             return_proc (SearchResEntry (build_rootdse reg fips_active) # done_op Success []))
          else
            (case proactive_referral refs base of
               Some result \<Rightarrow> return_proc (done_result result)
             | None \<Rightarrow>
                 bind_proc (search_candidates L st (sq_scope req) base refs) (\<lambda>r.
                   return_proc
                     (case r of
                        Inl ops \<Rightarrow> ops
                      | Inr candidates \<Rightarrow>
                          search_loop (\<lambda>e. matches (lib_unicode L) e (sq_filter req)) (result_entry (lib_base64 L) req)
                            (search_limit (sq_size_limit req)) 0 [] candidates))))"

section \<open>Search results\<close>

definition wanted :: "(entry \<Rightarrow> bool) \<Rightarrow> (dn \<times> entry) list \<Rightarrow> (dn \<times> entry) list" where
  "wanted m rows = filter (\<lambda>(d, e). m e) rows"

lemma search_loop_eq:
  "sent \<le> limit \<Longrightarrow>
   search_loop m f limit sent ops rows =
     ops @ map (\<lambda>(d, e). f d e) (take (limit - sent) (wanted m rows)) @
     done_op (if length (wanted m rows) \<le> limit - sent then Success else SizeLimitExceeded) []"
proof (induction m f limit sent ops rows rule: search_loop.induct)
  case (2 m f limit sent ops d e rest)
  show ?case
  proof (cases "sent = limit")
    case True
    then show ?thesis using 2 by (simp add: wanted_def)
  next
    case False
    then have "limit - sent = Suc (limit - (sent + 1))" using "2.prems" by simp
    then show ?thesis using 2 False by (simp add: wanted_def)
  qed
qed (simp add: wanted_def)

lemma search_loop_result:
  "search_loop m f limit 0 [] rows =
     map (\<lambda>(d, e). f d e) (take limit (wanted m rows)) @
     done_op (if length (wanted m rows) \<le> limit then Success else SizeLimitExceeded) []"
  using search_loop_eq [of 0 limit m f "[]" rows] by simp

lemma projected_types: "pa_type ` set (project_attributes B e req t) \<subseteq> set (attr_names e)"
  by (auto simp: project_attributes_def)

section \<open>Hashed passwords\<close>

text \<open>A stored value some password was hashed to.\<close>

definition hashed :: "'v ossl option \<Rightarrow> string \<Rightarrow> bool" where
  "hashed fips s \<longleftrightarrow> (\<exists>S v v' pw. fips = Some S \<and> hash_password S pw v = (Inr s, v'))"

definition password_values :: "entry \<Rightarrow> string set" where
  "password_values e = set (case entry_get e USER_PASSWORD_ATTR of None \<Rightarrow> [] | Some vs \<Rightarrow> vs)"

lemma hash_all_hashed:
  "hash_all S vs v = (Inr hs, v') \<Longrightarrow> \<forall>h \<in> set hs. hashed (Some S) h"
proof (induction vs arbitrary: hs v)
  case (Cons x vs)
  from Cons.prems obtain h hs' v1 where "hash_password S (as_bytes x) v = (Inr h, v1)"
    "hash_all S vs v1 = (Inr hs', v')" "hs = h # hs'"
    by (auto simp: and_then_eq_Inr)
  then show ?case using Cons.IH by (auto simp: hashed_def)
qed simp

lemma hash_password_values_hashed:
  "hash_password_values fips vs v = (Inr hs, v') \<Longrightarrow> \<forall>h \<in> set hs. hashed fips h"
  by (cases fips) (auto simp: hash_password_values_def dest: hash_all_hashed)

lemma password_values_set:
  "password_values (entry_set e a vs) = (if eq_ignore_ascii_case a USER_PASSWORD_ATTR then set vs else password_values e)"
  by (auto simp: password_values_def entry_get_set eq_ignore_ascii_case_def)

lemma password_values_add:
  "password_values (entry_add_values e a vs) =
   (if eq_ignore_ascii_case a USER_PASSWORD_ATTR then password_values e \<union> set vs else password_values e)"
proof -
  have "eq_ignore_ascii_case a USER_PASSWORD_ATTR \<Longrightarrow> entry_get e a = entry_get e USER_PASSWORD_ATTR"
    by (simp add: entry_get_def eq_ignore_ascii_case_def)
  then show ?thesis
    by (auto simp: password_values_def entry_get_add_values eq_ignore_ascii_case_def)
qed

lemma password_values_delete:
  "entry_ok e \<Longrightarrow> password_values (entry_delete_values e a vs) \<subseteq> password_values e"
proof -
  assume "entry_ok e"
  moreover have "eq_ignore_ascii_case USER_PASSWORD_ATTR a \<Longrightarrow> entry_get e a = entry_get e USER_PASSWORD_ATTR"
    by (simp add: entry_get_def eq_ignore_ascii_case_def)
  ultimately show ?thesis
    by (auto simp: password_values_def entry_get_delete_values split: option.splits if_splits)
qed

lemma entry_from_attributes_loop_ok:
  "entry_from_attributes_loop fips e as v = (Inr e', v') \<Longrightarrow> entry_ok e \<Longrightarrow> (\<forall>h \<in> password_values e. hashed fips h) \<Longrightarrow>
   entry_ok e' \<and> (\<forall>h \<in> password_values e'. hashed fips h)"
proof (induction fips e as arbitrary: v rule: entry_from_attributes_loop.induct)
  case (2 fips e a as)
  show ?case
  proof (cases "eq_ignore_ascii_case (pa_type a) USER_PASSWORD_ATTR")
    case True
    then obtain hs v1 where "hash_password_values fips (map from_utf8_lossy (pa_vals a)) v = (Inr hs, v1)"
      "entry_from_attributes_loop fips (entry_set e (pa_type a) hs) as v1 = (Inr e', v')"
      using "2.prems"(1) by (auto simp: and_then_eq_Inr Let_def)
    with True "2.IH"(1) [OF refl True, of hs v1] "2.prems"(2) show ?thesis
      by (simp add: entry_ok_ops password_values_set hash_password_values_hashed)
  next
    case False
    with "2.prems" "2.IH"(2) [OF refl False] show ?thesis
      by (simp add: entry_ok_ops password_values_set Let_def)
  qed
qed simp

lemma entry_from_attributes_ok:
  assumes "entry_from_attributes fips as v = (Inr e, v')"
  shows "entry_ok e" "\<forall>h \<in> password_values e. hashed fips h"
proof -
  have "password_values entry_new = {}"
    by (simp add: password_values_def entry_get_def entry_new_def)
  then show "entry_ok e" "\<forall>h \<in> password_values e. hashed fips h"
    using entry_from_attributes_loop_ok [OF assms [unfolded entry_from_attributes_def]] by simp_all
qed

lemma apply_change_ok:
  assumes "apply_change fips c e v = (Inr e', v')" "entry_ok e"
  shows "entry_ok e'" "h \<in> password_values e' \<Longrightarrow> h \<in> password_values e \<or> hashed fips h"
  using assms password_values_delete [OF assms(2)]
  by (auto simp: apply_change_def Let_def and_then_eq_Inr entry_ok_ops password_values_set password_values_add
      dest!: hash_password_values_hashed split: change_operation.splits if_splits)

lemma apply_changes_ok:
  "apply_changes fips cs e v = (Inr e', v') \<Longrightarrow> entry_ok e \<Longrightarrow>
   entry_ok e' \<and> (\<forall>h \<in> password_values e'. h \<in> password_values e \<or> hashed fips h)"
proof (induction cs arbitrary: e v)
  case (Cons c cs)
  then obtain e1 v1 where "apply_change fips c e v = (Inr e1, v1)" "apply_changes fips cs e1 v1 = (Inr e', v')"
    by (auto simp: and_then_eq_Inr)
  with Cons.IH [of e1 v1] apply_change_ok [of fips c e v e1 v1] Cons.prems(2) show ?case by blast
qed simp

end
