(* ===== verification/Session_Laws.thy ===== *)
theory Session_Laws
  imports Session Instances
begin

text \<open>
  What the session handlers do to the directory: the abstract directory of the store refinement
  before and after each handler, the entries a search returns, and what a successful bind shows.
\<close>

section \<open>Handlers answer\<close>

lemma ends_store_calls [ends_intros]:
  "ends (get_entry_at L st d)" "ends (put_entry_at L st d e spec)" "ends (delete_entry_at L st d spec)"
  "ends (scan_subtree_at L st d)" "ends (lookup_at L st d a v)"
  by (simp_all add: get_entry_at_def put_entry_at_def delete_entry_at_def scan_subtree_at_def lookup_at_def
      ends_in_store)

lemma ends_list_case [ends_intros]:
  "ends m \<Longrightarrow> (\<And>x xs. ends (f x xs)) \<Longrightarrow> ends (case ys of [] \<Rightarrow> m | x # xs \<Rightarrow> f x xs)"
  by (cases ys) auto

lemma ends_authenticate [ends_intros]: "ends (authenticate_simple L st fips name pw)"
  unfolding authenticate_simple_def by (intro ends_intros)

lemma ends_lookup_service_keys [ends_intros]: "ends (lookup_service_keys L st d n r)"
  unfolding lookup_service_keys_def by (intro ends_intros)

lemma ends_send_challenge [ends_intros]: "ends (send_challenge S k e c)"
  unfolding send_challenge_def by (intro ends_intros)

lemma ends_accept_token [ends_intros]: "ends (accept_token L st S clock creds)"
  unfolding accept_token_def by (intro ends_intros)

lemma ends_sasl_case [ends_intros]:
  "ends m \<Longrightarrow> (\<And>k e c. ends (f k e c)) \<Longrightarrow> (\<And>k e c. ends (g k e c)) \<Longrightarrow> (\<And>k e b n. ends (h k e b n)) \<Longrightarrow>
   ends (case s of Sasl_None \<Rightarrow> m | AwaitingApRepAck k e c \<Rightarrow> f k e c | AwaitingSecurityLayerAck k e c \<Rightarrow> g k e c
     | SecurityLayerActive k e b n \<Rightarrow> h k e b n)"
  by (cases s) auto

lemma ends_handle_sasl_bind [ends_intros]: "ends (handle_sasl_bind L st fips clock m c s)"
  unfolding handle_sasl_bind_def by (intro ends_intros)

lemma ends_handle_bind [ends_intros]: "ends (handle_bind L st fips clock req s)"
  unfolding handle_bind_def by (cases "bq_auth req") (auto intro!: ends_intros)

lemma ends_put_result [ends_intros]: "ends (put_result L st d e spec refs)"
  unfolding put_result_def by (intro ends_intros)

lemma ends_handle_add:
  "etcd_ok (lib_etcd L) cont \<Longrightarrow> ends (handle_add L st fips req spec refs)"
  unfolding handle_add_def by (intro ends_intros) auto

lemma ends_handle_delete [ends_intros]: "ends (handle_delete L st req spec refs)"
  unfolding handle_delete_def by (intro ends_intros)

lemma ends_store_new_password [ends_intros]: "ends (store_new_password L st S spec d pw r e)"
  unfolding store_new_password_def by (intro ends_intros)

lemma ends_handle_password_modify [ends_intros]: "ends (handle_password_modify L st fips v i spec)"
  unfolding handle_password_modify_def by (auto intro!: ends_intros split: prod.split)

lemma ends_handle_modify [ends_intros]: "ends (handle_modify L st fips req spec refs)"
  unfolding handle_modify_def by (intro ends_intros)

lemma ends_handle_compare [ends_intros]: "ends (handle_compare L st req refs)"
  unfolding handle_compare_def by (intro ends_intros)

lemma ends_move_entry [ends_intros]: "ends (move_entry L st d d' e spec refs)"
  unfolding move_entry_def by (intro ends_intros)

lemma ends_handle_moddn [ends_intros]: "ends (handle_moddn L st req spec refs)"
  unfolding handle_moddn_def by (auto intro!: ends_intros split: prod.split)

lemma ends_search_candidates [ends_intros]: "ends (search_candidates L st scope d refs)"
  unfolding search_candidates_def by (cases scope) (auto intro!: ends_intros)

lemma ends_handle_search [ends_intros]: "ends (handle_search L st req refs fips)"
  unfolding handle_search_def Let_def by (intro ends_intros)

section \<open>The directory behind a session\<close>

text \<open>The identifier pool is outside the rows of the directory.\<close>

lemma represents_pool:
  "represents J pid spec (apply_ops (rid_ops pid c) m) S = represents J pid spec m S"
proof -
  have "\<not> prefix (tree_root pid) (pool_key pid)" "\<not> prefix (idx_root pid) (pool_key pid)"
    by (auto simp: tree_root_def idx_root_def pool_key_def)
  then have "apply_ops (rid_ops pid c) m k = m k" if "prefix (tree_root pid) k \<or> prefix (idx_root pid) k" for k
    using that by (auto simp: rid_ops_def apply_ops_def)
  then show ?thesis unfolding represents_def by simp
qed

lemma store_allocate_rid_keeps:
  assumes "etcd_ok E cont" "store_represents J spec st (cont w) S" "store_allocate_rid E st d w = Some (r, w')"
  shows "store_represents J spec st (cont w') S"
proof (cases "resolve (st_registry st) d")
  case None
  then show ?thesis using assms(2,3) by (simp add: store_allocate_rid_def store_resolve_def)
next
  case (Some p)
  obtain h where h: "client_mut st (part_id p) = Inr h"
    "represents J (part_id p) spec (cont w h) (part_dir (st_registry st) p S)"
    using store_representsD [OF assms(2) Some] by metis
  obtain x w1 where a: "rid_attempt E h (part_id p) w = (x, w1)" by fastforce
  note ok = rid_attempt_ok [OF assms(1) a]
  have "allocate_rid E h (part_id p) w = Some (r, w')"
    using assms(3) Some h(1) by (simp add: store_allocate_rid_def store_resolve_def)
  then have w1: "w' = w1" using a ok by (subst (asm) allocate_rid.simps) (auto split: sum.splits option.splits)
  have "prefix (partition_root (part_id p)) (pool_key (part_id p))"
    by (simp add: partition_root_def pool_key_def prefix_def)
  then have f: "\<forall>m k. \<not> prefix (partition_root (part_id p)) k \<longrightarrow> apply_ops (rid_ops (part_id p) c) m k = m k" for c
    by (auto simp: rid_ops_def apply_ops_def)
  consider "cont w' = cont w" | c where "changed cont h (apply_ops (rid_ops (part_id p) c)) w w'"
    using ok w1 by (auto split: sum.splits option.splits)
  then show ?thesis
  proof cases
    case 1
    then show ?thesis using assms(2) by simp
  next
    case (2 c)
    then have t: "touches_only cont (part_id p) h w w'" using f [of c] unfolding touches_only_def by blast
    have "represents J (part_id p) spec (cont w' h) (part_dir (st_registry st) p S)"
      using 2 h(2) represents_pool by (simp add: changed_def)
    then show ?thesis using store_represents_step_same [OF assms(2) Some h(1) t] by blast
  qed
qed

lemma stamp_keeps:
  assumes "etcd_ok E cont" "store_represents J spec st (cont (fst w)) S"
    "stamp_security_principal E B st topology d e w = Some (r, w')"
  shows "store_represents J spec st (cont (fst w')) S" "\<exists>x. r = Returned x"
proof -
  have "(w' = w \<or> (\<exists>x. store_allocate_rid E st d (fst w) = Some (x, fst w'))) \<and> (\<exists>x. r = Returned x)"
    using assms(3)
    by (auto simp: stamp_security_principal_def Let_def bind_proc_def in_store_loop_def return_proc_def
        split: if_splits option.splits sum.splits prod.splits)
  then show "store_represents J spec st (cont (fst w')) S" "\<exists>x. r = Returned x"
    using store_allocate_rid_keeps [OF assms(1,2)] assms(2) by auto
qed

text \<open>
  What the handlers rely on: the libraries keep their promises and the store holds the directory
  \<open>S\<close>; a name is one this server owns, that survives the way through the keys and is stored in no
  other spelling.
\<close>

definition serves ::
  "('w, 'h) libs \<Rightarrow> ('w \<Rightarrow> 'h \<Rightarrow> kvs) \<Rightarrow> index_spec \<Rightarrow> 'h store \<Rightarrow> 'w \<Rightarrow> directory \<Rightarrow> bool" where
  "serves L cont spec st w S \<longleftrightarrow>
     etcd_ok (lib_etcd L) cont \<and> json_ok (lib_json L) \<and> store_represents (lib_json L) spec st (cont w) S"

definition own_name :: "'h store \<Rightarrow> referrals \<Rightarrow> directory \<Rightarrow> dn \<Rightarrow> partition \<Rightarrow> bool" where
  "own_name st refs S d p \<longleftrightarrow>
     resolve (st_registry st) d = Some p \<and> tree_clean d \<and> dn_utf8 (part_id p) d \<and> same_spelling S d \<and>
     proactive_referral refs d = None"

lemma servesD:
  assumes "serves L cont spec st w S"
  shows "etcd_ok (lib_etcd L) cont" "json_ok (lib_json L)" "store_represents (lib_json L) spec st (cont w) S"
  using assms by (simp_all add: serves_def)

lemma own_nameD:
  assumes "own_name st refs S d p"
  shows "resolve (st_registry st) d = Some p" "tree_clean d" "dn_utf8 (part_id p) d" "same_spelling S d"
    "proactive_referral refs d = None"
  using assms by (simp_all add: own_name_def)

lemma get_entry_at_ok:
  assumes "serves L cont spec st (fst w) S" "own_name st refs S d p"
  obtains (found) x w' where "get_entry_at L st d w = Some (Returned (Inr (Some x)), w')" "S d = Some x"
      "serves L cont spec st (fst w') S" "snd w' = snd w"
    | (absent) w' where "get_entry_at L st d w = Some (Returned (Inr None), w')" "S d = None"
      "serves L cont spec st (fst w') S" "snd w' = snd w"
    | (failed) e w' where "get_entry_at L st d w = Some (Returned (Inl (Etcd_err e)), w')"
      "serves L cont spec st (fst w') S" "snd w' = snd w"
proof -
  note sv = servesD [OF assms(1)] and nm = own_nameD [OF assms(2)]
  obtain r u where g: "store_get_entry (lib_etcd L) (lib_json L) st d (fst w) = (r, u)" by fastforce
  then have run: "get_entry_at L st d w = Some (Returned r, u, snd w)"
    by (cases w) (simp add: get_entry_at_def in_store_def)
  note ok = store_get_entry_ok [OF sv nm(2,1) g]
  have kept: "serves L cont spec st u S" using assms(1) ok(1) by (simp add: serves_def)
  have spell: "(\<exists>d'. S d' = Some x \<and> dn_eq d' d) \<longleftrightarrow> S d = Some x" for x
  proof
    show "\<exists>d'. S d' = Some x \<and> dn_eq d' d \<Longrightarrow> S d = Some x"
      using nm(4) unfolding same_spelling_def by (metis domI)
    have "dn_eq d d" by (simp add: dn_eq_norm)
    then show "S d = Some x \<Longrightarrow> \<exists>d'. S d' = Some x \<and> dn_eq d' d" by blast
  qed
  show thesis
  proof (cases r)
    case (Inl e)
    then show thesis using failed [of _ "(u, snd w)"] run kept ok(3) by auto
  next
    case (Inr y)
    then show thesis
      using found [of _ "(u, snd w)"] absent [of "(u, snd w)"] run kept ok(2) [OF Inr] spell
      by (cases y) (auto, metis option.exhaust option.distinct(1))
  qed
qed

lemma put_result_ok:
  assumes "serves L cont spec st (fst w) S" "own_name st refs S d p" "entry_ok x"
  obtains (stored) w' where "put_result L st d x spec refs w = Some (Returned success, w')"
      "serves L cont spec st (fst w') (S(d \<mapsto> x))" "snd w' = snd w"
    | (failed) e w' where "put_result L st d x spec refs w = Some (Returned (operations_error (Store_text [] (Etcd_err e))), w')"
      "serves L cont spec st (fst w') S \<or> serves L cont spec st (fst w') (S(d \<mapsto> x))" "snd w' = snd w"
proof -
  note sv = servesD [OF assms(1)] and nm = own_nameD [OF assms(2)]
  obtain r u where g: "store_put_entry (lib_etcd L) (lib_json L) st d x spec (fst w) = (r, u)" by fastforce
  have run: "put_result L st d x spec refs w =
      Some (Returned (case r of Inr _ \<Rightarrow> success | Inl err \<Rightarrow> store_error_result err refs d), u, snd w)"
    using g by (cases w) (simp add: put_result_def put_entry_at_def in_store_def bind_proc_def return_proc_def)
  show thesis
    using store_put_entry_ok [OF sv nm(1-4) assms(3) g] stored [of "(u, snd w)"] failed [of _ "(u, snd w)"] run sv(1,2)
    by (auto simp: serves_def store_error_result_def)
qed

section \<open>Adding an entry\<close>

lemma must_not_binary: "c \<in> set CLASSES \<Longrightarrow> m \<in> set (oc_must c) \<Longrightarrow> \<not> is_binary_attr m"
proof -
  have "list_all (\<lambda>c. list_all (\<lambda>m. \<not> is_binary_attr m) (oc_must c)) CLASSES" by code_simp
  then show "c \<in> set CLASSES \<Longrightarrow> m \<in> set (oc_must c) \<Longrightarrow> \<not> is_binary_attr m" by (auto simp: list_all_iff)
qed

lemma known_not_binary: "\<not> is_binary_attr ''objectclass''" "\<not> is_binary_attr USER_PASSWORD_ATTR"
  by code_simp+

lemma schema_complete_stamped: "schema_complete (stamped B s rid e) = schema_complete e"
  using must_not_binary by (simp add: schema_complete_def stamped_get(3) known_not_binary)

lemma password_values_stamped: "password_values (stamped B s rid e) = password_values e"
  by (simp add: password_values_def stamped_get(3) known_not_binary)

text \<open>An entry as the session stores it.\<close>

definition sound_entry :: "'v ossl option \<Rightarrow> entry \<Rightarrow> bool" where
  "sound_entry fips e \<longleftrightarrow> entry_ok e \<and> schema_complete e \<and> (\<forall>h \<in> password_values e. hashed fips h)"

lemma stamp_entry:
  assumes "stamp_security_principal E B st topology d e w = Some (Returned (Inr e'), w')"
  shows "e' = e \<or> (\<exists>s rid. e' = stamped B s rid e)" "snd w' = snd w"
  using assms
  by (auto simp: stamp_security_principal_def Let_def elim!: bind_procE split: if_splits option.splits sum.splits)

lemma refusals [simp]:
  "lr_code invalid_dn = InvalidDnSyntax" "lr_code success = Success" "lr_code no_such_object = NoSuchObject"
  "lr_code (schema_violation m) = ObjectClassViolation" "lr_code (operations_error x) = OperationsError"
  "lr_code (password_error_result c) \<noteq> Success" "lr_code (store_error_result err refs d) \<noteq> Success"
  by (auto simp: invalid_dn_def success_def no_such_object_def schema_violation_def operations_error_def
      password_error_result_def store_error_result_def referral_result_def unwilling_def ldap_result_new_def
      split: crypto_error.split option.split)

text \<open>
  Where an add reaches the store, the entry it stores is the one that was sent, its passwords hashed,
  with the identifiers of a security principal where it gets them.
\<close>

definition entry_of_request :: "'v ossl option \<Rightarrow> partial_attribute list \<Rightarrow> 'v \<Rightarrow> entry \<Rightarrow> bool" where
  "entry_of_request fips as v e \<longleftrightarrow>
     sound_entry fips e \<and>
     (\<exists>e0 v'. entry_from_attributes fips as v = (Inr e0, v') \<and> (\<forall>a. \<not> is_binary_attr a \<longrightarrow> entry_get e a = entry_get e0 a))"

lemma handle_add_ok:
  assumes "serves L cont spec st (fst w) S" "dn_parse (aq_entry req) = Inr d" "own_name st refs S d p"
  obtains res w' where "handle_add L st fips req spec refs w = Some (Returned res, w')"
    "res = success \<and> (\<exists>e. entry_of_request fips (aq_attributes req) (snd w) e \<and> serves L cont spec st (fst w') (S(d \<mapsto> e))) \<or>
     lr_code res \<noteq> Success \<and> serves L cont spec st (fst w') S \<or>
     lr_code res = OperationsError \<and>
       (\<exists>e. entry_of_request fips (aq_attributes req) (snd w) e \<and> serves L cont spec st (fst w') (S(d \<mapsto> e)))"
proof -
  note nm = own_nameD [OF assms(3)] and sv = servesD [OF assms(1)]
  obtain r v where r: "entry_from_attributes fips (aq_attributes req) (snd w) = (r, v)" by fastforce
  have crypto: "in_crypto (entry_from_attributes fips (aq_attributes req)) w = Some (Returned r, fst w, v)"
    using r by (cases w) (simp add: in_crypto_def)
  note run = handle_add_def assms(2) nm(5) bind_proc_def [of "in_crypto _"] crypto
  show thesis
  proof (cases r)
    case (Inl err)
    then have "handle_add L st fips req spec refs w = Some (Returned (password_error_result err), fst w, v)"
      by (simp add: run return_proc_def)
    then show thesis using that assms(1) by force
  next
    case (Inr e)
    note e_ok = entry_from_attributes_ok [OF r [unfolded Inr]]
    show thesis
    proof (cases "validate e")
      case (Inl msg)
      then have "handle_add L st fips req spec refs w = Some (Returned (schema_violation msg), fst w, v)"
        by (simp add: run Inr return_proc_def)
      then show thesis using that assms(1) by force
    next
      case (Inr u)
      then have complete: "schema_complete e" by (simp add: validate_ok)
      define w1 where "w1 = (fst w, v)"
      obtain x w2 where s: "stamp_security_principal (lib_etcd L) (lib_base64 L) st (rf_topology refs) d e w1 = Some (Returned x, w2)"
        using stamp_ends [OF sv(1), of "lib_base64 L" st "rf_topology refs" d e] stamp_keeps(2) [OF sv(1), of "lib_json L" spec st w1 S]
          sv(3) unfolding ends_def w1_def by (metis fst_conv not_None_eq surj_pair)
      have kept: "serves L cont spec st (fst w2) S"
        using stamp_keeps(1) [OF sv(1) _ s] sv by (simp add: serves_def w1_def)
      have run': "handle_add L st fips req spec refs w =
          (case x of Inl err \<Rightarrow> return_proc (store_error_result err refs d)
           | Inr e' \<Rightarrow> put_result L st d e' spec refs) w2"
        using s by (simp add: run \<open>r = Inr e\<close> Inr w1_def [symmetric] bind_proc_def)
      show thesis
      proof (cases x)
        case (Inl err)
        then show thesis using that [of "store_error_result err refs d" w2] run' kept by (simp add: return_proc_def)
      next
        case (Inr e')
        then have "e' = e \<or> (\<exists>s rid. e' = stamped (lib_base64 L) s rid e)" using stamp_entry(1) s by blast
        then have good: "entry_of_request fips (aq_attributes req) (snd w) e'"
          using e_ok complete r \<open>r = Inr e\<close> unfolding entry_of_request_def sound_entry_def
          by (auto simp: stamped_ok schema_complete_stamped password_values_stamped stamped_get(3))
        then have "entry_ok e'" by (simp add: entry_of_request_def sound_entry_def)
        from kept assms(3) this show thesis
        proof (cases rule: put_result_ok)
          case (stored w')
          then show thesis using that [of success w'] run' Inr good by auto
        next
          case (failed err w')
          then show thesis using that run' Inr good by (metis refusals(5) result_code.distinct(1) sum.case(2))
        qed
      qed
    qed
  qed
qed

section \<open>Binding\<close>

lemma verify_own_password:
  assumes "ossl_ok S" "hash_password S password v = (Inr stored, v')"
  shows "verify_password S password stored = Some (Inr True)" "8 \<le> length password"
proof -
  from hash_password_stored [OF assms] obtain salt hash where
    h: "derive S password salt DEFAULT_ITERATIONS = Inr hash" "length hash = HASH_LEN" "MIN_PASSWORD_LEN \<le> length password"
    and st: "stored = ''$'' @ SCHEME @ ''$'' @ nat_str DEFAULT_ITERATIONS @ ''$'' @ to_hex salt @ ''$'' @ to_hex hash" .
  from verify_password_stored [OF h(2), of S password salt] assms(1) h(1)
  show "verify_password S password stored = Some (Inr True)" unfolding st by (simp add: ossl_ok_def)
  show "8 \<le> length password" using h(3) by (simp add: MIN_PASSWORD_LEN_def)
qed

lemma entry_from_attributes_loop_append:
  "entry_from_attributes_loop fips e (as @ bs) = and_then (entry_from_attributes_loop fips e as) (\<lambda>e'. entry_from_attributes_loop fips e' bs)"
proof (induction fips e as rule: entry_from_attributes_loop.induct)
  case (2 fips e a as)
  then show ?case by (auto simp: fun_eq_iff and_then_def Let_def split: sum.splits prod.splits)
qed (simp add: and_then_def fun_eq_iff)

lemma last_password:
  assumes "entry_from_attributes (Some S) (as @ [\<lparr>pa_type = t, pa_vals = [as_bytes s]\<rparr>]) v = (Inr e, v')"
    and "eq_ignore_ascii_case t USER_PASSWORD_ATTR" "valid_utf8 s"
  obtains h v1 where "hash_password S (as_bytes s) v1 = (Inr h, v')" "entry_get e USER_PASSWORD_ATTR = Some [h]"
proof -
  obtain e1 v1 h where "hash_password S (as_bytes s) v1 = (Inr h, v')" "e = entry_set e1 t [h]"
    using assms
    by (auto simp: entry_from_attributes_def entry_from_attributes_loop_append and_then_eq_Inr Let_def
        hash_password_values_def from_utf8_lossy_as_bytes)
  moreover have "eq_ignore_ascii_case USER_PASSWORD_ATTR t" using assms(2) by (simp add: eq_ignore_ascii_case_def)
  ultimately show thesis using that by (simp add: entry_get_set)
qed

lemma own_name_upd: "own_name st refs S d p \<Longrightarrow> own_name st refs (S(d \<mapsto> x)) d p"
  by (auto simp: own_name_def same_spelling_def)

lemma simple_bind_run:
  assumes "bq_version req = 3" "bq_auth req = Simple pw" "bq_name req \<noteq> [] \<or> pw \<noteq> []"
  shows "handle_bind L st fips clock req state =
    bind_proc (authenticate_simple L st fips (bq_name req) pw) (\<lambda>code.
      return_proc (bind_response_new code (Text []) None,
        (if code = Success then Some (''dn:'' @ bq_name req) else None), Sasl_None))"
  using assms by (auto simp: handle_bind_def)


text \<open>
  C5: After a successful add whose last attribute gives the user a password, a simple bind with that
  name and password succeeds and binds the connection as that name, whenever the store answers the
  read: hashing, the JSON form, the keys and the password check fit together.
\<close>

theorem added_user_can_bind:
  assumes "serves L cont spec st (fst w) S" "dn_parse name = Inr d" "own_name st refs S d p"
    and "ossl_ok X" "valid_utf8 s" "eq_ignore_ascii_case t USER_PASSWORD_ATTR"
    and "handle_add L st (Some X) \<lparr>aq_entry = name, aq_attributes = as @ [\<lparr>pa_type = t, pa_vals = [as_bytes s]\<rparr>]\<rparr> spec refs w =
      Some (Returned success, w1)"
    and "get_entry_at L st d w1 = Some (Returned (Inr y), w2)"
  shows "handle_bind L st (Some X) clock \<lparr>bq_version = 3, bq_name = name, bq_auth = Simple (as_bytes s)\<rparr> state w1 =
    Some (Returned (bind_response_new Success (Text []) None, Some (''dn:'' @ name), Sasl_None), w2)"
proof -
  let ?req = "\<lparr>aq_entry = name, aq_attributes = as @ [\<lparr>pa_type = t, pa_vals = [as_bytes s]\<rparr>]\<rparr>"
  let ?bind = "\<lparr>bq_version = 3, bq_name = name, bq_auth = Simple (as_bytes s)\<rparr>"
  have parse: "dn_parse (aq_entry ?req) = Inr d" using assms(2) by simp
  obtain e where e: "entry_of_request (Some X) (aq_attributes ?req) (snd w) e"
    "serves L cont spec st (fst w1) (S(d \<mapsto> e))"
    by (rule handle_add_ok [OF assms(1) parse assms(3), of "Some X"]) (use assms(7) in auto)
  then obtain e0 v' where e0: "entry_from_attributes (Some X) (as @ [\<lparr>pa_type = t, pa_vals = [as_bytes s]\<rparr>]) (snd w) = (Inr e0, v')"
    "entry_get e USER_PASSWORD_ATTR = entry_get e0 USER_PASSWORD_ATTR"
    using known_not_binary(2) by (auto simp: entry_of_request_def)
  obtain h v1 where h: "hash_password X (as_bytes s) v1 = (Inr h, v')" "entry_get e0 USER_PASSWORD_ATTR = Some [h]"
    by (rule last_password [OF e0(1) assms(6,5)])
  have stored: "first_value e USER_PASSWORD_ATTR = Some h" using e0(2) h(2) by (simp add: first_value_def)
  note v = verify_own_password [OF assms(4) h(1)]
  have y: "y = Some e"
    using e(2) own_name_upd [OF assms(3)] by (cases rule: get_entry_at_ok [of L cont spec st w1]) (use assms(8) in auto)
  have "as_bytes s \<noteq> []" using v(2) by (metis list.size(3) not_numeral_le_zero)
  then show ?thesis
    using assms(2,8) stored v(1) y
    by (simp add: simple_bind_run [of ?bind "as_bytes s"] authenticate_simple_def bind_proc_def return_proc_def or_panic_def)
qed

section \<open>Searching\<close>



section \<open>Modifying an entry\<close>

definition modified :: "'v ossl option \<Rightarrow> modify_change list \<Rightarrow> 'v \<Rightarrow> entry \<Rightarrow> entry \<Rightarrow> bool" where
  "modified fips cs v x e \<longleftrightarrow>
     (\<exists>v'. apply_changes fips cs x v = (Inr e, v')) \<and> entry_ok e \<and> schema_complete e \<and>
     (\<forall>h \<in> password_values e. h \<in> password_values x \<or> hashed fips h)"

lemma serves_entry_ok:
  assumes "serves L cont spec st w S" "resolve (st_registry st) d = Some p" "S d = Some x"
  shows "entry_ok x"
proof -
  obtain h where "represents (lib_json L) (part_id p) spec (cont w h) (part_dir (st_registry st) p S)"
    using store_representsD [OF servesD(3) [OF assms(1)] assms(2)] by metis
  then show ?thesis by (rule represents_cleanD(3) [where d = d]) (simp add: part_dir_def assms(2,3))
qed

lemma handle_modify_ok:
  assumes "serves L cont spec st (fst w) S" "dn_parse (mq_object req) = Inr d" "own_name st refs S d p"
  obtains res w' where "handle_modify L st fips req spec refs w = Some (Returned res, w')"
    "res = success \<and> (\<exists>x e. S d = Some x \<and> modified fips (mq_changes req) (snd w) x e \<and> serves L cont spec st (fst w') (S(d \<mapsto> e))) \<or>
     lr_code res \<noteq> Success \<and> serves L cont spec st (fst w') S \<or>
     lr_code res = OperationsError \<and>
       (\<exists>x e. S d = Some x \<and> modified fips (mq_changes req) (snd w) x e \<and> serves L cont spec st (fst w') (S(d \<mapsto> e)))"
proof -
  note nm = own_nameD [OF assms(3)]
  note run = handle_modify_def assms(2) nm(5) bind_proc_def [of "get_entry_at _ _ _"]
  from assms(1,3) show thesis
  proof (cases rule: get_entry_at_ok)
    case (failed e u)
    then have "handle_modify L st fips req spec refs w = Some (Returned (store_error_result (Etcd_err e) refs d), u)"
      by (simp add: run return_proc_def)
    then show thesis by (rule that) (simp add: failed(2))
  next
    case (absent u)
    then have "handle_modify L st fips req spec refs w = Some (Returned no_such_object, u)"
      by (simp add: run return_proc_def)
    then show thesis by (rule that) (simp add: absent(3))
  next
    case (found x u)
    obtain r v where r: "apply_changes fips (mq_changes req) x (snd w) = (r, v)" by fastforce
    have crypto: "in_crypto (apply_changes fips (mq_changes req) x) u = Some (Returned r, fst u, v)"
      using r found(4) by (cases u) (simp add: in_crypto_def)
    note run' = run found(1) bind_proc_def [of "in_crypto _"] crypto
    have kept: "serves L cont spec st (fst (fst u, v)) S" using found(3) by simp
    show thesis
    proof (cases r)
      case (Inl err)
      then have "handle_modify L st fips req spec refs w = Some (Returned (password_error_result err), fst u, v)"
        by (simp add: run' return_proc_def)
      then show thesis by (rule that) (use kept in simp)
    next
      case (Inr e)
      note ok = apply_changes_ok [OF r [unfolded Inr] serves_entry_ok [OF assms(1) nm(1) found(2)]]
      show thesis
      proof (cases "validate e")
        case (Inl msg)
        then have "handle_modify L st fips req spec refs w = Some (Returned (schema_violation msg), fst u, v)"
          by (simp add: run' Inr return_proc_def)
        then show thesis by (rule that) (use kept in simp)
      next
        case (Inr y)
        then have m: "modified fips (mq_changes req) (snd w) x e"
          using ok r \<open>r = Inr e\<close> by (auto simp: modified_def validate_ok)
        have run'': "handle_modify L st fips req spec refs w = put_result L st d e spec refs (fst u, v)"
          by (simp add: run' \<open>r = Inr e\<close> Inr)
        from kept assms(3) conjunct1 [OF ok] show thesis
        proof (cases rule: put_result_ok)
          case (stored w')
          then show thesis using that [of success w'] run'' m found(2) by auto
        next
          case (failed err w')
          then show thesis
            using that run'' m found(2) by (metis refusals(5) result_code.distinct(1))
        qed
      qed
    qed
  qed
qed


section \<open>Renaming an entry\<close>

lemma store_error_not_success [simp]: "store_error_result err refs d \<noteq> success"
  by (metis refusals(2,7))

lemma fold_entry_ok:
  "(\<And>a e. entry_ok e \<Longrightarrow> entry_ok (f a e)) \<Longrightarrow> entry_ok e \<Longrightarrow> entry_ok (fold f as e)"
  by (induction as arbitrary: e) auto

lemma rename_values_ok: "entry_ok e \<Longrightarrow> entry_ok (rename_values del old_rdn new_rdn e)"
  unfolding rename_values_def Let_def
  by (auto intro!: fold_entry_ok entry_ok_ops simp: entry_ok_ops)

lemma delete_entry_at_ok:
  assumes "serves L cont spec st (fst w) S" "own_name st refs S d p"
  obtains (removed) w' where "delete_entry_at L st d spec w = Some (Returned (Inr ()), w')"
      "serves L cont spec st (fst w') (S(d := None))"
    | (failed) e w' where "delete_entry_at L st d spec w = Some (Returned (Inl (Etcd_err e)), w')"
      "serves L cont spec st (fst w') S \<or> serves L cont spec st (fst w') (S(d := None))"
proof -
  note sv = servesD [OF assms(1)] and nm = own_nameD [OF assms(2)]
  obtain r u where g: "store_delete_entry (lib_etcd L) (lib_json L) st d spec (fst w) = (r, u)" by fastforce
  have run: "delete_entry_at L st d spec w = Some (Returned r, u, snd w)"
    using g by (cases w) (simp add: delete_entry_at_def in_store_def)
  show thesis
    using store_delete_entry_ok [OF sv nm(1-4) g] removed [of "(u, snd w)"] failed [of _ "(u, snd w)"] run sv(1,2)
    by (auto simp: serves_def)
qed

text \<open>What a rename may leave: the directory as it was, the entry under both names, or moved.\<close>

definition rename_outcome :: "directory \<Rightarrow> dn \<Rightarrow> dn \<Rightarrow> entry \<Rightarrow> ldap_result \<Rightarrow> directory \<Rightarrow> bool" where
  "rename_outcome S old_dn new_dn e res S' \<longleftrightarrow>
     (let T = S(new_dn \<mapsto> e); M = (if dn_eq old_dn new_dn then T else T(old_dn := None)) in
      if res = success then S' = M else lr_code res \<noteq> Success \<and> S' \<in> {S, T, M})"

lemma rename_outcomeI:
  assumes "lr_code res \<noteq> Success"
    and "S' = S \<or> S' = S(new_dn \<mapsto> e) \<or> \<not> dn_eq old_dn new_dn \<and> S' = S(new_dn \<mapsto> e, old_dn := None)"
  shows "rename_outcome S old_dn new_dn e res S'"
  using assms by (auto simp: rename_outcome_def Let_def)

lemma move_entry_ok:
  assumes "serves L cont spec st (fst w) S" "own_name st refs S old_dn p" "own_name st refs S new_dn q" "entry_ok e"
  obtains res w' S' where "move_entry L st old_dn new_dn e spec refs w = Some (Returned res, w')"
    "serves L cont spec st (fst w') S'" "rename_outcome S old_dn new_dn e res S'"
proof -
  obtain r u where put: "put_entry_at L st new_dn e spec w = Some (Returned r, u)"
    using ends_store_calls(2) unfolding ends_def put_entry_at_def in_store_def
    by (metis (no_types, lifting) case_prod_conv old.prod.exhaust)
  note nm = own_nameD [OF assms(3)]
  let ?T = "S(new_dn \<mapsto> e)"
  from assms(1,3,4) show thesis
  proof (cases rule: put_result_ok)
    case (failed err w')
    then have r: "r = Inl (Etcd_err err)" "u = w'"
      using put by (auto simp: put_result_def bind_proc_def return_proc_def store_error_result_def
          operations_error_def success_def ldap_result_new_def referral_result_def split: sum.splits store_error.splits option.splits)
    then have "move_entry L st old_dn new_dn e spec refs w = Some (Returned (store_error_result (Etcd_err err) refs new_dn), u)"
      using put by (simp add: move_entry_def bind_proc_def return_proc_def)
    then show thesis using failed(2) r(2) by (elim disjE; intro that) (auto intro!: rename_outcomeI)
  next
    case (stored w')
    then have r: "r = Inr ()" "u = w'"
      using put by (auto simp: put_result_def bind_proc_def return_proc_def split: sum.splits)
    note run = move_entry_def bind_proc_def [of "put_entry_at _ _ _ _ _"] put r(1)
    show thesis
    proof (cases "dn_eq old_dn new_dn")
      case True
      then have "move_entry L st old_dn new_dn e spec refs w = Some (Returned success, u)"
        by (simp add: run return_proc_def)
      then show thesis using that stored(2) r(2) True by (auto simp: rename_outcome_def)
    next
      case False
      have nm': "own_name st refs ?T old_dn p"
        using assms(2) False unfolding own_name_def same_spelling_def by (auto simp: dn_eq_norm)
      from stored(2) nm' show thesis
      proof (cases rule: delete_entry_at_ok)
        case (removed w'')
        then have "move_entry L st old_dn new_dn e spec refs w = Some (Returned success, w'')"
          using False r(2) by (simp add: run bind_proc_def return_proc_def)
        then show thesis using that removed(2) False by (auto simp: rename_outcome_def)
      next
        case (failed err w'')
        let ?res = "operations_error (Store_text ''entry moved to the new DN but the old DN could not be removed: '' (Etcd_err err))"
        have "move_entry L st old_dn new_dn e spec refs w = Some (Returned ?res, w'')"
          using failed(1) False r(2) by (simp add: run bind_proc_def return_proc_def)
        then show thesis
          using failed(2) False by (elim disjE; intro that) (auto intro!: rename_outcomeI)
      qed
    qed
  qed
qed

lemma handle_moddn_ok:
  assumes "serves L cont spec st (fst w) S"
    and "dn_parse (dq_entry req) = Inr old_dn" "own_name st refs S old_dn p"
    and "new_name req old_dn = Inr (new_rdn, new_dn)" "own_name st refs S new_dn q"
  obtains (kept) res w' where "handle_moddn L st req spec refs w = Some (Returned res, w')"
      "serves L cont spec st (fst w') S" "lr_code res \<noteq> Success"
    | (moved) e res w' S' where "handle_moddn L st req spec refs w = Some (Returned res, w')"
      "serves L cont spec st (fst w') S'" "S old_dn = Some e"
      "rename_outcome S old_dn new_dn
         (rename_values (dq_delete_old_rdn req) (rdns old_dn ! 0) new_rdn e) res S'"
proof (cases "rdns old_dn = []")
  case True
  then have "handle_moddn L st req spec refs w = Some (Returned invalid_dn, w)"
    using assms(2) by (simp add: handle_moddn_def is_empty_def return_proc_def)
  then show thesis using kept assms(1) by simp
next
  case False
  note sv = servesD [OF assms(1)] and nm = own_nameD [OF assms(3)]
  obtain r u where g: "store_scan_subtree (lib_etcd L) (lib_json L) st old_dn (fst w) = (r, u)" by fastforce
  note ok = store_scan_subtree_ok [OF sv nm(2) False nm(1) g]
  have u: "serves L cont spec st (fst (u, snd w)) S" using assms(1) ok(1) by (simp add: serves_def)
  have scan: "scan_subtree_at L st old_dn w = Some (Returned r, u, snd w)"
    using g by (cases w) (simp add: scan_subtree_at_def in_store_def)
  note run = handle_moddn_def assms(2,4) nm(5) is_empty_def False bind_proc_def [of "scan_subtree_at _ _ _"] scan
  show thesis
  proof (cases "\<exists>rows. r = Inr rows \<and> length rows \<le> 1")
    case nope: False
    then have "\<exists>res. handle_moddn L st req spec refs w = Some (Returned res, u, snd w) \<and> lr_code res \<noteq> Success"
      by (cases r) (auto simp: run return_proc_def ldap_result_new_def)
    then show thesis using kept u by auto
  next
    case True
    then obtain rows where r: "r = Inr rows" "\<not> Suc 0 < length rows" by auto
    note run = run r bind_proc_def [of "get_entry_at _ _ _"]
    from u assms(3) show thesis
    proof (cases rule: get_entry_at_ok)
      case (found e v)
      have "entry_ok e" using serves_entry_ok [OF assms(1) nm(1) found(2)] .
      then have "entry_ok (rename_values (dq_delete_old_rdn req) (rdns old_dn ! 0) new_rdn e)"
        by (rule rename_values_ok)
      from found(3) assms(3,5) this show thesis
      proof (rule move_entry_ok)
        fix res w' S'
        assume m: "move_entry L st old_dn new_dn (rename_values (dq_delete_old_rdn req) (rdns old_dn ! 0) new_rdn e)
            spec refs v = Some (Returned res, w')"
          "serves L cont spec st (fst w') S'"
          "rename_outcome S old_dn new_dn (rename_values (dq_delete_old_rdn req) (rdns old_dn ! 0) new_rdn e) res S'"
        have "handle_moddn L st req spec refs w = Some (Returned res, w')"
          using found(1) m(1) by (simp add: run)
        then show thesis using moved m(2,3) found(2) by blast
      qed
    next
      case (absent v)
      then have "handle_moddn L st req spec refs w = Some (Returned no_such_object, v)"
        by (simp add: run return_proc_def)
      then show thesis using kept absent(3) by simp
    next
      case (failed err v)
      then have "handle_moddn L st req spec refs w = Some (Returned (store_error_result (Etcd_err err) refs old_dn), v)"
        by (simp add: run return_proc_def)
      then show thesis using kept failed(2) refusals(7) by blast
    qed
  qed
qed

definition entry_kept :: "directory \<Rightarrow> directory \<Rightarrow> moddn_request \<Rightarrow> bool" where
  "entry_kept S S' req \<longleftrightarrow>
     (\<forall>old_dn e. dn_parse (dq_entry req) = Inr old_dn \<longrightarrow> S old_dn = Some e \<longrightarrow>
        S' old_dn = Some e \<or>
        (\<exists>new_rdn new_dn. new_name req old_dn = Inr (new_rdn, new_dn) \<and>
           S' new_dn = Some (rename_values (dq_delete_old_rdn req) (rdns old_dn ! 0) new_rdn e)))"


section \<open>Witnesses\<close>

definition demo_krb :: krb_der where
  "demo_krb =
     \<lparr>dec_ap_req = (\<lambda>_. Inl []), dec_enc_ticket = (\<lambda>_. Inl []), enc_enc_ticket = (\<lambda>_. Inl []),
      dec_authenticator = (\<lambda>_. Inl []), enc_rep_part = (\<lambda>_. Inl []), enc_ap_rep = (\<lambda>_. Inl []),
      dec_enc_data = (\<lambda>_. Inl []), dec_pa_enc_ts = (\<lambda>_. Inl []), enc_etype_info2 = (\<lambda>_. Inl []),
      enc_method_data = (\<lambda>_. Inl []), enc_auth_data = (\<lambda>_. Inl []), enc_as_part = (\<lambda>_. Inl []),
      enc_tgs_part = (\<lambda>_. Inl [])\<rparr>"

definition demo_libs :: "(mem, unit) libs" where
  "demo_libs =
     \<lparr>lib_etcd = mem_etcd, lib_json = hex_json, lib_base64 = hex_base64,
      lib_unicode = \<lparr>uc_lower = id, uc_cased = (\<lambda>_. False), uc_case_ignorable = (\<lambda>_. False)\<rparr>,
      lib_krb = demo_krb, lib_passwd = (\<lambda>_. Inl []),
      lib_ldap = \<lparr>ber_decode = (\<lambda>_. Inl []), ber_encode = (\<lambda>_. Inl [])\<rparr>\<rparr>"

definition demo_refs :: referrals where
  "demo_refs = \<lparr>rf_topology = None, rf_static = [], rf_own = None\<rparr>"

lemma demo_serves:
  "serves demo_libs mem_cont demo_spec demo_store [] Map.empty"
  "serves demo_libs mem_cont demo_spec demo_store demo_world [demo_dn \<mapsto> demo_entry]"
  using mem_etcd_ok hex_json_ok demo_represents demo_world_represents by (simp_all add: serves_def demo_libs_def)

lemma demo_own_name:
  "own_name demo_store demo_refs Map.empty demo_dn demo_partition"
  "own_name demo_store demo_refs [demo_dn \<mapsto> x] demo_dn demo_partition"
  using demo_resolve(1) demo_clean(1,3) demo_same_spelling
  by (simp_all add: own_name_def proactive_referral_def demo_refs_def)

lemma demo_parse: "dn_parse ''cn=Al,dc=lo'' = Inr demo_dn" "dn_parse ''dc=lo'' = Inr demo_base"
  by code_simp+




definition demo_new_dn :: dn where
  "demo_new_dn = Dn [Rdn [demo_ava ''cn'' ''Bo''], Rdn [demo_ava ''dc'' ''lo'']]"


lemma demo_get:
  "store_get mem_etcd h k p w = (Inr (filter (\<lambda>x. if p then prefix k (fst x) else fst x = k) (mem_rows w)), w)"
  by (simp add: store_get_def mem_etcd_def eval_nat_numeral)

lemma demo_txn: "etcd_txn mem_etcd h [] ops w = (Inr True, fold mem_op ops w)"
  by (simp add: mem_etcd_def)

lemma demo_client:
  "part_id demo_partition = PartitionId ''p''" "client_mut demo_store (PartitionId ''p'') = Inr ()"
  "store_resolve demo_store demo_dn = Inr demo_partition"
  by code_simp+

lemma demo_put: "\<exists>w'. store_put_entry mem_etcd hex_json demo_store demo_dn e demo_spec [] = (Inr (), w')"
  by (simp add: store_put_entry_def with_client_def put_entry_indexed_def read_entry_def get_entry_def demo_get
      and_then_def map_err_def ok_call_def demo_txn mem_rows_def lift_call_def demo_client)

lemma demo_serves_entry:
  assumes "entry_ok e" shows "\<exists>w'. serves demo_libs mem_cont demo_spec demo_store w' [demo_dn \<mapsto> e]"
proof -
  obtain w' where "store_put_entry mem_etcd hex_json demo_store demo_dn e demo_spec [] = (Inr (), w')"
    using demo_put by blast
  from store_put_entry_ok [OF mem_etcd_ok hex_json_ok demo_represents demo_resolve(1) demo_clean(1,3)
      demo_same_spelling(1) assms this]
  show ?thesis using mem_etcd_ok hex_json_ok by (auto simp: serves_def demo_libs_def)
qed

lemma demo_get_entry: "\<exists>y w2. get_entry_at demo_libs demo_store demo_dn w = Some (Returned (Inr y), w2)"
  by (cases w)
    (auto simp: get_entry_at_def in_store_def demo_libs_def store_get_entry_def with_client_def get_entry_def
      demo_get and_then_def map_err_def ok_call_def lift_call_def hex_json_def entry_decode_def demo_client
      split: list.split option.split)

lemma demo_found:
  assumes "serves demo_libs mem_cont demo_spec demo_store w [demo_dn \<mapsto> e]"
  shows "\<exists>w2. get_entry_at demo_libs demo_store demo_dn (w, v) = Some (Returned (Inr (Some e)), w2)"
proof -
  have "serves demo_libs mem_cont demo_spec demo_store (fst (w, v)) [demo_dn \<mapsto> e]" using assms by simp
  then show ?thesis
    using demo_own_name(2) demo_get_entry [of "(w, v)"] by (cases rule: get_entry_at_ok) auto
qed

theorem added_user_can_bind_witness:
  "\<exists>w1 w2. handle_add demo_libs demo_store (Some demo_ossl)
      \<lparr>aq_entry = ''cn=Al,dc=lo'',
       aq_attributes = [\<lparr>pa_type = ''objectClass'', pa_vals = [as_bytes ''top'']\<rparr>] @
         [\<lparr>pa_type = ''userPassword'', pa_vals = [as_bytes ''exactly8'']\<rparr>]\<rparr> demo_spec demo_refs ([], 7) =
      Some (Returned success, w1) \<and>
    handle_bind demo_libs demo_store (Some demo_ossl) 0
      \<lparr>bq_version = 3, bq_name = ''cn=Al,dc=lo'', bq_auth = Simple (as_bytes ''exactly8'')\<rparr> Sasl_None w1 =
      Some (Returned (bind_response_new Success (Text []) None, Some ''dn:cn=Al,dc=lo'', Sasl_None), w2)"
proof -
  let ?as = "[\<lparr>pa_type = ''objectClass'', pa_vals = [as_bytes ''top'']\<rparr>] @
         [\<lparr>pa_type = ''userPassword'', pa_vals = [as_bytes ''exactly8'']\<rparr>]"
  let ?req = "\<lparr>aq_entry = ''cn=Al,dc=lo'', aq_attributes = ?as\<rparr>"
  have "\<not> isl (fst (hash_password demo_ossl (as_bytes ''exactly8'') 7))"
    by (simp add: hash_password_def derive_def ossl_result_def demo_ossl_def and_then_def map_err_def MIN_PASSWORD_LEN_def)
  then obtain stored v where h: "hash_password demo_ossl (as_bytes ''exactly8'') 7 = (Inr stored, v)"
    by (metis isl_def obj_sumE prod.collapse)
  let ?e = "entry_set (entry_set entry_new ''objectClass'' [''top'']) ''userPassword'' [stored]"
  have utf: "from_utf8_lossy (as_bytes ''top'') = ''top''" "from_utf8_lossy (as_bytes ''exactly8'') = ''exactly8''"
    and valid: "valid_utf8 ''exactly8''"
    by code_simp+
  have names: "\<not> eq_ignore_ascii_case ''objectClass'' USER_PASSWORD_ATTR" "eq_ignore_ascii_case ''userPassword'' USER_PASSWORD_ATTR"
    by code_simp+
  have e: "entry_from_attributes (Some demo_ossl) ?as 7 = (Inr ?e, v)"
    by (simp add: entry_from_attributes_def hash_password_values_def h utf names and_then_def ok_call_def)
  have ok: "validate ?e = Inr ()" "\<not> declares_security_principal_class ?e" by code_simp+
  obtain w' where p: "store_put_entry mem_etcd hex_json demo_store demo_dn ?e demo_spec [] = (Inr (), w')"
    using demo_put by blast
  have add: "handle_add demo_libs demo_store (Some demo_ossl) ?req demo_spec demo_refs ([], 7) =
      Some (Returned success, w', v)"
    using e ok p demo_parse(1) own_nameD(5) [OF demo_own_name(1)]
    by (simp add: handle_add_def bind_proc_def in_crypto_def return_proc_def stamp_security_principal_def
        put_result_def put_entry_at_def in_store_def demo_libs_def)
  have sv: "serves demo_libs mem_cont demo_spec demo_store (fst ([], 7 :: nat)) Map.empty" using demo_serves(1) by simp
  obtain y w2 where "get_entry_at demo_libs demo_store demo_dn (w', v) = Some (Returned (Inr y), w2)"
    using demo_get_entry by blast
  from added_user_can_bind [OF sv demo_parse(1) demo_own_name(1) demo_ossl_ok valid names(2) add this, of 0 Sasl_None] add
  show ?thesis by auto
qed

definition demo_stored :: string where
  "demo_stored = projr (fst (hash_password demo_ossl (as_bytes ''exactly8'') 7))"

definition demo_user :: entry where
  "demo_user = Entry [(''userpassword'', [demo_stored])]"

lemma demo_hash: "\<exists>v. hash_password demo_ossl (as_bytes ''exactly8'') 7 = (Inr demo_stored, v)"
proof -
  have "\<not> isl (fst (hash_password demo_ossl (as_bytes ''exactly8'') 7))"
    by (simp add: hash_password_def derive_def ossl_result_def demo_ossl_def and_then_def map_err_def MIN_PASSWORD_LEN_def)
  then show ?thesis unfolding demo_stored_def by (metis prod.collapse sum.collapse(2))
qed

lemma demo_user_password:
  "first_value demo_user USER_PASSWORD_ATTR = Some demo_stored"
  "verify_password demo_ossl (as_bytes ''exactly8'') demo_stored = Some (Inr True)"
  "entry_ok demo_user"
proof -
  show "verify_password demo_ossl (as_bytes ''exactly8'') demo_stored = Some (Inr True)"
    using demo_hash verify_own_password(1) [OF demo_ossl_ok] by blast
  have "first_value (Entry [(''userpassword'', [x])]) USER_PASSWORD_ATTR = Some x" "entry_ok (Entry [(''userpassword'', [x])])" for x
    by code_simp+
  then show "first_value demo_user USER_PASSWORD_ATTR = Some demo_stored" "entry_ok demo_user"
    by (simp_all add: demo_user_def)
qed

lemma demo_user_bind:
  assumes "serves demo_libs mem_cont demo_spec demo_store w [demo_dn \<mapsto> demo_user]"
  shows "\<exists>w'. handle_bind demo_libs demo_store (Some demo_ossl) clock
      \<lparr>bq_version = 3, bq_name = ''cn=Al,dc=lo'', bq_auth = Simple (as_bytes ''exactly8'')\<rparr> state (w, v) =
      Some (Returned (bind_response_new Success (Text []) None, Some ''dn:cn=Al,dc=lo'', Sasl_None), w')"
proof -
  let ?req = "\<lparr>bq_version = 3, bq_name = ''cn=Al,dc=lo'', bq_auth = Simple (as_bytes ''exactly8'')\<rparr>"
  obtain w2 where "get_entry_at demo_libs demo_store demo_dn (w, v) = Some (Returned (Inr (Some demo_user)), w2)"
    using demo_found [OF assms, of v] by blast
  then have "authenticate_simple demo_libs demo_store (Some demo_ossl) ''cn=Al,dc=lo'' (as_bytes ''exactly8'') (w, v) =
      Some (Returned Success, w2)"
    unfolding authenticate_simple_def demo_parse(1)
    by (simp only: option.case sum.case bind_proc_def demo_user_password(1,2) or_panic_def return_proc_def prod.case outcome.case)
      simp
  then show ?thesis by (simp add: handle_bind_def bind_proc_def return_proc_def)
qed


end
