(* ===== verification/Connection.thy ===== *)
theory Connection
  imports Session_Laws
begin

text \<open>
  A client connection (crates/ldap/src/conn.rs, session.rs, lib.rs): the stream with its upgrade to
  TLS, reading and sending through a negotiated security layer, and the loop that reads messages
  and dispatches them until the client leaves or the stream fails.
\<close>

section \<open>Server state and stream\<close>

text \<open>
  The TLS library is a parameter: a handshake consumes what arrives on the plain stream and leaves
  what arrives inside the TLS session, or fails.
\<close>

type_synonym tls_acceptor = "reads \<Rightarrow> string + reads"

record ('h, 'v) app_state =
  app_store :: "'h store"
  app_index_spec :: index_spec
  app_fips :: "'v ossl option"
  app_tls_acceptor :: "tls_acceptor option"
  app_referrals :: "(dn \<times> string) list"
  app_topology :: "registry option"
  app_own_partition_id :: "partition_id option"

definition referral_config :: "('h, 'v) app_state \<Rightarrow> referrals" where
  "referral_config A =
     \<lparr>rf_topology = app_topology A, rf_static = app_referrals A, rf_own = app_own_partition_id A\<rparr>"

text \<open>
  A stream: whether it was upgraded, what is still to arrive, what was written and over which of the
  two variants, and which writes to come fail, each after some of its octets.
\<close>

record conn =
  cn_tls :: bool
  cn_in :: reads
  cn_out :: "(bool \<times> bytes) list"
  cn_faults :: "(nat \<times> io_error) option list"

definition conn_write :: "bytes \<Rightarrow> (conn, io_error, unit) call" where
  "conn_write bs c =
     (case cn_faults c of
        Some (n, e) # fs \<Rightarrow> (Inl e, c\<lparr>cn_out := cn_out c @ [(cn_tls c, take n bs)], cn_faults := fs\<rparr>)
      | fs \<Rightarrow> (Inr (), c\<lparr>cn_out := cn_out c @ [(cn_tls c, bs)], cn_faults := tl fs\<rparr>))"

definition upgrade_to_tls :: "conn \<Rightarrow> tls_acceptor \<Rightarrow> string + conn" where
  "upgrade_to_tls c acceptor =
     (if cn_tls c then Inr c
      else map_sum id (\<lambda>ins. c\<lparr>cn_tls := True, cn_in := ins\<rparr>) (acceptor (cn_in c)))"

record session =
  ss_conn :: conn
  ss_buf :: bytes
  ss_sasl :: sasl_state
  ss_identity :: "string option"
  ss_turn :: nat

section \<open>Reading and sending\<close>

definition put_input :: "session \<Rightarrow> reads \<Rightarrow> bytes \<Rightarrow> session" where
  "put_input s ins buf = s\<lparr>ss_conn := (ss_conn s)\<lparr>cn_in := ins\<rparr>, ss_buf := buf\<rparr>"

definition read_next_message ::
  "('w, 'h) libs \<Rightarrow> 'v ossl option \<Rightarrow> session \<Rightarrow> (unit + ldap_message option) \<times> session" where
  "read_next_message L fips s =
     (case ss_sasl s of
        SecurityLayerActive session_key e sealed send_seq \<Rightarrow>
          (case fips of
             None \<Rightarrow> (Inl (), s)
           | Some S \<Rightarrow>
               (case read_sized_buffer (cn_in (ss_conn s)) (ss_buf s) of
                  (Inl _, ins, buf) \<Rightarrow> (Inl (), put_input s ins buf)
                | (Inr None, ins, buf) \<Rightarrow> (Inr None, put_input s ins buf)
                | (Inr (Some wrapped), ins, buf) \<Rightarrow>
                    (case gss_unwrap S e session_key 24 wrapped of
                       Inl _ \<Rightarrow> Inl ()
                     | Inr plain \<Rightarrow> map_sum (\<lambda>_. ()) Some (ber_decode (lib_ldap L) plain), put_input s ins buf)))
      | _ \<Rightarrow>
          (case read_message (lib_ldap L) (cn_in (ss_conn s)) (ss_buf s) of
             (r, ins, buf) \<Rightarrow> (map_sum (\<lambda>_. ()) id r, put_input s ins buf)))"

definition drop_error :: "'e + 'a \<Rightarrow> unit + 'a" where
  "drop_error = map_sum (\<lambda>_. ()) id"

text \<open>The counter of an active layer is bumped in place, so the state is returned as well.\<close>

definition send_response ::
  "('w, 'h) libs \<Rightarrow> 'v ossl option \<Rightarrow> sasl_state \<Rightarrow> ldap_message \<Rightarrow> conn \<Rightarrow>
   ('w \<times> 'v, (unit + unit) \<times> sasl_state \<times> conn) proc" where
  "send_response L fips state msg c =
     (case state of
        SecurityLayerActive session_key e sealed send_seq \<Rightarrow>
          (case fips of
             None \<Rightarrow> return_proc (Inl (), state, c)
           | Some S \<Rightarrow>
               (case ber_encode (lib_ldap L) msg of
                  Inl _ \<Rightarrow> return_proc (Inl (), state, c)
                | Inr plain \<Rightarrow>
                    bind_proc (in_crypto (gss_wrap S e session_key 22 sealed send_seq plain)) (\<lambda>r.
                      let state' = SecurityLayerActive session_key e sealed (send_seq + 1) in
                      case r of
                        Inl _ \<Rightarrow> return_proc (Inl (), state', c)
                      | Inr wrapped \<Rightarrow>
                          (case write_sized_buffer conn_write wrapped c of
                             (r, c') \<Rightarrow> return_proc (drop_error r, state', c')))))
      | _ \<Rightarrow>
          (case write_message (lib_ldap L) conn_write msg c of
             (r, c') \<Rightarrow> return_proc (drop_error r, state, c')))"

section \<open>The messages of a connection\<close>

definition STARTTLS_OID :: bytes where
  "STARTTLS_OID = as_bytes ''1.3.6.1.4.1.1466.20037''"

definition WHOAMI_OID :: bytes where
  "WHOAMI_OID = as_bytes ''1.3.6.1.4.1.4203.1.11.3''"

definition PASSWORD_MODIFY_OID :: bytes where
  "PASSWORD_MODIFY_OID = as_bytes ''1.3.6.1.4.1.4203.1.11.1''"

definition extended_resp :: "result_code \<Rightarrow> diagnostic \<Rightarrow> bytes option \<Rightarrow> bytes option \<Rightarrow> protocol_op" where
  "extended_resp code diag name value =
     ExtendedResp \<lparr>xr_code = code, xr_matched = [], xr_diagnostic = diag, xr_name = name, xr_value = value\<rparr>"

text \<open>
  Sending the responses to a request one after the other; a failure to send closes the connection.
  \<open>Inl\<close> is a closed connection, \<open>Inr\<close> one that goes on.
\<close>

fun reply ::
  "('w, 'h) libs \<Rightarrow> 'v ossl option \<Rightarrow> u32 \<Rightarrow> protocol_op list \<Rightarrow> session \<Rightarrow> ('w \<times> 'v, session + session) proc" where
  "reply L fips message_id [] s = return_proc (Inr s)"
| "reply L fips message_id (x # xs) s =
     bind_proc (send_response L fips (ss_sasl s) \<lparr>msg_id = message_id, msg_op = x\<rparr> (ss_conn s)) (\<lambda>(r, state, c).
       let s' = s\<lparr>ss_sasl := state, ss_conn := c\<rparr> in
       case r of Inl _ \<Rightarrow> return_proc (Inl s') | Inr _ \<Rightarrow> reply L fips message_id xs s')"

text \<open>A bind is answered in the state from before it.\<close>

definition on_bind ::
  "('w, 'h) libs \<Rightarrow> ('h, 'v) app_state \<Rightarrow> int \<Rightarrow> u32 \<Rightarrow> bind_request \<Rightarrow> session \<Rightarrow> ('w \<times> 'v, session + session) proc" where
  "on_bind L A clock message_id req s =
     (let send_state = ss_sasl s in
      bind_proc (handle_bind L (app_store A) (app_fips A) clock req (ss_sasl s)) (\<lambda>(resp, identity, state').
        let s1 = s\<lparr>ss_sasl := state',
                   ss_identity := (if br_code resp \<noteq> SaslBindInProgress then identity else ss_identity s)\<rparr> in
        bind_proc (send_response L (app_fips A) send_state \<lparr>msg_id = message_id, msg_op = BindResponse resp\<rparr> (ss_conn s1))
          (\<lambda>(r, _, c). return_proc (let s2 = s1\<lparr>ss_conn := c\<rparr> in case r of Inl _ \<Rightarrow> Inl s2 | Inr _ \<Rightarrow> Inr s2))))"

definition starttls_answer :: "conn \<Rightarrow> tls_acceptor option \<Rightarrow> result_code \<times> string" where
  "starttls_answer c acceptor =
     (if cn_tls c then (OperationsError, ''already TLS'')
      else
        (case acceptor of
           None \<Rightarrow> (ProtocolError, ''StartTLS is not configured (no TLS cert/key)'')
         | Some _ \<Rightarrow> (Success, [])))"

definition upgrade :: "tls_acceptor option \<Rightarrow> session \<Rightarrow> ('w, session + session) proc" where
  "upgrade acceptor s =
     (case acceptor of
        None \<Rightarrow> or_panic None
      | Some a \<Rightarrow>
          return_proc
            (case upgrade_to_tls (ss_conn s) a of
               Inl _ \<Rightarrow> Inl s
             | Inr c \<Rightarrow> Inr (s\<lparr>ss_conn := c, ss_buf := []\<rparr>)))"

definition on_starttls ::
  "('w, 'h) libs \<Rightarrow> 'v ossl option \<Rightarrow> tls_acceptor option \<Rightarrow> u32 \<Rightarrow> session \<Rightarrow> ('w \<times> 'v, session + session) proc" where
  "on_starttls L fips acceptor message_id s =
     (let (code, diag) = starttls_answer (ss_conn s) acceptor in
      bind_proc (reply L fips message_id [extended_resp code (Text diag) (Some STARTTLS_OID) None] s) (\<lambda>r.
        case r of
          Inl s' \<Rightarrow> return_proc (Inl s')
        | Inr s' \<Rightarrow> if code = Success then upgrade acceptor s' else return_proc (Inr s')))"

definition whoami :: "string option \<Rightarrow> protocol_op" where
  "whoami identity =
     extended_resp Success (Text []) None (Some (as_bytes (case identity of None \<Rightarrow> [] | Some i \<Rightarrow> i)))"

definition password_modify_resp :: "password_modify_error + bytes option \<Rightarrow> protocol_op" where
  "password_modify_resp r =
     (case r of
        Inr value \<Rightarrow> extended_resp Success (Text []) (Some PASSWORD_MODIFY_OID) value
      | Inl e \<Rightarrow> extended_resp (pme_code e) (pme_message e) (Some PASSWORD_MODIFY_OID) None)"

definition on_extended ::
  "('w, 'h) libs \<Rightarrow> ('h, 'v) app_state \<Rightarrow> tls_acceptor option \<Rightarrow> u32 \<Rightarrow> extended_request \<Rightarrow> session \<Rightarrow>
   ('w \<times> 'v, session + session) proc" where
  "on_extended L A acceptor message_id req s =
     (if xq_name req = STARTTLS_OID then on_starttls L (app_fips A) acceptor message_id s
      else if xq_name req = WHOAMI_OID then reply L (app_fips A) message_id [whoami (ss_identity s)] s
      else if xq_name req = PASSWORD_MODIFY_OID then
        bind_proc (handle_password_modify L (app_store A) (app_fips A) (xq_value req) (ss_identity s) (app_index_spec A))
          (\<lambda>r. reply L (app_fips A) message_id [password_modify_resp r] s)
      else
        reply L (app_fips A) message_id
          [extended_resp ProtocolError (Text ''extended operations are not implemented yet'') None None] s)"

definition handle_message ::
  "('w, 'h) libs \<Rightarrow> ('h, 'v) app_state \<Rightarrow> tls_acceptor option \<Rightarrow> int \<Rightarrow> ldap_message \<Rightarrow> session \<Rightarrow>
   ('w \<times> 'v, session + session) proc" where
  "handle_message L A acceptor clock msg s =
     (let st = app_store A; fips = app_fips A; spec = app_index_spec A; refs = referral_config A;
          send = (\<lambda>xs. reply L fips (msg_id msg) xs s) in
      case msg_op msg of
        UnbindRequest \<Rightarrow> return_proc (Inl s)
      | BindRequest req \<Rightarrow> on_bind L A clock (msg_id msg) req s
      | SearchRequest req \<Rightarrow> bind_proc (handle_search L st req refs (fips \<noteq> None)) send
      | AddRequest req \<Rightarrow> bind_proc (handle_add L st fips req spec refs) (\<lambda>r. send [AddResponse r])
      | DelRequest req \<Rightarrow> bind_proc (handle_delete L st req spec refs) (\<lambda>r. send [DelResponse r])
      | ModifyRequest req \<Rightarrow> bind_proc (handle_modify L st fips req spec refs) (\<lambda>r. send [ModifyResponse r])
      | CompareRequest req \<Rightarrow> bind_proc (handle_compare L st req refs) (\<lambda>r. send [CompareResponse r])
      | ModDnRequest req \<Rightarrow> bind_proc (handle_moddn L st req spec refs) (\<lambda>r. send [ModDnResponse r])
      | ExtendedReq req \<Rightarrow> on_extended L A acceptor (msg_id msg) req s
      | _ \<Rightarrow> return_proc (Inr s))"

section \<open>The loop\<close>

text \<open>
  The clock gives the time at which each message of the connection is handled. \<open>None\<close> is a
  connection that never ends.
\<close>

partial_function (option) serve_loop ::
  "('w, 'h) libs \<Rightarrow> ('h, 'v) app_state \<Rightarrow> tls_acceptor option \<Rightarrow> (nat \<Rightarrow> int) \<Rightarrow> session \<Rightarrow> 'w \<times> 'v \<Rightarrow>
   (session outcome \<times> 'w \<times> 'v) option" where
  "serve_loop L A acceptor clock s w =
     (case read_next_message L (app_fips A) s of
        (Inl _, s') \<Rightarrow> Some (Returned s', w)
      | (Inr None, s') \<Rightarrow> Some (Returned s', w)
      | (Inr (Some msg), s') \<Rightarrow>
          Option.bind (handle_message L A acceptor (clock (ss_turn s)) msg s' w) (\<lambda>(r, w').
            case r of
              Panicked \<Rightarrow> Some (Panicked, w')
            | Returned (Inl s2) \<Rightarrow> Some (Returned s2, w')
            | Returned (Inr s2) \<Rightarrow> serve_loop L A acceptor clock (s2\<lparr>ss_turn := Suc (ss_turn s)\<rparr>) w'))"

definition new_session :: "reads \<Rightarrow> (nat \<times> io_error) option list \<Rightarrow> session" where
  "new_session ins faults =
     \<lparr>ss_conn = \<lparr>cn_tls = False, cn_in = ins, cn_out = [], cn_faults = faults\<rparr>,
      ss_buf = [], ss_sasl = Sasl_None, ss_identity = None, ss_turn = 0\<rparr>"

definition handle_connection ::
  "('w, 'h) libs \<Rightarrow> ('h, 'v) app_state \<Rightarrow> tls_acceptor option \<Rightarrow> (nat \<Rightarrow> int) \<Rightarrow>
   reads \<Rightarrow> (nat \<times> io_error) option list \<Rightarrow> 'w \<times> 'v \<Rightarrow> (session outcome \<times> 'w \<times> 'v) option" where
  "handle_connection L A acceptor clock ins faults = serve_loop L A acceptor clock (new_session ins faults)"

text \<open>What the two listeners run for a connection; no session where the handshake of the second fails.\<close>

definition serve_connection ::
  "('w, 'h) libs \<Rightarrow> ('h, 'v) app_state \<Rightarrow> (nat \<Rightarrow> int) \<Rightarrow> reads \<Rightarrow> (nat \<times> io_error) option list \<Rightarrow> 'w \<times> 'v \<Rightarrow>
   (session outcome \<times> 'w \<times> 'v) option" where
  "serve_connection L A clock ins faults = handle_connection L A (app_tls_acceptor A) clock ins faults"

definition serve_ldaps_connection ::
  "('w, 'h) libs \<Rightarrow> ('h, 'v) app_state \<Rightarrow> tls_acceptor \<Rightarrow> (nat \<Rightarrow> int) \<Rightarrow> reads \<Rightarrow> (nat \<times> io_error) option list \<Rightarrow>
   'w \<times> 'v \<Rightarrow> (session option outcome \<times> 'w \<times> 'v) option" where
  "serve_ldaps_connection L A acceptor clock ins faults w =
     (case acceptor ins of
        Inl _ \<Rightarrow> Some (Returned None, w)
      | Inr ins' \<Rightarrow>
          map_option (apfst (map_outcome Some)) (handle_connection L A None clock ins' faults w))"

section \<open>What sending keeps\<close>

lemma conn_write_kept: "conn_write bs c = (r, c') \<Longrightarrow> cn_in c' = cn_in c \<and> cn_tls c' = cn_tls c"
  by (auto simp: conn_write_def split: list.splits option.splits prod.splits)

lemma write_kept:
  "write_message C conn_write m c = (r, c') \<Longrightarrow> cn_in c' = cn_in c \<and> cn_tls c' = cn_tls c"
  "write_sized_buffer conn_write bs c = (r, c') \<Longrightarrow> cn_in c' = cn_in c \<and> cn_tls c' = cn_tls c"
  by (auto simp: write_message_def write_sized_buffer_def and_then_def map_err_def lift_call_def
      dest!: conn_write_kept split: prod.splits sum.splits)

text \<open>The layer stays as it is but for its counter.\<close>

fun same_layer :: "sasl_state \<Rightarrow> sasl_state \<Rightarrow> bool" where
  "same_layer (SecurityLayerActive k e sealed n) (SecurityLayerActive k' e' sealed' n') \<longleftrightarrow>
     k' = k \<and> e' = e \<and> sealed' = sealed"
| "same_layer state state' \<longleftrightarrow> state' = state"

lemma same_layer_refl [simp]: "same_layer x x"
  by (cases x) auto

lemma same_layer_trans: "same_layer x y \<Longrightarrow> same_layer y z \<Longrightarrow> same_layer x z"
  by (cases x; cases y; cases z) auto

definition only_sent :: "session \<Rightarrow> session \<Rightarrow> bool" where
  "only_sent s s' \<longleftrightarrow>
     cn_in (ss_conn s') = cn_in (ss_conn s) \<and> cn_tls (ss_conn s') = cn_tls (ss_conn s) \<and>
     ss_buf s' = ss_buf s \<and> ss_identity s' = ss_identity s \<and> same_layer (ss_sasl s) (ss_sasl s')"

lemma only_sent_refl [simp]: "only_sent s s"
  by (simp add: only_sent_def)

lemma only_sent_trans: "only_sent s t \<Longrightarrow> only_sent t u \<Longrightarrow> only_sent s u"
  by (auto simp: only_sent_def intro: same_layer_trans)

lemma send_response_kept:
  assumes "send_response L fips state msg c w = Some (Returned (r, state', c'), w')"
  shows "cn_in c' = cn_in c" "cn_tls c' = cn_tls c" "same_layer state state'" "fst w' = fst w"
  using assms
  by (auto simp: send_response_def Let_def dest!: write_kept elim!: bind_procE
      split: sasl_state.splits option.splits sum.splits prod.splits)

lemma send_response_stream:
  "send_response L fips state msg c w = Some (Returned (r, state', c'), w') \<Longrightarrow>
   cn_in c' = cn_in c \<and> cn_tls c' = cn_tls c"
  using send_response_kept(1,2) by blast

lemma reply_kept:
  "reply L fips i xs s w = Some (Returned r, w') \<Longrightarrow> only_sent s (case_sum id id r)"
proof (induction xs arbitrary: s w)
  case (Cons x xs)
  from Cons.prems obtain q state c u where send:
    "send_response L fips (ss_sasl s) \<lparr>msg_id = i, msg_op = x\<rparr> (ss_conn s) w = Some (Returned (q, state, c), u)"
    and rest: "(case q of Inl _ \<Rightarrow> return_proc (Inl (s\<lparr>ss_sasl := state, ss_conn := c\<rparr>))
        | Inr _ \<Rightarrow> reply L fips i xs (s\<lparr>ss_sasl := state, ss_conn := c\<rparr>)) u = Some (Returned r, w')"
    by (auto simp: Let_def elim!: bind_procE)
  have sent: "only_sent s (s\<lparr>ss_sasl := state, ss_conn := c\<rparr>)"
    using send_response_kept [OF send] by (simp add: only_sent_def)
  show ?case
  proof (cases q)
    case (Inl a)
    then show ?thesis using rest sent by simp
  next
    case (Inr a)
    then show ?thesis using rest Cons.IH only_sent_trans [OF sent] by simp
  qed
qed simp

section \<open>Every connection ends\<close>

definition arriving :: "reads \<Rightarrow> nat" where
  "arriving rs = sum_list (map (\<lambda>r. case r of Inl _ \<Rightarrow> 0 | Inr bs \<Rightarrow> length bs) rs)"

lemma fill_amount:
  "fill flen rs buf = (Inr (Some n), rs', buf') \<Longrightarrow>
   arriving rs' + length buf' = arriving rs + length buf \<and> n \<le> length buf'"
proof (induction rs arbitrary: buf)
  case Nil
  then show ?case
    by (auto simp: complete_def at_eof_def split: option.splits sum.splits if_splits)
next
  case (Cons r rs)
  show ?case
  proof (cases "complete flen buf")
    case None
    then show ?thesis
      using Cons.prems Cons.IH by (auto simp: arriving_def at_eof_def split: sum.splits if_splits)
  next
    case (Some q)
    then show ?thesis
      using Cons.prems by (auto simp: complete_def split: option.splits sum.splits if_splits)
  qed
qed

lemma read_framed_amount:
  assumes "read_framed flen dec rs buf = (Inr (Some m), rs', buf')" "\<And>m. dec [] \<noteq> Inr m"
  shows "arriving rs' + length buf' < arriving rs + length buf"
proof -
  obtain n b where f: "fill flen rs buf = (Inr (Some n), rs', b)" "dec (take n b) = Inr m" "buf' = drop n b"
    using assms(1) by (auto simp: read_framed_def split: prod.splits sum.splits option.splits)
  then have "take n b \<noteq> []" using assms(2) by metis
  then have "0 < n" "b \<noteq> []" by auto
  then show ?thesis using fill_amount [OF f(1)] f(3) by auto
qed

definition amount :: "session \<Rightarrow> nat" where
  "amount s = arriving (cn_in (ss_conn s)) + length (ss_buf s)"

text \<open>
  The length word of a SASL buffer counts, so a buffer is never empty; the codec must not make a
  message of nothing.
\<close>

lemma read_sized_amount:
  assumes "read_sized_buffer rs buf = (Inr (Some m), rs', buf')"
  shows "arriving rs' + length buf' < arriving rs + length buf"
proof -
  obtain n b where f: "fill sized_frame_len rs buf = (Inr (Some n), rs', b)" "buf' = drop n b"
    using assms by (auto simp: read_sized_buffer_def read_framed_def split: prod.splits sum.splits option.splits)
  have "4 \<le> n" using f(1)
  proof (induction rs arbitrary: buf)
    case Nil
    then show ?case
      by (auto simp: complete_def at_eof_def sized_frame_len_def split: option.splits sum.splits if_splits)
  next
    case (Cons r rs)
    then show ?case
      by (auto simp: complete_def at_eof_def sized_frame_len_def split: option.splits sum.splits if_splits)
  qed
  then show ?thesis using fill_amount [OF f(1)] f(2) by auto
qed

lemma read_next_amount:
  assumes "read_next_message L fips s = (Inr (Some m), s')" "\<And>m. ber_decode (lib_ldap L) [] \<noteq> Inr m"
  shows "amount s' < amount s" "cn_tls (ss_conn s') = cn_tls (ss_conn s)"
proof -
  have dec: "map_sum Decode_error id (ber_decode (lib_ldap L) []) \<noteq> Inr m" for m
    using assms(2) by (cases "ber_decode (lib_ldap L) []") auto
  show "amount s' < amount s" "cn_tls (ss_conn s') = cn_tls (ss_conn s)"
    using assms(1) dec
    by (auto simp: read_next_message_def read_message_def amount_def put_input_def
        dest!: read_sized_amount read_framed_amount split: sasl_state.splits option.splits prod.splits sum.splits)
qed

lemma ends_send_response [ends_intros]: "ends (send_response L fips state msg c)"
  unfolding send_response_def Let_def by (auto intro!: ends_intros split: prod.split)

lemma ends_reply [ends_intros]: "ends (reply L fips i xs s)"
  by (induction xs arbitrary: s) (auto simp: Let_def intro!: ends_intros split: prod.split)

declare reply.simps(2) [simp del]

lemma ends_on_bind [ends_intros]: "ends (on_bind L A clock i req s)"
  unfolding on_bind_def Let_def by (auto intro!: ends_intros split: prod.split)

lemma ends_upgrade [ends_intros]: "ends (upgrade acceptor s)"
  unfolding upgrade_def by (intro ends_intros)

lemma ends_on_starttls [ends_intros]: "ends (on_starttls L fips acceptor i s)"
  unfolding on_starttls_def Let_def by (auto intro!: ends_intros split: prod.split)

lemma ends_on_extended [ends_intros]: "ends (on_extended L A acceptor i req s)"
  unfolding on_extended_def by (intro ends_intros)

lemma ends_handle_message:
  assumes "etcd_ok (lib_etcd L) cont" shows "ends (handle_message L A acceptor clock msg s)"
  unfolding handle_message_def Let_def
  by (cases "msg_op msg") (auto intro!: ends_intros ends_handle_add [OF assms])

text \<open>Of the messages a connection survives, only an upgrade changes what there is to read.\<close>

definition upgraded :: "session \<Rightarrow> session \<Rightarrow> bool" where
  "upgraded s s' \<longleftrightarrow>
     \<not> cn_tls (ss_conn s) \<and> cn_tls (ss_conn s') \<and> ss_buf s' = [] \<and> ss_identity s' = ss_identity s \<and>
     same_layer (ss_sasl s) (ss_sasl s')"

lemma on_starttls_kept:
  assumes "on_starttls L fips acceptor i s w = Some (Returned r, w')"
  shows "only_sent s (case_sum id id r) \<or> upgraded s (case_sum id id r)"
proof -
  obtain q u where q: "reply L fips i
      [extended_resp (fst (starttls_answer (ss_conn s) acceptor)) (Text (snd (starttls_answer (ss_conn s) acceptor)))
        (Some STARTTLS_OID) None] s w = Some (Returned q, u)"
    and rest: "(case q of Inl s' \<Rightarrow> return_proc (Inl s')
        | Inr s' \<Rightarrow> if fst (starttls_answer (ss_conn s) acceptor) = Success then upgrade acceptor s' else return_proc (Inr s')) u =
      Some (Returned r, w')"
    using assms by (auto simp: on_starttls_def Let_def case_prod_beta elim!: bind_procE)
  have sent: "only_sent s (case_sum id id q)" using reply_kept [OF q] .
  show ?thesis
  proof (cases q)
    case (Inl a)
    then show ?thesis using rest sent by simp
  next
    case (Inr a)
    then show ?thesis
      using rest sent
      by (auto simp: upgrade_def upgrade_to_tls_def upgraded_def only_sent_def or_panic_def starttls_answer_def
          split: if_splits option.splits sum.splits)
  qed
qed

lemma on_bind_kept:
  assumes "on_bind L A clock i req s w = Some (Returned r, w')"
  obtains resp identity state' v where
    "handle_bind L (app_store A) (app_fips A) clock req (ss_sasl s) w = Some (Returned (resp, identity, state'), v)"
    "cn_in (ss_conn (case_sum id id r)) = cn_in (ss_conn s)" "cn_tls (ss_conn (case_sum id id r)) = cn_tls (ss_conn s)"
    "ss_buf (case_sum id id r) = ss_buf s" "ss_sasl (case_sum id id r) = state'"
    "ss_identity (case_sum id id r) = (if br_code resp \<noteq> SaslBindInProgress then identity else ss_identity s)"
  using assms
  by (auto simp: on_bind_def Let_def dest!: send_response_stream elim!: bind_procE split: sum.splits)

lemma handle_message_cases:
  assumes "handle_message L A acceptor clock msg s w = Some (Returned r, w')"
  obtains (bind) req where "msg_op msg = BindRequest req" "on_bind L A clock (msg_id msg) req s w = Some (Returned r, w')"
    | (kept) "only_sent s (case_sum id id r)"
    | (upgraded) "upgraded s (case_sum id id r)"
proof (cases "\<exists>req. msg_op msg = BindRequest req")
  case True
  then show thesis using bind assms by (auto simp: handle_message_def Let_def)
next
  case False
  then have "only_sent s (case_sum id id r) \<or> upgraded s (case_sum id id r)"
    using assms
    by (cases "msg_op msg")
      (auto simp: handle_message_def Let_def on_extended_def dest: reply_kept on_starttls_kept
        elim!: bind_procE split: if_splits)
  then show thesis using kept upgraded by blast
qed

lemma handle_message_amount:
  assumes "handle_message L A acceptor clock msg s w = Some (Returned (Inr s'), w')"
  shows "amount s' = amount s \<and> cn_tls (ss_conn s') = cn_tls (ss_conn s) \<or>
    \<not> cn_tls (ss_conn s) \<and> cn_tls (ss_conn s')"
  using assms
proof (cases rule: handle_message_cases)
  case (bind req)
  from bind(2) show ?thesis by (rule on_bind_kept) (simp add: amount_def)
qed (auto simp: only_sent_def upgraded_def amount_def)

text \<open>An upgrade happens at most once; between upgrades the octets run out.\<close>

definition remaining :: "(session \<times> session) set" where
  "remaining = inv_image (less_than <*lex*> less_than) (\<lambda>s. (if cn_tls (ss_conn s) then 0 else Suc 0, amount s))"

lemma remaining_wf: "wf remaining"
  by (simp add: remaining_def wf_inv_image wf_lex_prod)

lemma serve_loop_ends:
  assumes "etcd_ok (lib_etcd L) cont" "\<And>m. ber_decode (lib_ldap L) [] \<noteq> Inr m"
  shows "serve_loop L A acceptor clock s w \<noteq> None"
proof (induction s arbitrary: w rule: wf_induct_rule [OF remaining_wf])
  case less: (1 s)
  obtain r s' where rd: "read_next_message L (app_fips A) s = (r, s')" by fastforce
  show ?case
  proof (cases "\<exists>msg. r = Inr (Some msg)")
    case False
    then have "r = Inl () \<or> r = Inr None" by (metis old.unit.exhaust option.exhaust sum.exhaust)
    then show ?thesis using rd by (subst serve_loop.simps) auto
  next
    case True
    then obtain msg where r: "r = Inr (Some msg)" by blast
    note amount = read_next_amount [OF rd [unfolded r] assms(2)]
    obtain q u where run: "handle_message L A acceptor (clock (ss_turn s)) msg s' w = Some (q, u)"
      using ends_handle_message [OF assms(1)] unfolding ends_def by fast
    show ?thesis
    proof (cases "\<exists>s2. q = Returned (Inr s2)")
      case False
      then show ?thesis
        using rd r run by (subst serve_loop.simps) (auto split: outcome.splits sum.splits)
    next
      case True
      then obtain s2 where q: "q = Returned (Inr s2)" by blast
      let ?s = "s2\<lparr>ss_turn := Suc (ss_turn s)\<rparr>"
      have "(?s, s) \<in> remaining"
        using handle_message_amount [OF run [unfolded q]] amount by (auto simp: remaining_def amount_def)
      then have "serve_loop L A acceptor clock ?s u \<noteq> None" by (rule less)
      then show ?thesis using rd r run q by (subst serve_loop.simps) simp
    qed
  qed
qed

text \<open>
  C4: Every connection ends. However the octets of a client are cut, whatever they say and however
  its writes fail, once they have all arrived the loop of \<^const>\<open>handle_connection\<close> has returned or
  panicked, and no request can keep it running; the codec must only not decode a message from no
  octets at all.
\<close>
theorem connection_ends:
  assumes "etcd_ok (lib_etcd L) cont" "\<And>m. ber_decode (lib_ldap L) [] \<noteq> Inr m"
  shows "\<exists>result w'. handle_connection L A acceptor clock ins faults w = Some (result, w')"
  using serve_loop_ends [OF assms] unfolding handle_connection_def by (metis not_None_eq surj_pair)

section \<open>Who a connection is\<close>

text \<open>
  The name of a context came from a ticket sealed with a key of the service it names, presented by
  someone who knew the session key in it; the name of a simple bind from an entry whose stored
  password the client knew.
\<close>

definition accepted_by :: "('w, 'h) libs \<Rightarrow> 'h store \<Rightarrow> 'v ossl \<Rightarrow> bytes \<Rightarrow> enctype \<Rightarrow> string \<Rightarrow> bool" where
  "accepted_by L st S k e p \<longleftrightarrow>
     (\<exists>clock token req any_dn ks v (w :: 'w \<times> 'v) w'.
        parse_ap_req (lib_krb L) token = Inr req \<and>
        lookup_service_keys L st any_dn (tkt_sname (apq_ticket req)) (realm_to_string (tkt_realm (apq_ticket req))) w =
          Some (Returned (Some ks), w') \<and>
        request_genuine S (lib_krb L) clock req ks v \<and>
        k = base_key v \<and> e = vr_enctype v \<and> p = client_principal_of (vr_ticket v))"

definition password_checked :: "('w, 'h) libs \<Rightarrow> 'h store \<Rightarrow> 'v ossl \<Rightarrow> string \<Rightarrow> bool" where
  "password_checked L st S name \<longleftrightarrow>
     (\<exists>d e stored pw (w :: 'w \<times> 'v) w'.
        dn_parse name = Inr d \<and> get_entry_at L st d w = Some (Returned (Inr (Some e)), w') \<and>
        first_value e USER_PASSWORD_ATTR = Some stored \<and> verify_password S pw stored = Some (Inr True))"

definition identity_ok :: "('w, 'h) libs \<Rightarrow> 'h store \<Rightarrow> 'v ossl option \<Rightarrow> string \<Rightarrow> bool" where
  "identity_ok L st fips i \<longleftrightarrow>
     (\<exists>S. fips = Some S \<and>
        ((\<exists>name. i = ''dn:'' @ name \<and> password_checked L st S name) \<or>
         (\<exists>p k e response plain. i = ''u:'' @ p \<and> accepted_by L st S k e p \<and> gss_unwrap S e k 24 response = Inr plain)))"

lemma accepted_byI:
  fixes S :: "'v ossl" and w :: "'w \<times> 'v"
  shows "parse_ap_req (lib_krb L) token = Inr req \<Longrightarrow>
   lookup_service_keys L st any_dn (tkt_sname (apq_ticket req)) (realm_to_string (tkt_realm (apq_ticket req))) w =
     Some (Returned (Some ks), w') \<Longrightarrow>
   request_genuine S (lib_krb L) clock req ks v \<Longrightarrow>
   accepted_by L st S (base_key v) (vr_enctype v) (client_principal_of (vr_ticket v))"
  unfolding accepted_by_def by blast

lemma password_checkedI:
  fixes S :: "'v ossl" and w :: "'w \<times> 'v"
  shows "dn_parse name = Inr d \<Longrightarrow> get_entry_at L st d w = Some (Returned (Inr (Some e)), w') \<Longrightarrow>
   first_value e USER_PASSWORD_ATTR = Some stored \<Longrightarrow> verify_password S pw stored = Some (Inr True) \<Longrightarrow>
   password_checked L st S name"
  unfolding password_checked_def by blast

fun layer_ok :: "('w, 'h) libs \<Rightarrow> 'h store \<Rightarrow> 'v ossl option \<Rightarrow> sasl_state \<Rightarrow> bool" where
  "layer_ok L st fips Sasl_None = True"
| "layer_ok L st fips (AwaitingApRepAck k e p) = (\<exists>S. fips = Some S \<and> accepted_by L st S k e p)"
| "layer_ok L st fips (AwaitingSecurityLayerAck k e p) = (\<exists>S. fips = Some S \<and> accepted_by L st S k e p)"
| "layer_ok L st fips (SecurityLayerActive k e sealed n) = (\<exists>S p. fips = Some S \<and> accepted_by L st S k e p)"

lemma same_layer_ok: "same_layer x y \<Longrightarrow> layer_ok L st fips x \<Longrightarrow> layer_ok L st fips y"
  by (cases x; cases y) auto

lemma accept_accepted:
  assumes "accept S (lib_krb L) clock tok (lookup_service_keys L st any_dn) w = Some (Returned (Inr acc), w')"
  shows "accepted_by L st S (acc_session_key acc) (acc_enctype acc) (acc_client_principal acc)"
  using assms
  by (auto simp: accept_def elim!: bind_procE dest!: open_request_genuine split: sum.splits option.splits)
    (erule (2) accepted_byI)

lemma sasl_bind_ok:
  assumes "handle_sasl_bind L st fips clock mech creds state w = Some (Returned (resp, identity, state'), w')"
    and "layer_ok L st fips state"
  shows "layer_ok L st fips state'" "\<And>i. identity = Some i \<Longrightarrow> identity_ok L st fips i"
proof -
  have "layer_ok L st fips state' \<and> (\<forall>i. identity = Some i \<longrightarrow> identity_ok L st fips i)"
    using assms
    by (cases state; auto simp: handle_sasl_bind_def accept_token_def send_challenge_def choose_layer_def Let_def identity_ok_def
        elim!: bind_procE split: if_splits option.splits list.splits sum.splits) (erule accept_accepted)+
  then show "layer_ok L st fips state'" "\<And>i. identity = Some i \<Longrightarrow> identity_ok L st fips i" by auto
qed

lemma bind_ok:
  assumes "handle_bind L st fips clock req state w = Some (Returned (resp, identity, state'), w')"
    and "layer_ok L st fips state"
  shows "layer_ok L st fips state'" "\<And>i. identity = Some i \<Longrightarrow> identity_ok L st fips i"
proof -
  have "layer_ok L st fips state' \<and> (\<forall>i. identity = Some i \<longrightarrow> identity_ok L st fips i)"
  proof (cases "bq_auth req")
    case (Simple pw)
    then show ?thesis
      using assms
      by (auto simp: handle_bind_def authenticate_simple_def identity_ok_def
          elim!: bind_procE split: if_splits option.splits sum.splits) (erule (3) password_checkedI)+
  next
    case (Sasl m c)
    show ?thesis
    proof (cases "bq_version req = 3")
      case True
      with Sasl assms(1) have "handle_sasl_bind L st fips clock m c state w = Some (Returned (resp, identity, state'), w')"
        by (simp add: handle_bind_def)
      from sasl_bind_ok [OF this assms(2)] show ?thesis by blast
    qed (use assms in \<open>simp add: handle_bind_def\<close>)
  qed (use assms in \<open>auto simp: handle_bind_def split: if_splits\<close>)
  then show "layer_ok L st fips state'" "\<And>i. identity = Some i \<Longrightarrow> identity_ok L st fips i" by auto
qed

definition session_ok :: "('w, 'h) libs \<Rightarrow> ('h, 'v) app_state \<Rightarrow> session \<Rightarrow> bool" where
  "session_ok L A s \<longleftrightarrow>
     layer_ok L (app_store A) (app_fips A) (ss_sasl s) \<and>
     (\<forall>i. ss_identity s = Some i \<longrightarrow> identity_ok L (app_store A) (app_fips A) i)"

text \<open>
  The states a connection can be in after a message. Other connections may change the store between
  any two messages, so each is handled in an arbitrary world.
\<close>

inductive reachable :: "('w, 'h) libs \<Rightarrow> ('h, 'v) app_state \<Rightarrow> tls_acceptor option \<Rightarrow> session \<Rightarrow> bool"
  for L :: "('w, 'h) libs" and A :: "('h, 'v) app_state" and acceptor :: "tls_acceptor option" where
  start: "reachable L A acceptor (new_session ins faults)"
| message:
    "reachable L A acceptor s \<Longrightarrow> read_next_message L (app_fips A) s = (Inr (Some msg), s') \<Longrightarrow>
     handle_message L A acceptor clock msg s' w = Some (Returned r, w') \<Longrightarrow>
     reachable L A acceptor ((case_sum id id r)\<lparr>ss_turn := Suc (ss_turn s)\<rparr>)"

lemma read_next_session_ok: "read_next_message L fips s = (r, s') \<Longrightarrow> session_ok L A s' = session_ok L A s"
  by (auto simp: read_next_message_def put_input_def session_ok_def
      split: sasl_state.splits option.splits prod.splits sum.splits)

lemma handle_message_session_ok:
  assumes "session_ok L A s" "handle_message L A acceptor clock msg s w = Some (Returned r, w')"
  shows "session_ok L A (case_sum id id r)"
  using assms(2)
proof (cases rule: handle_message_cases)
  case (bind req)
  from bind(2) show ?thesis
  proof (rule on_bind_kept)
    fix resp identity state' v
    assume run: "handle_bind L (app_store A) (app_fips A) clock req (ss_sasl s) w =
        Some (Returned (resp, identity, state'), v)"
      and st: "ss_sasl (case_sum id id r) = state'"
      "ss_identity (case_sum id id r) = (if br_code resp \<noteq> SaslBindInProgress then identity else ss_identity s)"
    have "layer_ok L (app_store A) (app_fips A) (ss_sasl s)" using assms(1) by (simp add: session_ok_def)
    from bind_ok [OF run this] show ?thesis using assms(1) st by (simp add: session_ok_def)
  qed
qed (use assms(1) in \<open>auto simp: only_sent_def upgraded_def session_ok_def intro: same_layer_ok\<close>)


section \<open>Upgrading\<close>

fun active :: "sasl_state \<Rightarrow> bool" where
  "active (SecurityLayerActive k e sealed n) = True"
| "active _ = False"

lemma send_plain:
  assumes "\<not> active state" "cn_faults c = []" "ber_encode (lib_ldap L) m = Inr bs"
  shows "send_response L fips state m c w = Some (Returned (Inr (), state, c\<lparr>cn_out := cn_out c @ [(cn_tls c, bs)]\<rparr>), w)"
  using assms
  by (cases state)
    (auto simp: send_response_def write_message_def conn_write_def and_then_def lift_call_def map_err_def drop_error_def
      return_proc_def)

definition sent :: "session \<Rightarrow> bytes list \<Rightarrow> session" where
  "sent s fs = s\<lparr>ss_conn := (ss_conn s)\<lparr>cn_out := cn_out (ss_conn s) @ map (Pair (cn_tls (ss_conn s))) fs\<rparr>\<rparr>"

lemma sent_simps [simp]:
  "ss_sasl (sent s fs) = ss_sasl s" "ss_buf (sent s fs) = ss_buf s" "ss_identity (sent s fs) = ss_identity s"
  "cn_in (ss_conn (sent s fs)) = cn_in (ss_conn s)" "cn_tls (ss_conn (sent s fs)) = cn_tls (ss_conn s)"
  "cn_faults (ss_conn (sent s fs)) = cn_faults (ss_conn s)" "ss_turn (sent s fs) = ss_turn s"
  "cn_out (ss_conn (sent s fs)) = cn_out (ss_conn s) @ map (Pair (cn_tls (ss_conn s))) fs"
  "s\<lparr>ss_conn := ss_conn (sent s fs)\<rparr> = sent s fs" "sent s [] = s" "sent (sent s fs) gs = sent s (fs @ gs)"
  by (simp_all add: sent_def)

lemma reply_plain:
  assumes "\<not> active (ss_sasl s)" "cn_faults (ss_conn s) = []" "\<And>x. x \<in> set xs \<Longrightarrow> ber_encode (lib_ldap L) \<lparr>msg_id = i, msg_op = x\<rparr> = Inr (enc x)"
  shows "reply L fips i xs s w = Some (Returned (Inr (sent s (map enc xs))), w)"
  using assms
proof (induction xs arbitrary: s)
  case (Cons x xs)
  have "send_response L fips (ss_sasl s) \<lparr>msg_id = i, msg_op = x\<rparr> (ss_conn s) w =
      Some (Returned (Inr (), ss_sasl s, ss_conn (sent s [enc x])), w)"
    using send_plain [OF Cons.prems(1,2) Cons.prems(3) [of x]] by (simp add: sent_def)
  moreover have "reply L fips i xs (sent s [enc x]) w = Some (Returned (Inr (sent (sent s [enc x]) (map enc xs))), w)"
    by (rule Cons.IH) (use Cons.prems in auto)
  ultimately show ?case by (simp add: reply.simps(2) bind_proc_def)
qed (simp add: return_proc_def)

lemma read_next_plain:
  assumes "\<not> active (ss_sasl s)" "ber_frame_len f = Inr (Some (length f))" "ber_decode (lib_ldap L) f = Inr m"
  shows "read_next_message L fips (put_input s (Inr (f @ x) # rest) []) = (Inr (Some m), put_input s rest x)"
proof -
  have "f \<noteq> []" using assms(2) ber.flen_Nil by auto
  have "fill ber_frame_len (Inr (f @ x) # rest) [] = fill ber_frame_len rest (f @ x)"
    using \<open>f \<noteq> []\<close> by (simp add: complete_def ber.flen_Nil)
  also have "complete ber_frame_len (f @ x) = Some (Inr (length f))"
    using ber.flen_known [OF assms(2)] by (simp add: complete_def)
  then have "fill ber_frame_len rest (f @ x) = (Inr (Some (length f)), rest, f @ x)"
    by (cases rest) simp_all
  finally have "read_message (lib_ldap L) (Inr (f @ x) # rest) [] = (Inr (Some m), rest, x)"
    using assms(3) by (simp add: read_message_def read_framed_def)
  then show ?thesis
    using assms(1) by (cases "ss_sasl s") (simp_all add: read_next_message_def put_input_def)
qed

definition after_handshake :: "session \<Rightarrow> reads \<Rightarrow> session" where
  "after_handshake s ins = s\<lparr>ss_conn := (ss_conn s)\<lparr>cn_tls := True, cn_in := ins\<rparr>, ss_buf := []\<rparr>"

lemma on_starttls_ok:
  assumes "\<not> active (ss_sasl s)" "\<not> cn_tls (ss_conn s)" "cn_faults (ss_conn s) = []"
    and "ber_encode (lib_ldap L) \<lparr>msg_id = i, msg_op = extended_resp Success (Text []) (Some STARTTLS_OID) None\<rparr> = Inr bs"
    and "acceptor (cn_in (ss_conn s)) = Inr ins"
  shows "on_starttls L fips (Some acceptor) i s w = Some (Returned (Inr (after_handshake (sent s [bs]) ins)), w)"
proof -
  let ?t = "sent s [bs]"
  have r: "reply L fips i [extended_resp Success (Text []) (Some STARTTLS_OID) None] s w = Some (Returned (Inr ?t), w)"
    using reply_plain [of s "[extended_resp Success (Text []) (Some STARTTLS_OID) None]" L i "\<lambda>_. bs"] assms(1,3,4) by simp
  have up: "upgrade_to_tls (ss_conn ?t) acceptor = Inr ((ss_conn ?t)\<lparr>cn_tls := True, cn_in := ins\<rparr>)"
    using assms(2,5) by (simp add: upgrade_to_tls_def)
  have "starttls_answer (ss_conn s) (Some acceptor) = (Success, [])"
    using assms(2) by (simp add: starttls_answer_def)
  then show ?thesis
    using r up by (simp add: on_starttls_def bind_proc_def upgrade_def return_proc_def after_handshake_def del: sent_simps)
qed

lemma after_handshake_input: "after_handshake (sent (put_input s rest x) [bs]) ins = after_handshake (sent (put_input s [] []) [bs]) ins"
  by (simp add: after_handshake_def sent_def put_input_def)

text \<open>
  C2: Nothing sent in the clear is taken for protected traffic. When a client asks for StartTLS and the
  handshake succeeds, the rest of the connection does not depend on octets that arrived with the
  request: whatever an attacker appends to it, the server reads its next message from inside the TLS
  session, and the run is the same, result and effects on the store alike.
\<close>
theorem starttls_discards_plaintext:
  assumes "\<not> active (ss_sasl s)" "\<not> cn_tls (ss_conn s)" "cn_faults (ss_conn s) = []"
    and "ber_frame_len f = Inr (Some (length f))"
    and "ber_decode (lib_ldap L) f = Inr \<lparr>msg_id = i, msg_op = ExtendedReq \<lparr>xq_name = STARTTLS_OID, xq_value = v\<rparr>\<rparr>"
    and "ber_encode (lib_ldap L) \<lparr>msg_id = i, msg_op = extended_resp Success (Text []) (Some STARTTLS_OID) None\<rparr> = Inr bs"
    and "acceptor rest = Inr ins"
  shows "serve_loop L A (Some acceptor) clock (put_input s (Inr (f @ injected) # rest) []) w =
    serve_loop L A (Some acceptor) clock (put_input s (Inr f # rest) []) w"
proof -
  let ?resp = "extended_resp Success (Text []) (Some STARTTLS_OID) None"
  let ?msg = "\<lparr>msg_id = i, msg_op = ExtendedReq \<lparr>xq_name = STARTTLS_OID, xq_value = v\<rparr>\<rparr>"
  have rd: "read_next_message L (app_fips A) (put_input s (Inr (f @ x) # rest) []) = (Inr (Some ?msg), put_input s rest x)" for x
    by (rule read_next_plain [OF assms(1,4,5)])
  have run: "handle_message L A (Some acceptor) c ?msg (put_input s rest x) w =
      Some (Returned (Inr (after_handshake (sent (put_input s [] []) [bs]) ins)), w)" for x c
  proof -
    have "on_starttls L (app_fips A) (Some acceptor) i (put_input s rest x) w =
        Some (Returned (Inr (after_handshake (sent (put_input s rest x) [bs]) ins)), w)"
      by (rule on_starttls_ok) (use assms in \<open>simp_all add: put_input_def\<close>)
    then show ?thesis unfolding after_handshake_input [of s rest x] by (simp add: handle_message_def on_extended_def)
  qed
  have step: "serve_loop L A (Some acceptor) clock (put_input s (Inr (f @ x) # rest) []) w =
      serve_loop L A (Some acceptor) clock
        ((after_handshake (sent (put_input s [] []) [bs]) ins)\<lparr>ss_turn := Suc (ss_turn s)\<rparr>) w" for x
  proof -
    have "ss_turn (put_input s (Inr (f @ x) # rest) []) = ss_turn s" by (simp add: put_input_def)
    then show ?thesis
      by (subst serve_loop.simps) (simp only: rd run prod.case sum.case option.case bind.bind_lunit outcome.case)
  qed
  show ?thesis using step [of injected] step [of "[]"] by simp
qed

section \<open>Answering\<close>

definition answers :: "protocol_op \<Rightarrow> protocol_op \<Rightarrow> bool" where
  "answers q x =
     (case q of
        BindRequest _ \<Rightarrow> (case x of BindResponse _ \<Rightarrow> True | _ \<Rightarrow> False)
      | SearchRequest _ \<Rightarrow> (case x of SearchResDone _ \<Rightarrow> True | _ \<Rightarrow> False)
      | AddRequest _ \<Rightarrow> (case x of AddResponse _ \<Rightarrow> True | _ \<Rightarrow> False)
      | DelRequest _ \<Rightarrow> (case x of DelResponse _ \<Rightarrow> True | _ \<Rightarrow> False)
      | ModifyRequest _ \<Rightarrow> (case x of ModifyResponse _ \<Rightarrow> True | _ \<Rightarrow> False)
      | CompareRequest _ \<Rightarrow> (case x of CompareResponse _ \<Rightarrow> True | _ \<Rightarrow> False)
      | ModDnRequest _ \<Rightarrow> (case x of ModDnResponse _ \<Rightarrow> True | _ \<Rightarrow> False)
      | ExtendedReq _ \<Rightarrow> (case x of ExtendedResp _ \<Rightarrow> True | _ \<Rightarrow> False)
      | _ \<Rightarrow> False)"

definition is_request :: "protocol_op \<Rightarrow> bool" where
  "is_request q =
     (case q of
        BindRequest _ \<Rightarrow> True | SearchRequest _ \<Rightarrow> True | AddRequest _ \<Rightarrow> True | DelRequest _ \<Rightarrow> True
      | ModifyRequest _ \<Rightarrow> True | CompareRequest _ \<Rightarrow> True | ModDnRequest _ \<Rightarrow> True | ExtendedReq _ \<Rightarrow> True
      | _ \<Rightarrow> False)"

lemma candidates_done:
  assumes "search_candidates L st scope d refs w = Some (Returned (Inl xs), w')"
  shows "\<exists>r. xs = [SearchResDone r]"
  using assms
  by (cases scope)
    (auto simp: search_candidates_def done_op_def done_store_error_def elim!: bind_procE split: sum.splits option.splits)

lemma search_done:
  assumes "handle_search L st req refs fips w = Some (Returned xs, w')"
  shows "xs \<noteq> [] \<and> (\<exists>r. last xs = SearchResDone r)"
proof (cases "dn_parse (sq_base req)")
  case (Inl e)
  then show ?thesis using assms by (simp add: handle_search_def done_op_def)
next
  case (Inr d)
  show ?thesis
  proof (cases "is_empty d \<and> sq_scope req = BaseObject \<or> proactive_referral refs d \<noteq> None")
    case True
    then show ?thesis
      using assms Inr by (auto simp: handle_search_def done_op_def done_result_def Let_def split: if_splits)
  next
    case False
    then obtain r where "search_candidates L st (sq_scope req) d refs w = Some (Returned r, w')"
      and xs: "xs = (case r of Inl ops \<Rightarrow> ops
        | Inr rows \<Rightarrow> search_loop (\<lambda>e. matches (lib_unicode L) e (sq_filter req)) (result_entry (lib_base64 L) req)
            (search_limit (sq_size_limit req)) 0 [] rows)"
      using assms Inr by (auto simp: handle_search_def elim!: bind_procE)
    then show ?thesis
      using candidates_done by (cases r) (fastforce, simp add: search_loop_result done_op_def)
  qed
qed

text \<open>
  A run that answers: it ends, and unless a handler panics, what was written are the encodings of
  responses with the message's number, the last of which is of the kind the request calls for.
\<close>

definition answered ::
  "(ldap_message \<Rightarrow> bytes) \<Rightarrow> ldap_message \<Rightarrow> session \<Rightarrow> ((session + session) outcome \<times> 'x) option \<Rightarrow> bool" where
  "answered enc msg s run \<longleftrightarrow>
     (\<exists>u. run = Some (Panicked, u)) \<or>
     (\<exists>r u xs. run = Some (Returned r, u) \<and> xs \<noteq> [] \<and> answers (msg_op msg) (last xs) \<and>
        cn_out (ss_conn (case_sum id id r)) =
          cn_out (ss_conn s) @ map (\<lambda>x. (cn_tls (ss_conn s), enc \<lparr>msg_id = msg_id msg, msg_op = x\<rparr>)) xs)"

lemma answeredI:
  "run = Some (Returned r, u) \<Longrightarrow> xs \<noteq> [] \<Longrightarrow> answers (msg_op msg) (last xs) \<Longrightarrow>
   cn_out (ss_conn (case_sum id id r)) =
     cn_out (ss_conn s) @ map (\<lambda>x. (cn_tls (ss_conn s), enc \<lparr>msg_id = msg_id msg, msg_op = x\<rparr>)) xs \<Longrightarrow>
   answered enc msg s run"
  unfolding answered_def by blast

lemma answered_reply:
  assumes "\<not> active (ss_sasl s)" "cn_faults (ss_conn s) = []" "\<And>m. ber_encode (lib_ldap L) m = Inr (enc m)"
    and "xs \<noteq> []" "answers (msg_op msg) (last xs)"
  shows "answered enc msg s (reply L fips (msg_id msg) xs s w)"
  using reply_plain [OF assms(1,2), of xs L "msg_id msg" "\<lambda>x. enc \<lparr>msg_id = msg_id msg, msg_op = x\<rparr>"] assms(3-5)
  by (intro answeredI [where r = "Inr (sent s (map (\<lambda>x. enc \<lparr>msg_id = msg_id msg, msg_op = x\<rparr>) xs))" and xs = xs])
    (simp_all add: comp_def)

lemma answered_bind:
  assumes "ends m" "\<And>x v. m w = Some (Returned x, v) \<Longrightarrow> answered enc msg s (f x v)"
  shows "answered enc msg s (bind_proc m f w)"
proof -
  obtain r v where r: "m w = Some (r, v)" using assms(1) unfolding ends_def by (metis not_None_eq surj_pair)
  show ?thesis
  proof (cases r)
    case Panicked
    then show ?thesis using r by (simp add: bind_proc_def answered_def)
  next
    case (Returned x)
    then show ?thesis using r assms(2) by (simp add: bind_proc_def)
  qed
qed

lemma answered_on_bind:
  assumes "\<not> active (ss_sasl s)" "cn_faults (ss_conn s) = []" "\<And>m. ber_encode (lib_ldap L) m = Inr (enc m)"
    and "msg_op msg = BindRequest req"
  shows "answered enc msg s (on_bind L A clock (msg_id msg) req s w)"
  unfolding on_bind_def Let_def
proof (rule answered_bind)
  fix x :: bind_outcome and v
  obtain resp identity state' where x: "x = (resp, identity, state')" by (cases x)
  note send = send_plain [OF assms(1,2,3), of "app_fips A" "\<lparr>msg_id = msg_id msg, msg_op = BindResponse resp\<rparr>" v]
  show "answered enc msg s
      ((case x of (resp, identity, state') \<Rightarrow>
          bind_proc (send_response L (app_fips A) (ss_sasl s) \<lparr>msg_id = msg_id msg, msg_op = BindResponse resp\<rparr>
             (ss_conn (s\<lparr>ss_sasl := state', ss_identity :=
               (if br_code resp \<noteq> SaslBindInProgress then identity else ss_identity s)\<rparr>)))
           (\<lambda>(r, _, c). return_proc
              (case r of
                 Inl _ \<Rightarrow> Inl (s\<lparr>ss_sasl := state', ss_identity :=
                   (if br_code resp \<noteq> SaslBindInProgress then identity else ss_identity s), ss_conn := c\<rparr>)
               | Inr _ \<Rightarrow> Inr (s\<lparr>ss_sasl := state', ss_identity :=
                   (if br_code resp \<noteq> SaslBindInProgress then identity else ss_identity s), ss_conn := c\<rparr>)))) v)"
    by (rule answeredI [where xs = "[BindResponse resp]"]) (auto simp: x send bind_proc_def return_proc_def assms(4) answers_def)
qed (intro ends_intros)

lemma upgrade_out:
  assumes "acceptor \<noteq> None"
  shows "\<exists>q. upgrade acceptor s w = Some (Returned q, w) \<and> cn_out (ss_conn (case_sum id id q)) = cn_out (ss_conn s)"
proof -
  obtain a where a: "acceptor = Some a" using assms by blast
  show ?thesis
  proof (cases "upgrade_to_tls (ss_conn s) a")
    case (Inl e)
    then show ?thesis using a by (intro exI [of _ "Inl s"]) (simp add: upgrade_def return_proc_def)
  next
    case (Inr c)
    then have "cn_out c = cn_out (ss_conn s)"
      by (auto simp: upgrade_to_tls_def map_sum_eq_Inr split: if_splits)
    then show ?thesis
      using a Inr by (intro exI [of _ "Inr (s\<lparr>ss_conn := c, ss_buf := []\<rparr>)"]) (simp add: upgrade_def return_proc_def)
  qed
qed

lemma answered_on_starttls:
  assumes "\<not> active (ss_sasl s)" "cn_faults (ss_conn s) = []" "\<And>m. ber_encode (lib_ldap L) m = Inr (enc m)"
    and "msg_op msg = ExtendedReq req"
  shows "answered enc msg s (on_starttls L fips acceptor (msg_id msg) s w)"
proof -
  let ?x = "extended_resp (fst (starttls_answer (ss_conn s) acceptor)) (Text (snd (starttls_answer (ss_conn s) acceptor)))
    (Some STARTTLS_OID) None"
  have r: "reply L fips (msg_id msg) [?x] s w =
      Some (Returned (Inr (sent s [enc \<lparr>msg_id = msg_id msg, msg_op = ?x\<rparr>])), w)"
    using reply_plain [OF assms(1,2), of "[?x]" L "msg_id msg" "\<lambda>x. enc \<lparr>msg_id = msg_id msg, msg_op = x\<rparr>"] assms(3)
    by simp
  have acc: "acceptor \<noteq> None" if "fst (starttls_answer (ss_conn s) acceptor) = Success"
    using that by (auto simp: starttls_answer_def split: if_splits option.splits)
  have "\<exists>q. on_starttls L fips acceptor (msg_id msg) s w = Some (Returned q, w) \<and>
      cn_out (ss_conn (case_sum id id q)) = cn_out (ss_conn s) @ [(cn_tls (ss_conn s), enc \<lparr>msg_id = msg_id msg, msg_op = ?x\<rparr>)]"
  proof (cases "fst (starttls_answer (ss_conn s) acceptor) = Success")
    case True
    then show ?thesis
      using r upgrade_out [OF acc [OF True], of "sent s [enc \<lparr>msg_id = msg_id msg, msg_op = ?x\<rparr>]" w]
      by (simp add: on_starttls_def Let_def case_prod_beta bind_proc_def)
  qed (simp add: on_starttls_def Let_def case_prod_beta bind_proc_def r return_proc_def)
  then obtain q where "on_starttls L fips acceptor (msg_id msg) s w = Some (Returned q, w)"
    "cn_out (ss_conn (case_sum id id q)) = cn_out (ss_conn s) @ [(cn_tls (ss_conn s), enc \<lparr>msg_id = msg_id msg, msg_op = ?x\<rparr>)]"
    by blast
  then show ?thesis
    by (intro answeredI [where r = q and xs = "[?x]"]) (simp_all add: assms(4) answers_def extended_resp_def)
qed


section \<open>Sequence numbers\<close>

lemma drop_error_Inr [simp]: "drop_error r = Inr x \<longleftrightarrow> r = Inr x" "Inr x = drop_error r \<longleftrightarrow> r = Inr x"
  by (cases r; auto simp: drop_error_def)+

lemma gss_wrap_seq:
  assumes "gss_wrap S e k u sealed n p v = (Inr t, v')"
  shows "take 8 (drop 8 t) = to_be 8 n"
  using assms
  by (auto simp: gss_wrap_def Let_def wrap_header_def TOK_ID_WRAP_def and_then_def map_err_def ok_call_def lift_call_def
      bind_res_eq_Inr split: if_splits prod.splits sum.splits)

text \<open>A wrapped response on the stream: its length, then the token, whose number is at octet 8.\<close>

definition token_number :: "bytes \<Rightarrow> u64" where
  "token_number t = of_be (take 8 (drop 8 t))"

definition token_writes :: "bool \<Rightarrow> bytes \<Rightarrow> (bool \<times> bytes) list" where
  "token_writes tls_on t = [(tls_on, to_be 4 (of_nat (length t) :: u32)), (tls_on, t)]"

lemma send_active:
  assumes "send_response L (Some S) (SecurityLayerActive k e sealed n) m c w = Some (Returned (Inr (), state, c'), w')"
  obtains t where "token_number t = n" "state = SecurityLayerActive k e sealed (n + 1)"
    "cn_out c' = cn_out c @ token_writes (cn_tls c) t"
proof -
  obtain plain t v where wrap: "gss_wrap S e k 22 sealed n plain v = (Inr t, snd w')"
    and st: "state = SecurityLayerActive k e sealed (n + 1)"
    and wr: "write_sized_buffer conn_write t c = (Inr (), c')"
    using assms
    by (auto simp: send_response_def Let_def elim!: bind_procE
        split: sum.splits prod.splits)
  have "token_number t = n"
    using gss_wrap_seq [OF wrap] by (simp add: token_number_def)
  moreover have "cn_out c' = cn_out c @ token_writes (cn_tls c) t"
    using wr
    by (auto simp: write_sized_buffer_def and_then_def map_err_def conn_write_def token_writes_def
        split: sum.splits prod.splits list.splits option.splits)
  ultimately show thesis using that st by blast
qed

lemma reply_active:
  assumes "reply L (Some S) i xs s w = Some (Returned (Inr s'), w')" "ss_sasl s = SecurityLayerActive k e sealed n"
  shows "\<exists>ts. length ts = length xs \<and> map token_number ts = map (\<lambda>j. n + of_nat j) [0..<length xs] \<and>
    cn_out (ss_conn s') = cn_out (ss_conn s) @ concat (map (token_writes (cn_tls (ss_conn s))) ts) \<and>
    ss_sasl s' = SecurityLayerActive k e sealed (n + of_nat (length xs))"
  using assms
proof (induction xs arbitrary: s n w)
  case (Cons x xs)
  from Cons.prems(1) obtain r state c u where
    send: "send_response L (Some S) (ss_sasl s) \<lparr>msg_id = i, msg_op = x\<rparr> (ss_conn s) w = Some (Returned (r, state, c), u)"
    and rest: "(case r of Inl _ \<Rightarrow> return_proc (Inl (s\<lparr>ss_sasl := state, ss_conn := c\<rparr>))
        | Inr _ \<Rightarrow> reply L (Some S) i xs (s\<lparr>ss_sasl := state, ss_conn := c\<rparr>)) u = Some (Returned (Inr s'), w')"
    by (auto simp: reply.simps(2) Let_def elim!: bind_procE)
  have "r = Inr ()" using rest by (cases r) simp_all
  with send Cons.prems(2) obtain t where t: "token_number t = n" "state = SecurityLayerActive k e sealed (n + 1)"
    "cn_out c = cn_out (ss_conn s) @ token_writes (cn_tls (ss_conn s)) t"
    using send_active by metis
  have tls: "cn_tls c = cn_tls (ss_conn s)" using send_response_kept(2) [OF send] .
  obtain ts where ts: "length ts = length xs" "map token_number ts = map (\<lambda>j. n + 1 + of_nat j) [0..<length xs]"
    "cn_out (ss_conn s') = cn_out c @ concat (map (token_writes (cn_tls c)) ts)"
    "ss_sasl s' = SecurityLayerActive k e sealed (n + 1 + of_nat (length xs))"
    using Cons.IH [of "s\<lparr>ss_sasl := state, ss_conn := c\<rparr>" u "n + 1"] rest \<open>r = Inr ()\<close> t(2) by auto
  have "map token_number (t # ts) = map (\<lambda>j. n + of_nat j) [0..<length (x # xs)]"
    using t(1) ts(2) by (simp add: map_upt_Suc add.assoc del: upt_Suc)
  then show ?case
    using ts t(3) tls by (intro exI [of _ "t # ts"]) (simp add: add.assoc)
qed simp

lemma on_starttls_reply:
  assumes "on_starttls L fips acceptor i s w = Some (Returned (Inr s'), w')"
  shows "\<exists>xs s1 v. reply L fips i xs s w = Some (Returned (Inr s1), v) \<and>
      cn_out (ss_conn s') = cn_out (ss_conn s1) \<and> ss_sasl s' = ss_sasl s1"
proof -
  let ?a = "starttls_answer (ss_conn s) acceptor"
  obtain q u where q: "reply L fips i [extended_resp (fst ?a) (Text (snd ?a)) (Some STARTTLS_OID) None] s w = Some (Returned q, u)"
    and rest: "(case q of Inl s' \<Rightarrow> return_proc (Inl s')
        | Inr s1 \<Rightarrow> if fst ?a = Success then upgrade acceptor s1 else return_proc (Inr s1)) u = Some (Returned (Inr s'), w')"
    using assms by (auto simp: on_starttls_def Let_def case_prod_beta elim!: bind_procE)
  from rest obtain s1 where q': "q = Inr s1" by (cases q) auto
  have "cn_out (ss_conn s') = cn_out (ss_conn s1) \<and> ss_sasl s' = ss_sasl s1"
    using rest
    by (auto simp: q' upgrade_def upgrade_to_tls_def or_panic_def map_sum_eq_Inr split: if_splits option.splits sum.splits)
  then show ?thesis using q q' by blast
qed

lemma bind_reply:
  "bind_proc m (\<lambda>r. reply L fips i (f r) s) w = Some (Returned (Inr s'), w') \<Longrightarrow>
   \<exists>xs u v. reply L fips i xs s u = Some (Returned (Inr s'), v)"
  by (erule bind_procE) blast

text \<open>Every message but a bind is answered through the current state of the layer.\<close>

lemma handle_message_reply:
  assumes "handle_message L A acceptor clock msg s w = Some (Returned (Inr s'), w')" "\<And>req. msg_op msg \<noteq> BindRequest req"
  obtains (replied) xs u s1 v where "reply L (app_fips A) (msg_id msg) xs s u = Some (Returned (Inr s1), v)"
    "cn_out (ss_conn s') = cn_out (ss_conn s1)" "ss_sasl s' = ss_sasl s1"
proof -
  have direct: thesis if "reply L (app_fips A) (msg_id msg) xs s u = Some (Returned (Inr s'), v)" for xs u v
    using replied [OF that] by simp
  have none: thesis if "s' = s"
    using direct [of "[]" w w] that by (simp add: return_proc_def)
  have ext: thesis if "on_extended L A acceptor (msg_id msg) req s w = Some (Returned (Inr s'), w')" for req
  proof (cases "xq_name req = STARTTLS_OID")
    case True
    then have "on_starttls L (app_fips A) acceptor (msg_id msg) s w = Some (Returned (Inr s'), w')"
      using that by (simp add: on_extended_def)
    from on_starttls_reply [OF this] show thesis
      using replied by blast
  next
    case False
    then show thesis
      using that direct by (auto simp: on_extended_def dest!: bind_reply split: if_splits)
  qed
  show thesis
    using assms direct
    by (cases "msg_op msg") (auto simp: handle_message_def Let_def intro: ext none dest!: bind_reply)
qed

text \<open>
  C11: Under a negotiated security layer the wrapped responses carry consecutive sequence numbers. For
  every message but a bind, the tokens written, each after its length, are numbered from the counter
  on, as many as there are responses, and the counter ends one past the last, wrapping at 64 bits; key,
  encryption type and protection level stay as negotiated.
\<close>
theorem layer_numbers_consecutive:
  assumes "app_fips A = Some S" "ss_sasl s = SecurityLayerActive k e sealed n"
    and "handle_message L A acceptor clock msg s w = Some (Returned (Inr s'), w')"
    and "\<And>req. msg_op msg \<noteq> BindRequest req"
  shows "\<exists>ts. map token_number ts = map (\<lambda>j. n + of_nat j) [0..<length ts] \<and>
    cn_out (ss_conn s') = cn_out (ss_conn s) @ concat (map (token_writes (cn_tls (ss_conn s))) ts) \<and>
    ss_sasl s' = SecurityLayerActive k e sealed (n + of_nat (length ts))"
  using assms(3,4)
proof (cases rule: handle_message_reply)
  case (replied xs u s1 v)
  from reply_active [OF replied(1) [unfolded assms(1)] assms(2)] show ?thesis
    using replied(2,3) by metis
qed

text \<open>
  C12: A bind through an active security layer repeats a sequence number. The refusal of a second GSSAPI
  bind is wrapped with the number the counter holds, but the counter that is advanced is a copy: the
  session keeps the old one, so the next response is wrapped with the same number, which a strict
  client drops as a replay.
\<close>
theorem rebind_repeats_number:
  assumes "app_fips A = Some S" "ss_sasl s = SecurityLayerActive k e sealed n"
    and "msg_op msg = BindRequest \<lparr>bq_version = 3, bq_name = name, bq_auth = Sasl ''GSSAPI'' creds\<rparr>"
    and "handle_message L A acceptor clock msg s w = Some (Returned (Inr s'), w')"
  shows "\<exists>t. token_number t = n \<and> cn_out (ss_conn s') = cn_out (ss_conn s) @ token_writes (cn_tls (ss_conn s)) t \<and>
    ss_sasl s' = SecurityLayerActive k e sealed n"
proof -
  obtain resp state c u where
    send: "send_response L (Some S) (SecurityLayerActive k e sealed n) \<lparr>msg_id = msg_id msg, msg_op = BindResponse resp\<rparr>
      (ss_conn s) u = Some (Returned (Inr (), state, c), w')"
    and s': "ss_conn s' = c" "ss_sasl s' = SecurityLayerActive k e sealed n"
    using assms
    by (auto simp: handle_message_def on_bind_def handle_bind_def handle_sasl_bind_def Let_def elim!: bind_procE
        split: sum.splits)
  from send show ?thesis by (rule send_active) (use s' in auto)
qed

section \<open>Witnesses\<close>

definition demo_codec :: "ldap_message \<Rightarrow> ldap_message ber" where
  "demo_codec m =
     \<lparr>ber_decode = (\<lambda>bs. if bs = [0x30, 0] then Inr m else Inl []), ber_encode = (\<lambda>_. Inr [0x30, 0])\<rparr>"

definition wire_libs :: "ldap_message \<Rightarrow> (mem, unit) libs" where
  "wire_libs m = demo_libs\<lparr>lib_ldap := demo_codec m\<rparr>"

definition demo_app :: "(unit, nat) app_state" where
  "demo_app =
     \<lparr>app_store = demo_store, app_index_spec = demo_spec, app_fips = Some demo_ossl, app_tls_acceptor = None,
      app_referrals = [], app_topology = None, app_own_partition_id = None\<rparr>"

lemma wire_etcd: "etcd_ok (lib_etcd (wire_libs m)) mem_cont"
  using mem_etcd_ok by (simp add: wire_libs_def demo_libs_def)

theorem connection_ends_witness:
  "\<exists>result w'. handle_connection (wire_libs \<lparr>msg_id = 1, msg_op = Op_unhandled\<rparr>) demo_app None (\<lambda>_. 0)
     [Inr [0x30, 0], Inr [0x30]] [] ([], 7) = Some (result, w')"
  by (rule connection_ends [OF wire_etcd]) (simp add: wire_libs_def demo_codec_def)

definition demo_bind :: ldap_message where
  "demo_bind =
     \<lparr>msg_id = 1, msg_op = BindRequest \<lparr>bq_version = 3, bq_name = ''cn=Al,dc=lo'', bq_auth = Simple (as_bytes ''exactly8'')\<rparr>\<rparr>"

lemma demo_read:
  "read_next_message (wire_libs m) (app_fips demo_app) (new_session [Inr [0x30, 0]] []) =
     (Inr (Some m), put_input (new_session [] []) [] [])"
proof -
  have "new_session [Inr [0x30, 0]] [] = put_input (new_session [] []) (Inr ([0x30, 0] @ []) # []) []"
    by (simp add: new_session_def put_input_def)
  moreover have "ber_frame_len [0x30, 0] = Inr (Some (length [0x30, 0 :: u8]))" by code_simp
  ultimately show ?thesis
    by (simp only:) (rule read_next_plain, simp_all add: new_session_def wire_libs_def demo_codec_def)
qed

lemma wire_get: "get_entry_at (wire_libs m) st d = get_entry_at demo_libs st d"
  by (simp add: get_entry_at_def wire_libs_def)

lemma wire_bind [simp]:
  "handle_bind (wire_libs m) st fips clock
     \<lparr>bq_version = v, bq_name = n, bq_auth = Simple pw\<rparr> state =
   handle_bind demo_libs st fips clock \<lparr>bq_version = v, bq_name = n, bq_auth = Simple pw\<rparr> state"
  unfolding handle_bind_def authenticate_simple_def wire_get by simp


definition demo_extended :: "bytes \<Rightarrow> ldap_message" where
  "demo_extended oid = \<lparr>msg_id = 1, msg_op = ExtendedReq \<lparr>xq_name = oid, xq_value = None\<rparr>\<rparr>"

theorem starttls_discards_plaintext_witness:
  "serve_loop (wire_libs (demo_extended STARTTLS_OID)) demo_app (Some Inr) (\<lambda>_. 0)
     (put_input (new_session [] []) [Inr ([0x30, 0] @ [0x30, 0])] []) ([], 7) =
   serve_loop (wire_libs (demo_extended STARTTLS_OID)) demo_app (Some Inr) (\<lambda>_. 0)
     (put_input (new_session [] []) [Inr [0x30, 0]] []) ([], 7)"
proof -
  have "ber_frame_len [0x30, 0] = Inr (Some (length [0x30, 0 :: u8]))" by code_simp
  then show ?thesis
    by (intro starttls_discards_plaintext [where i = 1 and v = None and bs = "[0x30, 0]" and ins = "[]"])
      (simp_all add: new_session_def wire_libs_def demo_codec_def demo_extended_def)
qed


definition demo_active :: session where
  "demo_active =
     (new_session [] [])\<lparr>ss_sasl := SecurityLayerActive (replicate 32 1) Aes256CtsHmacSha384_192 True 1\<rparr>"

theorem layer_numbers_consecutive_witness:
  "\<exists>s' w' ts. handle_message (wire_libs (demo_extended WHOAMI_OID)) demo_app None 0 (demo_extended WHOAMI_OID)
      demo_active ([], 7) = Some (Returned (Inr s'), w') \<and> ts \<noteq> [] \<and>
    map token_number ts = map (\<lambda>j. 1 + of_nat j) [0..<length ts] \<and>
    cn_out (ss_conn s') = concat (map (token_writes False) ts)"
proof -
  let ?run = "handle_message (wire_libs (demo_extended WHOAMI_OID)) demo_app None 0 (demo_extended WHOAMI_OID)
      demo_active ([], 7)"
  have "case ?run of Some (Returned (Inr s'), w') \<Rightarrow> cn_out (ss_conn s') \<noteq> [] | _ \<Rightarrow> False" by code_simp
  then obtain s' w' where run: "?run = Some (Returned (Inr s'), w')" "cn_out (ss_conn s') \<noteq> []"
    by (auto split: option.splits prod.splits outcome.splits sum.splits)
  from layer_numbers_consecutive [of demo_app demo_ossl demo_active, OF _ _ run(1)]
  obtain ts where "map token_number ts = map (\<lambda>j. 1 + of_nat j) [0..<length ts]"
    "cn_out (ss_conn s') = concat (map (token_writes False) ts)"
    by (auto simp: demo_app_def demo_active_def new_session_def demo_extended_def)
  with run show ?thesis by (metis concat.simps(1) list.simps(8))
qed

definition demo_rebind :: ldap_message where
  "demo_rebind =
     \<lparr>msg_id = 1, msg_op = BindRequest \<lparr>bq_version = 3, bq_name = [], bq_auth = Sasl ''GSSAPI'' None\<rparr>\<rparr>"

theorem rebind_repeats_number_witness:
  "\<exists>s' w' t. handle_message (wire_libs demo_rebind) demo_app None 0 demo_rebind demo_active ([], 7) =
      Some (Returned (Inr s'), w') \<and>
    token_number t = 1 \<and> cn_out (ss_conn s') = token_writes False t \<and> ss_sasl s' = ss_sasl demo_active"
proof -
  let ?run = "handle_message (wire_libs demo_rebind) demo_app None 0 demo_rebind demo_active ([], 7)"
  have "case ?run of Some (Returned r, w') \<Rightarrow> \<not> isl r | _ \<Rightarrow> False" by code_simp
  then obtain s' w' where run: "?run = Some (Returned (Inr s'), w')"
    by (auto simp: isl_def split: option.splits prod.splits outcome.splits sum.splits) (metis sum.exhaust)
  from rebind_repeats_number [of demo_app demo_ossl demo_active, OF _ _ _ run]
  obtain t where "token_number t = 1" "cn_out (ss_conn s') = token_writes False t" "ss_sasl s' = ss_sasl demo_active"
    by (auto simp: demo_app_def demo_active_def new_session_def demo_rebind_def)
  with run show ?thesis by blast
qed

end
