(* ===== verification/Spec2Isabelle.thy ===== *)
theory Spec2Isabelle
  imports Instances Secdesc Ldap_Filter Framing Gss Md4 Jose Connection
begin

text \<open>
  Verification of the directory server.
\<close>

section \<open>The store\<close>













section \<open>Shortcomings of the stored form\<close>

text \<open>
  The key of an entry whose value holds an escaped comma is not read back as a name, so that a
  subtree scan over it fails as a whole.
\<close>
theorem comma_breaks_scan:
  "case dn_parse (''cn=Doe'' @ [CHR 0x5C] @ '', J,dc=lo'') of
     Inl _ \<Rightarrow> False
   | Inr d \<Rightarrow> isl (fst (store_scan_subtree mem_etcd hex_json demo_store demo_base
       (snd (store_put_entry mem_etcd hex_json demo_store d demo_entry demo_spec []))))"
  by code_simp


section \<open>Identifier allocation\<close>



text \<open>
  C28: An allocator that runs on its own returns after one turn of the loop: when the service answers,
  it gets the number the counter holds, the counter moves to the next number, and no other key
  changes.
\<close>
theorem allocate_rid_returns:
  assumes "etcd_ok E cont"
  shows "\<exists>r w'. allocate_rid E h pid w = Some (r, w') \<and>
    (\<forall>c. r = Inr c \<longrightarrow> rid_counter pid (cont w h) = Some c \<and> rid_counter pid (cont w' h) = Some (c + 1) \<and>
       (\<forall>k. k \<noteq> pool_key pid \<longrightarrow> cont w' h k = cont w h k))"
  by (rule allocate_rid_ok [OF assms, of h pid w]) blast

theorem allocate_rid_returns_witness:
  "\<exists>w'. allocate_rid mem_etcd () (PartitionId ''p'') [] = Some (Inr 1000, w') \<and>
     rid_counter (PartitionId ''p'') (mem_cont w' ()) = Some 1001"
proof -
  obtain r w' where a: "allocate_rid mem_etcd () (PartitionId ''p'') [] = Some (r, w')"
    "\<And>c. r = Inr c \<Longrightarrow> rid_counter (PartitionId ''p'') (mem_cont w' ()) = Some (c + 1)"
    using allocate_rid_returns [OF mem_etcd_ok, of "()" "PartitionId ''p''" "[]"] by metis
  have "fst (rid_attempt mem_etcd () (PartitionId ''p'') []) = Inr (Some 1000)" by code_simp
  then obtain w1 where "rid_attempt mem_etcd () (PartitionId ''p'') [] = (Inr (Some 1000), w1)"
    by (metis prod.collapse)
  with a(1) have "r = Inr 1000" by (subst (asm) allocate_rid.simps) simp
  with a show ?thesis by fastforce
qed

end
